(* ===== verification/Prelude.thy ===== *)
theory Prelude
  imports Main "HOL-Library.Word" "HOL-Library.Code_Target_Nat"
begin

text \<open>
  Shared vocabulary of the development: names for the machine types of the Rust sources, the
  ordered containers of \<open>std::collections\<close> as finite sets and maps, saturating arithmetic, and
  the generic lemmas on lists and folds that the component theories rely on.

  Counters that the sources keep in \<open>u64\<close> or \<open>usize\<close> (terms, log indices, lengths) are
  natural numbers.  The workspace is built with \<open>overflow-checks = true\<close> in every profile, so an
  operation that would leave the machine range aborts the process instead of wrapping; the exact
  arithmetic of \<^typ>\<open>nat\<close> is therefore the source's arithmetic on every run that continues.
  Where a source operation saturates, the clamp is written out.  Values whose width matters (bytes,
  slots, ports, hashes, the random generator) are words of that width.
\<close>

unbundle bit_operations_syntax

named_theorems effect_simps \<open>equations of the effect sink\<close>
named_theorems codec_simps \<open>length and decoding equations of the byte codecs\<close>

type_synonym u8 = "8 word"
type_synonym u16 = "16 word"
type_synonym u32 = "32 word"
type_synonym u64 = "64 word"
type_synonym bytes = "u8 list"

subsection \<open>Machine bounds and saturating operations\<close>

definition u32_max :: nat where
  "u32_max = 4294967295"

definition u64_max :: nat where
  "u64_max = 18446744073709551615"

definition saturating_add_u32 :: "nat \<Rightarrow> nat \<Rightarrow> nat" where
  "saturating_add_u32 a b = min (a + b) u32_max"

definition saturating_add_u64 :: "nat \<Rightarrow> nat \<Rightarrow> nat" where
  "saturating_add_u64 a b = min (a + b) u64_max"

lemma saturating_add_u32_small: "a + b \<le> u32_max \<Longrightarrow> saturating_add_u32 a b = a + b"
  by (simp add: saturating_add_u32_def)

subsection \<open>Ordered sets\<close>

text \<open>
  A \<open>BTreeSet\<close> is a finite set; iterating it visits the elements in ascending order.
\<close>

definition btree_iter :: "'a::linorder set \<Rightarrow> 'a list" where
  "btree_iter A = sorted_list_of_set A"

lemma set_btree_iter [simp]: "finite A \<Longrightarrow> set (btree_iter A) = A"
  by (simp add: btree_iter_def)

lemma distinct_btree_iter [simp]: "distinct (btree_iter A)"
  by (simp add: btree_iter_def)

lemma sorted_btree_iter [simp]: "sorted (btree_iter A)"
  by (simp add: btree_iter_def)

lemma length_filter_btree_iter:
  "finite A \<Longrightarrow> length (filter P (btree_iter A)) = card {x \<in> A. P x}"
  using distinct_card [of "filter P (btree_iter A)"] by simp

subsection \<open>Lists\<close>

lemma fold_invariant_set:
  "\<lbrakk>P s; \<And>x s. x \<in> set xs \<Longrightarrow> P s \<Longrightarrow> P (f x s)\<rbrakk> \<Longrightarrow> P (fold f xs s)"
  by (induction xs arbitrary: s) auto

lemma in_set_drop_conv:
  "x \<in> set (drop k xs) \<longleftrightarrow> (\<exists>j. k \<le> j \<and> j < length xs \<and> xs ! j = x)"
proof
  assume "x \<in> set (drop k xs)"
  then obtain i where "i < length xs - k" "drop k xs ! i = x"
    by (auto simp: in_set_conv_nth)
  then show "\<exists>j. k \<le> j \<and> j < length xs \<and> xs ! j = x"
    by (intro exI [of _ "k + i"]) auto
next
  assume "\<exists>j. k \<le> j \<and> j < length xs \<and> xs ! j = x"
  then obtain j where "k \<le> j" "j < length xs" "xs ! j = x" by blast
  then show "x \<in> set (drop k xs)"
    unfolding in_set_conv_nth by (intro exI [of _ "j - k"]) auto
qed

lemma fold_frame:
  "(\<And>x s. x \<in> set xs \<Longrightarrow> g (f x s) = g s) \<Longrightarrow> g (fold f xs s) = g s"
  by (induction xs arbitrary: s) auto

end
