(* ===== verification/Env.thy ===== *)
theory Env
  imports Prelude
begin

text \<open>
  The determinism seam of the \<open>ironcache-env\<close> crate: monotonic time, the \<open>TestEnv\<close> clock and
  the \<open>SplitMix64\<close> generator with its bounded draw.  A \<open>Duration\<close> is a number of nanoseconds;
  its range ends at \<open>u64::MAX\<close> seconds and 999999999 nanoseconds, where the saturating
  operations clamp.  The bounded draw always stays below its bound, which is what the election
  jitter and the sampling eviction policies rely on.
\<close>

type_synonym duration = nat

definition nanos_per_milli :: nat where
  "nanos_per_milli = 1000000"

definition duration_max :: duration where
  "duration_max = u64_max * 1000000000 + 999999999"

definition from_millis :: "nat \<Rightarrow> duration" where
  "from_millis ms = ms * nanos_per_milli"

definition as_millis_u64 :: "duration \<Rightarrow> nat" where
  "as_millis_u64 d = min (d div nanos_per_milli) u64_max"

definition duration_saturating_add :: "duration \<Rightarrow> duration \<Rightarrow> duration" where
  "duration_saturating_add a b = min (a + b) duration_max"

subsection \<open>Monotonic readings\<close>

datatype monotonic = Monotonic (since_origin: duration)

definition monotonic_zero :: monotonic where
  "monotonic_zero = Monotonic 0"

definition monotonic_as_millis :: "monotonic \<Rightarrow> nat" where
  "monotonic_as_millis t = as_millis_u64 (since_origin t)"

definition saturating_duration_since :: "monotonic \<Rightarrow> monotonic \<Rightarrow> duration" where
  "saturating_duration_since t earlier = since_origin t - since_origin earlier"

definition monotonic_saturating_add :: "monotonic \<Rightarrow> duration \<Rightarrow> monotonic" where
  "monotonic_saturating_add t d = Monotonic (duration_saturating_add (since_origin t) d)"

subsection \<open>The SplitMix64 generator\<close>

text \<open>
  \<open>next_u64\<close> advances the state by the golden-ratio increment and mixes it; every operation wraps
  at 64 bits.
\<close>

record split_mix64 =
  rng_state :: u64

definition split_mix64_new :: "u64 \<Rightarrow> split_mix64" where
  "split_mix64_new seed = \<lparr>rng_state = seed\<rparr>"

definition next_u64 :: "split_mix64 \<Rightarrow> u64 \<times> split_mix64" where
  "next_u64 r =
     (let s = rng_state r + 0x9E3779B97F4A7C15;
          z1 = (s XOR drop_bit 30 s) * 0xBF58476D1CE4E5B9;
          z2 = (z1 XOR drop_bit 27 z1) * 0x94D049BB133111EB
      in (z2 XOR drop_bit 31 z2, r\<lparr>rng_state := s\<rparr>))"

text \<open>
  \<open>gen_below\<close> is the multiply-shift reduction: the 128-bit product of the draw and the bound,
  shifted right by 64.  A zero bound draws nothing.
\<close>

definition gen_below :: "nat \<Rightarrow> split_mix64 \<Rightarrow> nat \<times> split_mix64" where
  "gen_below bound r =
     (if bound = 0 then (0, r)
      else let (z, r') = next_u64 r in (unat z * bound div 2 ^ 64, r'))"

subsection \<open>The deterministic test environment\<close>

record test_env =
  mono :: duration
  unix_millis :: nat
  env_rng :: split_mix64

definition test_env_new :: "u64 \<Rightarrow> test_env" where
  "test_env_new seed = \<lparr>mono = 0, unix_millis = 0, env_rng = split_mix64_new seed\<rparr>"

definition advance :: "duration \<Rightarrow> test_env \<Rightarrow> test_env" where
  "advance d e =
     e\<lparr>mono := duration_saturating_add (mono e) d,
       unix_millis := saturating_add_u64 (unix_millis e) (as_millis_u64 d)\<rparr>"

definition set_unix_millis :: "nat \<Rightarrow> test_env \<Rightarrow> test_env" where
  "set_unix_millis ms e = e\<lparr>unix_millis := ms\<rparr>"

definition test_env_now :: "test_env \<Rightarrow> monotonic" where
  "test_env_now e = Monotonic (mono e)"

subsection \<open>Properties\<close>

lemma gen_below_zero [simp]: "gen_below 0 r = (0, r)"
  by (simp add: gen_below_def)

lemma gen_below_less: "0 < bound \<Longrightarrow> fst (gen_below bound r) < bound"
proof -
  assume "0 < bound"
  obtain z r' where z: "next_u64 r = (z, r')" by fastforce
  have "unat z < 2 ^ 64"
    using unsigned_less [of z] by simp
  with \<open>0 < bound\<close> have "unat z * bound < 2 ^ 64 * bound" by simp
  then have "unat z * bound div 2 ^ 64 < bound"
    by (simp add: less_mult_imp_div_less mult.commute)
  with \<open>0 < bound\<close> z show ?thesis by (simp add: gen_below_def)
qed

lemma since_zero_when_earlier:
  "since_origin t \<le> since_origin e \<Longrightarrow> saturating_duration_since t e = 0"
  by (simp add: saturating_duration_since_def)

lemma advance_monotone:
  "mono e \<le> duration_max \<Longrightarrow> mono e \<le> mono (advance d e) \<and> mono (advance d e) \<le> duration_max"
  by (simp add: advance_def duration_saturating_add_def)

end
