(* ===== verification/Raft_Types.thy ===== *)
theory Raft_Types
  imports Env
begin

text \<open>
  The data of the \<open>ironcache-raft\<close> crate: node identities with their derived order, roles, log
  entries and their payloads (\<open>raft_types.rs\<close>), the message set, the engine's configuration
  (\<open>raft_config.rs\<close>) and the effect sink a step writes into (\<open>raft_effects.rs\<close>).
\<close>

subsection \<open>Identity and roles\<close>

datatype node_id = NodeId (node_num: nat)

text \<open>The derived \<open>Ord\<close> of the newtype compares the wrapped number.\<close>

instantiation node_id :: linorder
begin

definition less_eq_node_id :: "node_id \<Rightarrow> node_id \<Rightarrow> bool" where
  "less_eq_node_id a b \<longleftrightarrow> node_num a \<le> node_num b"

definition less_node_id :: "node_id \<Rightarrow> node_id \<Rightarrow> bool" where
  "less_node_id a b \<longleftrightarrow> node_num a < node_num b"

instance
  by standard (auto simp: less_eq_node_id_def less_node_id_def intro: node_id.expand)

end

lemma NodeId_le [simp]: "NodeId a \<le> NodeId b \<longleftrightarrow> a \<le> b"
  by (simp add: less_eq_node_id_def)

lemma NodeId_less [simp]: "NodeId a < NodeId b \<longleftrightarrow> a < b"
  by (simp add: less_node_id_def)

datatype role = Follower | Candidate | Leader

subsection \<open>Log entries\<close>

datatype membership_change =
    AddVoter node_id
  | RemoveVoter node_id
  | AddLearner node_id
  | PromoteLearner node_id
  | RemoveLearner node_id

datatype config_cmd =
    AddNode string string u16
  | RemoveNode string
  | SetSlotOwner u16 string
  | AssignSlots string "u16 list"
  | UnassignSlots "u16 list"
  | SetConfigEpoch u64
  | AssignReplica string "u16 list"
  | PromoteReplica "u16 list" string
  | SetSlotMigrating u16 string
  | SetSlotImporting u16 string string
  | SetSlotStable u16

datatype entry_payload =
    Noop
  | Bytes bytes
  | Config config_cmd
  | ConfigChange membership_change

record log_entry =
  entry_term :: nat
  entry_index :: nat
  payload :: entry_payload

subsection \<open>Messages\<close>

datatype raft_msg =
    RequestVote nat node_id nat nat
      \<comment> \<open>term, candidate, last log index, last log term\<close>
  | RequestVoteResp nat bool
      \<comment> \<open>term, vote granted\<close>
  | PreVote nat node_id nat nat
      \<comment> \<open>prospective term, candidate, last log index, last log term\<close>
  | PreVoteResp nat bool
      \<comment> \<open>echoed prospective term, vote granted\<close>
  | AppendEntries nat node_id nat nat "log_entry list" nat
      \<comment> \<open>term, leader, previous index, previous term, entries, leader commit\<close>
  | AppendEntriesResp nat bool nat
      \<comment> \<open>term, success, match index\<close>
  | Propose entry_payload
  | ForwardPropose nat entry_payload
      \<comment> \<open>correlation id, payload\<close>
  | ForwardProposeResult nat "nat option"
      \<comment> \<open>correlation id, outcome\<close>
  | InstallSnapshot nat node_id nat nat nat bytes bool "node_id set" "node_id set"
      \<comment> \<open>term, leader, last included index and term, offset, data, done, voters, learners\<close>
  | InstallSnapshotResp nat nat bool nat
      \<comment> \<open>term, last included index, installed, next offset\<close>

subsection \<open>Engine configuration\<close>

record raft_config =
  election_timeout_base :: duration
  election_timeout_jitter :: duration
  heartbeat_interval :: duration
  snapshot_threshold :: nat
  snapshot_chunk_bytes :: nat
  pre_vote :: bool
  check_quorum :: bool

definition DEFAULT_SNAPSHOT_THRESHOLD :: nat where
  "DEFAULT_SNAPSHOT_THRESHOLD = 0"

definition DEFAULT_SNAPSHOT_CHUNK_BYTES :: nat where
  "DEFAULT_SNAPSHOT_CHUNK_BYTES = 256 * 1024"

definition raft_config_default :: raft_config where
  "raft_config_default =
     \<lparr>election_timeout_base = from_millis 150,
      election_timeout_jitter = from_millis 150,
      heartbeat_interval = from_millis 50,
      snapshot_threshold = DEFAULT_SNAPSHOT_THRESHOLD,
      snapshot_chunk_bytes = DEFAULT_SNAPSHOT_CHUNK_BYTES,
      pre_vote = True,
      check_quorum = True\<rparr>"

definition ELECTION_TIMEOUT :: nat where
  "ELECTION_TIMEOUT = 0"

definition HEARTBEAT :: nat where
  "HEARTBEAT = 1"

definition LEARNER_CATCHUP_LAG :: nat where
  "LEARNER_CATCHUP_LAG = 2"

definition PRE_VOTE_FALLBACK_ROUNDS :: nat where
  "PRE_VOTE_FALLBACK_ROUNDS = 3"

subsection \<open>Effects\<close>

datatype timer_op = TimerSet nat duration | TimerCancel nat

record effects =
  sends :: "(node_id \<times> raft_msg) list"
  timer_ops :: "timer_op list"
  committed_through :: "nat option"

definition effects_new :: effects where
  "effects_new = \<lparr>sends = [], timer_ops = [], committed_through = None\<rparr>"

definition send :: "node_id \<Rightarrow> raft_msg \<Rightarrow> effects \<Rightarrow> effects" where
  "send to_node msg e = e\<lparr>sends := sends e @ [(to_node, msg)]\<rparr>"

definition set_timer :: "nat \<Rightarrow> duration \<Rightarrow> effects \<Rightarrow> effects" where
  "set_timer token after e = e\<lparr>timer_ops := timer_ops e @ [TimerSet token after]\<rparr>"

definition cancel_timer :: "nat \<Rightarrow> effects \<Rightarrow> effects" where
  "cancel_timer token e = e\<lparr>timer_ops := timer_ops e @ [TimerCancel token]\<rparr>"

definition note_committed_through :: "nat \<Rightarrow> effects \<Rightarrow> effects" where
  "note_committed_through idx e =
     e\<lparr>committed_through :=
         Some (case committed_through e of Some prev \<Rightarrow> max prev idx | None \<Rightarrow> idx)\<rparr>"

lemma sends_send [effect_simps]: "sends (send n m e) = sends e @ [(n, m)]"
  and sends_set_timer [effect_simps]: "sends (set_timer t d e) = sends e"
  and sends_cancel_timer [effect_simps]: "sends (cancel_timer t e) = sends e"
  and sends_note_committed [effect_simps]: "sends (note_committed_through i e) = sends e"
  by (simp_all add: send_def set_timer_def cancel_timer_def note_committed_through_def)

end
