(* ===== verification/Raft_Storage.thy ===== *)
theory Raft_Storage
  imports Raft_Types
begin

text \<open>
  The storage seam of the Raft engine (\<open>raft_storage.rs\<close>): the in-memory \<open>MemStorage\<close> with
  its offset-indexed log and snapshot, and the contract of the \<open>RaftStorage\<close> trait as the locale
  \<open>raft_storage\<close>.  The contract views a store as a compaction point (the index and term of the last
  entry folded into a snapshot) followed by the surviving entries, numbered consecutively from
  it; \<open>MemStorage\<close> is shown to meet it.
\<close>

type_synonym membership = "node_id set \<times> node_id set"

record snapshot_meta =
  last_included_index :: nat
  last_included_term :: nat

record mem_storage =
  current_term :: nat
  voted_for :: "node_id option"
  log :: "log_entry list"
  log_start :: nat
  snap_meta :: "snapshot_meta option"
  snap_data :: bytes
  stored_baseline :: "membership option"

definition mem_storage_new :: mem_storage where
  "mem_storage_new =
     \<lparr>current_term = 0, voted_for = None, log = [], log_start = 0, snap_meta = None,
      snap_data = [], stored_baseline = None\<rparr>"

subsection \<open>Positions\<close>

text \<open>A default-constructed store has \<open>log_start = 0\<close>, which reads as index 1.\<close>

definition mem_start :: "mem_storage \<Rightarrow> nat" where
  "mem_start s = (if log_start s = 0 then 1 else log_start s)"

definition pos_of :: "mem_storage \<Rightarrow> nat \<Rightarrow> nat option" where
  "pos_of s idx =
     (if idx < mem_start s then None
      else let p = idx - mem_start s in if p < length (log s) then Some p else None)"

subsection \<open>The trait operations\<close>

definition set_current_term :: "nat \<Rightarrow> mem_storage \<Rightarrow> mem_storage" where
  "set_current_term t s = s\<lparr>current_term := t\<rparr>"

definition set_voted_for :: "node_id option \<Rightarrow> mem_storage \<Rightarrow> mem_storage" where
  "set_voted_for v s = s\<lparr>voted_for := v\<rparr>"

definition last_log_index :: "mem_storage \<Rightarrow> nat" where
  "last_log_index s =
     (if log s = [] then (case snap_meta s of None \<Rightarrow> 0 | Some m \<Rightarrow> last_included_index m)
      else entry_index (last (log s)))"

definition last_log_term :: "mem_storage \<Rightarrow> nat" where
  "last_log_term s =
     (if log s = [] then (case snap_meta s of None \<Rightarrow> 0 | Some m \<Rightarrow> last_included_term m)
      else entry_term (last (log s)))"

definition append_entry :: "log_entry \<Rightarrow> mem_storage \<Rightarrow> mem_storage" where
  "append_entry e s = s\<lparr>log := log s @ [e]\<rparr>"

definition term_at :: "mem_storage \<Rightarrow> nat \<Rightarrow> nat" where
  "term_at s idx =
     (let logged = (case pos_of s idx of None \<Rightarrow> 0 | Some p \<Rightarrow> entry_term (log s ! p))
      in if idx = 0 then 0
         else case snap_meta s of
             Some m \<Rightarrow> if idx = last_included_index m then last_included_term m else logged
           | None \<Rightarrow> logged)"

definition entries_from :: "mem_storage \<Rightarrow> nat \<Rightarrow> log_entry list" where
  "entries_from s idx = (let from = max idx (mem_start s) in drop (from - mem_start s) (log s))"

definition truncate_from :: "nat \<Rightarrow> mem_storage \<Rightarrow> mem_storage" where
  "truncate_from idx s =
     (let keep = (if idx \<le> mem_start s then 0 else idx - mem_start s)
      in if keep < length (log s) then s\<lparr>log := take keep (log s)\<rparr> else s)"

definition append_entries :: "log_entry list \<Rightarrow> mem_storage \<Rightarrow> mem_storage" where
  "append_entries es s = s\<lparr>log := log s @ es\<rparr>"

definition entry_at :: "mem_storage \<Rightarrow> nat \<Rightarrow> log_entry option" where
  "entry_at s idx = (if idx = 0 then None else map_option (\<lambda>p. log s ! p) (pos_of s idx))"

definition save_snapshot :: "snapshot_meta \<Rightarrow> bytes \<Rightarrow> mem_storage \<Rightarrow> mem_storage" where
  "save_snapshot m d s = s\<lparr>snap_meta := Some m, snap_data := d\<rparr>"

definition load_snapshot :: "mem_storage \<Rightarrow> (snapshot_meta \<times> bytes) option" where
  "load_snapshot s = map_option (\<lambda>m. (m, snap_data s)) (snap_meta s)"

definition compact_to :: "nat \<Rightarrow> mem_storage \<Rightarrow> mem_storage" where
  "compact_to idx s =
     (if idx < mem_start s \<or> idx = 0 then s
      else s\<lparr>log := drop (min (idx - mem_start s + 1) (length (log s))) (log s),
             log_start := idx + 1\<rparr>)"

definition log_start_index :: "mem_storage \<Rightarrow> nat" where
  "log_start_index s = mem_start s"

definition save_config_baseline :: "membership \<Rightarrow> mem_storage \<Rightarrow> mem_storage" where
  "save_config_baseline b s = s\<lparr>stored_baseline := Some b\<rparr>"

definition load_config_baseline :: "mem_storage \<Rightarrow> membership option" where
  "load_config_baseline s = stored_baseline s"

lemmas storage_defs =
  set_current_term_def set_voted_for_def append_entry_def truncate_from_def append_entries_def
  save_snapshot_def compact_to_def save_config_baseline_def

subsection \<open>The contract of the storage trait\<close>

text \<open>
  Entries numbered consecutively from \<open>n\<close>, with real terms (term 0 stands for "no entry").
\<close>

definition numbered_from :: "nat \<Rightarrow> log_entry list \<Rightarrow> bool" where
  "numbered_from n es \<longleftrightarrow>
     (\<forall>i < length es. entry_index (es ! i) = n + i \<and> 0 < entry_term (es ! i))"

lemma numbered_from_Nil [simp]: "numbered_from n []"
  by (simp add: numbered_from_def)

lemma numbered_from_Cons [simp]:
  "numbered_from n (e # es) \<longleftrightarrow>
     entry_index e = n \<and> 0 < entry_term e \<and> numbered_from (Suc n) es"
  by (auto simp: numbered_from_def nth_Cons split: nat.splits)

lemma numbered_from_append [simp]:
  "numbered_from n (xs @ ys) \<longleftrightarrow> numbered_from n xs \<and> numbered_from (n + length xs) ys"
  by (induction xs arbitrary: n) auto

lemma numbered_from_take: "numbered_from n es \<Longrightarrow> numbered_from n (take k es)"
  by (simp add: numbered_from_def)

lemma numbered_from_drop: "numbered_from n es \<Longrightarrow> numbered_from (n + k) (drop k es)"
  by (auto simp: numbered_from_def algebra_simps)

lemma numbered_from_last:
  "numbered_from n es \<Longrightarrow> es \<noteq> [] \<Longrightarrow> entry_index (last es) = n + length es - 1"
  by (cases es rule: rev_cases) auto

locale raft_storage =
  fixes inv :: "'s \<Rightarrow> bool"
    and base :: "'s \<Rightarrow> nat"
    and base_term :: "'s \<Rightarrow> nat"
    and entries :: "'s \<Rightarrow> log_entry list"
    and last_index :: "'s \<Rightarrow> nat"
    and start_index :: "'s \<Rightarrow> nat"
    and term_of :: "'s \<Rightarrow> nat \<Rightarrow> nat"
    and entry_of :: "'s \<Rightarrow> nat \<Rightarrow> log_entry option"
    and suffix_from :: "'s \<Rightarrow> nat \<Rightarrow> log_entry list"
    and app :: "log_entry list \<Rightarrow> 's \<Rightarrow> 's"
    and trunc :: "nat \<Rightarrow> 's \<Rightarrow> 's"
  assumes numbered: "inv s \<Longrightarrow> numbered_from (Suc (base s)) (entries s)"
    and base_term_zero: "inv s \<Longrightarrow> base s = 0 \<Longrightarrow> base_term s = 0"
    and last_index: "inv s \<Longrightarrow> last_index s = base s + length (entries s)"
    and start_index: "inv s \<Longrightarrow> start_index s = Suc (base s)"
    and entry_of: "inv s \<Longrightarrow> entry_of s i =
        (if base s < i \<and> i \<le> base s + length (entries s)
         then Some (entries s ! (i - Suc (base s))) else None)"
    and term_of: "inv s \<Longrightarrow> term_of s i =
        (if i = base s then base_term s
         else case entry_of s i of None \<Rightarrow> 0 | Some e \<Rightarrow> entry_term e)"
    and suffix_from: "inv s \<Longrightarrow> base s < i \<Longrightarrow> suffix_from s i = drop (i - Suc (base s)) (entries s)"
    and inv_app: "inv s \<Longrightarrow> numbered_from (Suc (last_index s)) es \<Longrightarrow> inv (app es s)"
    and entries_app: "inv s \<Longrightarrow> entries (app es s) = entries s @ es"
    and base_app: "base (app es s) = base s" "base_term (app es s) = base_term s"
    and inv_trunc: "inv s \<Longrightarrow> inv (trunc i s)"
    and entries_trunc: "inv s \<Longrightarrow> base s < i \<Longrightarrow> entries (trunc i s) = take (i - Suc (base s)) (entries s)"
    and base_trunc: "base (trunc i s) = base s" "base_term (trunc i s) = base_term s"

subsection \<open>MemStorage meets the contract\<close>

definition mem_base :: "mem_storage \<Rightarrow> nat" where
  "mem_base s = mem_start s - 1"

definition mem_base_term :: "mem_storage \<Rightarrow> nat" where
  "mem_base_term s = (case snap_meta s of None \<Rightarrow> 0 | Some m \<Rightarrow> last_included_term m)"

definition wf_storage :: "mem_storage \<Rightarrow> bool" where
  "wf_storage s \<longleftrightarrow>
     numbered_from (mem_start s) (log s) \<and>
     (case snap_meta s of
        None \<Rightarrow> mem_start s = 1
      | Some m \<Rightarrow> 0 < last_included_index m \<and> mem_start s = Suc (last_included_index m))"

lemma mem_start_pos [simp]: "0 < mem_start s"
  by (simp add: mem_start_def)

lemma mem_start_eq: "mem_start s = Suc (mem_base s)"
  by (simp add: mem_base_def Suc_diff_1 del: One_nat_def)

lemma mem_start_frame [simp]:
  "mem_start (s\<lparr>current_term := t\<rparr>) = mem_start s"
  "mem_start (s\<lparr>voted_for := v\<rparr>) = mem_start s"
  "mem_start (s\<lparr>log := l\<rparr>) = mem_start s"
  "mem_start (s\<lparr>snap_meta := sm\<rparr>) = mem_start s"
  "mem_start (s\<lparr>snap_data := d\<rparr>) = mem_start s"
  "mem_start (s\<lparr>stored_baseline := b\<rparr>) = mem_start s"
  by (simp_all add: mem_start_def)

lemma mem_start_truncate [simp]: "mem_start (truncate_from i s) = mem_start s"
  by (simp add: truncate_from_def Let_def)

lemma snap_meta_truncate [simp]: "snap_meta (truncate_from i s) = snap_meta s"
  by (simp add: truncate_from_def Let_def)

lemma mem_base_frame [simp]:
  "mem_base (truncate_from i s) = mem_base s"
  "mem_base (append_entries es s) = mem_base s"
  "mem_base_term (truncate_from i s) = mem_base_term s"
  "mem_base_term (append_entries es s) = mem_base_term s"
  by (simp_all add: mem_base_def mem_base_term_def append_entries_def)

lemma log_append_entries [simp]: "log (append_entries es s) = log s @ es"
  by (simp add: append_entries_def)

lemma log_truncate: "mem_start s \<le> i \<Longrightarrow> log (truncate_from i s) = take (i - mem_start s) (log s)"
  by (auto simp: truncate_from_def Let_def)

lemma last_log_index_wf: "wf_storage s \<Longrightarrow> last_log_index s = mem_base s + length (log s)"
  using numbered_from_last [of "mem_start s" "log s"]
  by (auto simp: wf_storage_def last_log_index_def mem_base_def split: option.splits)

lemma mem_entry_at:
  "entry_at s i =
     (if mem_base s < i \<and> i \<le> mem_base s + length (log s)
      then Some (log s ! (i - mem_start s)) else None)"
  by (auto simp: entry_at_def pos_of_def Let_def mem_start_eq)

lemma mem_term_at:
  "wf_storage s \<Longrightarrow> term_at s i =
     (if i = mem_base s then mem_base_term s
      else case entry_at s i of None \<Rightarrow> 0 | Some e \<Rightarrow> entry_term e)"
  by (auto simp: term_at_def entry_at_def wf_storage_def mem_base_def mem_base_term_def pos_of_def
        Let_def split: option.splits)

lemma wf_truncate_from: "wf_storage s \<Longrightarrow> wf_storage (truncate_from i s)"
  by (auto simp: wf_storage_def truncate_from_def Let_def numbered_from_take split: option.splits)

lemma wf_append_entries:
  "wf_storage s \<Longrightarrow> numbered_from (Suc (last_log_index s)) es \<Longrightarrow> wf_storage (append_entries es s)"
proof -
  assume wf: "wf_storage s" and es: "numbered_from (Suc (last_log_index s)) es"
  have "Suc (last_log_index s) = mem_start s + length (log s)"
    using last_log_index_wf [OF wf] by (simp add: mem_start_eq)
  with wf es show ?thesis
    by (simp add: wf_storage_def append_entries_def split: option.splits)
qed

interpretation mem: raft_storage wf_storage mem_base mem_base_term log last_log_index
  log_start_index term_at entry_at entries_from append_entries truncate_from
proof unfold_locales
  fix s :: mem_storage and i :: nat
  assume wf: "wf_storage s"
  show "numbered_from (Suc (mem_base s)) (log s)"
    using wf by (simp add: wf_storage_def mem_start_eq)
  show "mem_base s = 0 \<Longrightarrow> mem_base_term s = 0"
    using wf by (auto simp: wf_storage_def mem_base_def mem_base_term_def split: option.splits)
  show "mem_base s < i \<Longrightarrow> entries_from s i = drop (i - Suc (mem_base s)) (log s)"
    by (simp add: entries_from_def max_def Suc_le_eq mem_start_eq)
  show "mem_base s < i \<Longrightarrow> log (truncate_from i s) = take (i - Suc (mem_base s)) (log s)"
    by (simp add: log_truncate Suc_le_eq mem_start_eq)
qed (auto simp: last_log_index_wf log_start_index_def mem_entry_at mem_term_at wf_append_entries
      wf_truncate_from mem_start_eq)

subsection \<open>The remaining operations keep the store well formed\<close>

lemma wf_storage_new [simp]: "wf_storage mem_storage_new"
  by (simp add: wf_storage_def mem_storage_new_def mem_start_def)

lemma wf_storage_frame [simp]:
  "wf_storage (s\<lparr>current_term := t\<rparr>) = wf_storage s"
  "wf_storage (s\<lparr>voted_for := v\<rparr>) = wf_storage s"
  "wf_storage (s\<lparr>stored_baseline := b\<rparr>) = wf_storage s"
  by (auto simp: wf_storage_def split: option.splits)

lemma wf_snapshot_compact:
  assumes wf: "wf_storage s" and i: "mem_start s \<le> last_included_index m"
    and fits: "last_included_index m \<le> last_log_index s \<or> log s = []"
  shows "wf_storage (compact_to (last_included_index m) (save_snapshot m d s))"
proof -
  let ?i = "last_included_index m"
  have start: "mem_start (s\<lparr>log := l, log_start := Suc ?i, snap_meta := sm, snap_data := d\<rparr>) = Suc ?i"
    for l sm by (simp add: mem_start_def)
  have len: "?i - mem_start s + 1 \<le> length (log s) \<or> log s = []"
    using fits last_log_index_wf [OF wf] i by (auto simp: mem_start_eq)
  have "numbered_from (mem_start s + (?i - mem_start s + 1)) (drop (?i - mem_start s + 1) (log s))"
    using wf by (intro numbered_from_drop) (simp add: wf_storage_def)
  moreover have "mem_start s + (?i - mem_start s + 1) = Suc ?i"
    using i by simp
  ultimately have "numbered_from (Suc ?i) (drop (min (?i - mem_start s + 1) (length (log s))) (log s))"
    using len by (auto simp: min_def)
  moreover have "0 < ?i"
    using i mem_start_pos [of s] by linarith
  ultimately show ?thesis
    using i by (auto simp: wf_storage_def compact_to_def save_snapshot_def mem_start_def)
qed

end
