(* ===== verification/Raft_Log.thy ===== *)
theory Raft_Log
  imports Raft_Storage
begin

text \<open>
  The loops of the engine (\<open>lib.rs\<close>) that walk the log through the storage seam: the conflict scan
  and repair of an \<open>AppendEntries\<close> (rules 3 and 4 of the paper), the replay of membership deltas
  and the search for a membership change in flight.  They take the storage operations as
  arguments, and what they compute is stated once, inside the contract \<open>raft_storage\<close>, as plain
  functions of the surviving entries.
\<close>

subsection \<open>Membership deltas\<close>

fun apply_membership_delta :: "membership_change \<Rightarrow> membership \<Rightarrow> membership" where
  "apply_membership_delta (AddVoter n) (vs, ls) = (insert n vs, ls - {n})"
| "apply_membership_delta (RemoveVoter n) (vs, ls) = (vs - {n}, ls)"
| "apply_membership_delta (AddLearner n) (vs, ls) = (vs, if n \<in> vs then ls else insert n ls)"
| "apply_membership_delta (PromoteLearner n) (vs, ls) = (insert n vs, ls - {n})"
| "apply_membership_delta (RemoveLearner n) (vs, ls) = (vs, ls - {n})"

definition replay_entry :: "log_entry \<Rightarrow> membership \<Rightarrow> membership" where
  "replay_entry e b = (case payload e of ConfigChange ch \<Rightarrow> apply_membership_delta ch b | _ \<Rightarrow> b)"

text \<open>\<open>replay_membership\<close> is the loop shared by \<open>config_at\<close> and \<open>recompute_config_from_log\<close>.\<close>

definition replay_membership ::
    "(nat \<Rightarrow> log_entry option) \<Rightarrow> nat \<Rightarrow> nat \<Rightarrow> membership \<Rightarrow> membership" where
  "replay_membership look first final b =
     fold (\<lambda>idx vl. case look idx of Some e \<Rightarrow> replay_entry e vl | None \<Rightarrow> vl) [first..<Suc final] b"

definition is_config_change :: "entry_payload \<Rightarrow> bool" where
  "is_config_change p = (case p of ConfigChange _ \<Rightarrow> True | _ \<Rightarrow> False)"

definition change_in_range :: "(nat \<Rightarrow> log_entry option) \<Rightarrow> nat \<Rightarrow> nat \<Rightarrow> bool" where
  "change_in_range look first final =
     list_ex (\<lambda>idx. case look idx of Some e \<Rightarrow> is_config_change (payload e) | None \<Rightarrow> False)
       [first..<Suc final]"

subsection \<open>The AppendEntries repair\<close>

text \<open>
  The scan returns the position of the first entry to append and, when an existing entry disagrees,
  the log index to truncate from.
\<close>

fun scan_conflict :: "(nat \<Rightarrow> nat) \<Rightarrow> nat \<Rightarrow> nat \<Rightarrow> log_entry list \<Rightarrow> nat \<times> nat option" where
  "scan_conflict term_of prev i [] = (i, None)"
| "scan_conflict term_of prev i (e # es) =
     (let idx = prev + 1 + i; existing = term_of idx
      in if existing = 0 then (i, None)
         else if existing \<noteq> entry_term e then (i, Some idx)
         else scan_conflict term_of prev (i + 1) es)"

definition reconcile_log ::
    "('s \<Rightarrow> nat \<Rightarrow> nat) \<Rightarrow> (nat \<Rightarrow> 's \<Rightarrow> 's) \<Rightarrow> (log_entry list \<Rightarrow> 's \<Rightarrow> 's) \<Rightarrow>
     nat \<Rightarrow> log_entry list \<Rightarrow> 's \<Rightarrow> 's \<times> bool \<times> bool" where
  "reconcile_log term_of trunc app prev es s =
     (let (k, conflict) = scan_conflict (term_of s) prev 0 es;
          s1 = (case conflict of Some idx \<Rightarrow> trunc idx s | None \<Rightarrow> s);
          appended = k < length es
      in (if appended then app (drop k es) s1 else s1, conflict \<noteq> None, appended))"

text \<open>
  What the repair means for the entries above \<open>prev\<close>: keep the existing ones while their terms
  agree with the incoming ones, replace everything from the first disagreement on, and keep a
  longer existing tail when nothing disagrees.
\<close>

fun merge_suffix :: "log_entry list \<Rightarrow> log_entry list \<Rightarrow> log_entry list" where
  "merge_suffix xs [] = xs"
| "merge_suffix [] es = es"
| "merge_suffix (x # xs) (e # es) =
     (if entry_term x = entry_term e then x # merge_suffix xs es else e # es)"

lemma merge_suffix_Nil [simp]: "merge_suffix [] es = es"
  by (cases es) auto

lemma length_merge_suffix: "length es \<le> length (merge_suffix xs es)"
  by (induction xs es rule: merge_suffix.induct) auto

lemma merge_suffix_terms:
  "map entry_term (take (length es) (merge_suffix xs es)) = map entry_term es"
  by (induction xs es rule: merge_suffix.induct) auto

lemma merge_suffix_same:
  "length es \<le> length xs \<Longrightarrow> map entry_term (take (length es) xs) = map entry_term es \<Longrightarrow>
   merge_suffix xs es = xs"
  by (induction xs es rule: merge_suffix.induct) auto

lemma merge_suffix_agree:
  "k \<le> length xs \<Longrightarrow> k \<le> length es \<Longrightarrow> map entry_term (take k xs) = map entry_term (take k es) \<Longrightarrow>
   take k (merge_suffix xs es) = take k xs"
proof (induction xs es arbitrary: k rule: merge_suffix.induct)
  case (3 x xs e es)
  then show ?case by (cases k) auto
qed auto

text \<open>The number of leading incoming entries that agree with the existing ones.\<close>

fun match_len :: "log_entry list \<Rightarrow> log_entry list \<Rightarrow> nat" where
  "match_len (x # xs) (e # es) = (if entry_term x = entry_term e then Suc (match_len xs es) else 0)"
| "match_len _ _ = 0"

lemma match_len_le: "match_len xs es \<le> length xs" "match_len xs es \<le> length es"
  by (induction xs es rule: match_len.induct) auto

lemma merge_suffix_match:
  "merge_suffix xs es =
     (if match_len xs es = length es then xs else take (match_len xs es) xs @ drop (match_len xs es) es)"
  by (induction xs es rule: merge_suffix.induct) (auto simp: neq_Nil_conv)

lemma numbered_merge_suffix:
  "numbered_from n xs \<Longrightarrow> numbered_from n es \<Longrightarrow> numbered_from n (merge_suffix xs es)"
  by (induction xs es arbitrary: n rule: merge_suffix.induct) auto

subsection \<open>The loops over a store that meets the contract\<close>

context raft_storage
begin

lemma replay_prefix:
  "inv s \<Longrightarrow> k \<le> length (entries s) \<Longrightarrow>
   replay_membership (entry_of s) (start_index s) (base s + k) b = fold replay_entry (take k (entries s)) b"
proof (induction k)
  case 0
  then show ?case by (simp add: replay_membership_def start_index)
next
  case (Suc k)
  then have "entry_of s (Suc (base s + k)) = Some (entries s ! k)"
    by (simp add: entry_of)
  with Suc show ?case
    by (simp add: replay_membership_def start_index take_Suc_conv_app_nth)
qed

lemma replay_all:
  "inv s \<Longrightarrow>
   replay_membership (entry_of s) (start_index s) (last_index s) b = fold replay_entry (entries s) b"
  using replay_prefix [of s "length (entries s)"] by (simp add: last_index)

lemma change_in_range_iff:
  assumes "inv s" and "base s \<le> c"
  shows "change_in_range (entry_of s) (max (start_index s) (Suc c)) (last_index s) \<longleftrightarrow>
         (\<exists>e \<in> set (drop (c - base s) (entries s)). is_config_change (payload e))"
proof -
  let ?change = "\<lambda>i. is_config_change (payload (entries s ! (i - Suc (base s))))"
  have look: "entry_of s i = Some (entries s ! (i - Suc (base s)))" if "c < i" "i \<le> last_index s" for i
    using that assms by (simp add: entry_of last_index)
  have "max (start_index s) (Suc c) = Suc c"
    using assms by (simp add: start_index)
  then have "change_in_range (entry_of s) (max (start_index s) (Suc c)) (last_index s) \<longleftrightarrow>
        (\<exists>i \<in> {Suc c..<Suc (last_index s)}.
           case entry_of s i of Some e \<Rightarrow> is_config_change (payload e) | None \<Rightarrow> False)"
    by (simp add: change_in_range_def list_ex_iff del: upt_Suc)
  also have "\<dots> \<longleftrightarrow> (\<exists>i \<in> {Suc c..<Suc (last_index s)}. ?change i)"
    by (intro bex_cong refl) (simp add: look)
  also have "\<dots> \<longleftrightarrow> (\<exists>i. c < i \<and> i \<le> last_index s \<and> ?change i)"
    by (simp add: Bex_def Suc_le_eq less_Suc_eq_le conj_assoc)
  also have "\<dots> \<longleftrightarrow> (\<exists>j. c - base s \<le> j \<and> j < length (entries s) \<and>
                       is_config_change (payload (entries s ! j)))"
  proof
    assume "\<exists>i. c < i \<and> i \<le> last_index s \<and> is_config_change (payload (entries s ! (i - Suc (base s))))"
    then obtain i where "c < i" "i \<le> last_index s"
      "is_config_change (payload (entries s ! (i - Suc (base s))))" by blast
    with assms show "\<exists>j. c - base s \<le> j \<and> j < length (entries s) \<and>
        is_config_change (payload (entries s ! j))"
      by (intro exI [of _ "i - Suc (base s)"]) (auto simp: last_index)
  next
    assume "\<exists>j. c - base s \<le> j \<and> j < length (entries s) \<and> is_config_change (payload (entries s ! j))"
    then obtain j where "c - base s \<le> j" "j < length (entries s)"
      "is_config_change (payload (entries s ! j))" by blast
    with assms show "\<exists>i. c < i \<and> i \<le> last_index s \<and>
        is_config_change (payload (entries s ! (i - Suc (base s))))"
      by (intro exI [of _ "Suc (base s + j)"]) (auto simp: last_index)
  qed
  also have "\<dots> \<longleftrightarrow> (\<exists>e \<in> set (drop (c - base s) (entries s)). is_config_change (payload e))"
    by (simp add: Bex_def in_set_drop_conv) metis
  finally show ?thesis .
qed

text \<open>Below the scanned suffix: the index of an entry and its term.\<close>

lemma term_of_entry:
  "inv s \<Longrightarrow> j < length (entries s) \<Longrightarrow> term_of s (Suc (base s + j)) = entry_term (entries s ! j)"
  by (simp add: term_of entry_of)

lemma term_of_above: "inv s \<Longrightarrow> base s + length (entries s) < i \<Longrightarrow> term_of s i = 0"
  by (simp add: term_of entry_of)

lemma term_of_entry_pos:
  "inv s \<Longrightarrow> j < length (entries s) \<Longrightarrow> 0 < entry_term (entries s ! j)"
  using numbered [of s] by (simp add: numbered_from_def)

lemma scan_conflict_match:
  assumes "inv s" and "base s \<le> prev" and "prev - base s + i \<le> length (entries s)"
  shows "scan_conflict (term_of s) prev i es =
    (let xs = drop (prev - base s + i) (entries s); m = match_len xs es
     in (i + m, if m < length es \<and> m < length xs then Some (prev + 1 + i + m) else None))"
  using assms(3)
proof (induction es arbitrary: i)
  case Nil
  then show ?case by (simp add: Let_def)
next
  case (Cons e es)
  let ?d = "prev - base s + i"
  have idx: "prev + 1 + i = Suc (base s + ?d)"
    using assms(2) by simp
  show ?case
  proof (cases "?d < length (entries s)")
    case False
    moreover from False have "term_of s (prev + 1 + i) = 0"
      unfolding idx using assms(1) by (intro term_of_above) simp_all
    ultimately show ?thesis by (simp add: Let_def)
  next
    case True
    have "term_of s (prev + 1 + i) = entry_term (entries s ! ?d)"
      unfolding idx using True assms(1) by (simp add: term_of_entry)
    moreover have "entry_term (entries s ! ?d) \<noteq> 0"
      using term_of_entry_pos [OF assms(1) True] by simp
    moreover have "drop ?d (entries s) = entries s ! ?d # drop (?d + 1) (entries s)"
      using True by (simp add: Cons_nth_drop_Suc)
    moreover have "scan_conflict (term_of s) prev (i + 1) es =
       (let xs = drop (?d + 1) (entries s); m = match_len xs es
        in (i + 1 + m, if m < length es \<and> m < length xs then Some (prev + 1 + (i + 1) + m) else None))"
      using Cons.IH [of "i + 1"] True by (simp add: add.assoc)
    ultimately show ?thesis by (simp add: Let_def)
  qed
qed

text \<open>
  The repair refines \<open>merge_suffix\<close>: the entries up to \<open>prev\<close> stay and the rest is merged.
\<close>

lemma reconcile_refines:
  assumes inv: "inv s" and lo: "base s \<le> prev" and hi: "prev \<le> last_index s"
    and num: "numbered_from (Suc prev) es"
    and rec: "reconcile_log term_of trunc app prev es s = (s', truncated, appended)"
  shows "inv s' \<and> base s' = base s \<and> base_term s' = base_term s \<and>
    entries s' = take (prev - base s) (entries s) @ merge_suffix (drop (prev - base s) (entries s)) es"
proof -
  let ?d = "prev - base s"
  let ?xs = "drop ?d (entries s)"
  let ?m = "match_len ?xs es"
  let ?cut = "?m < length es \<and> ?m < length ?xs"
  define s1 where "s1 = (if ?cut then trunc (prev + 1 + ?m) s else s)"
  have d: "?d \<le> length (entries s)"
    using inv hi by (simp add: last_index)
  have s': "s' = (if ?m < length es then app (drop ?m es) s1 else s1)"
    using rec d scan_conflict_match [OF inv lo, of 0 es]
    by (auto simp: reconcile_log_def s1_def Let_def split: if_splits)
  have inv1: "inv s1"
    using inv inv_trunc by (simp add: s1_def)
  have e1: "entries s1 = (if ?m < length es then take ?d (entries s) @ take ?m ?xs else entries s)"
  proof (cases ?cut)
    case True
    with inv lo show ?thesis
      by (simp add: s1_def entries_trunc flip: take_add)
  next
    case False
    with match_len_le(1) [of ?xs es] show ?thesis by (simp add: s1_def)
  qed
  have b1: "base s1 = base s" "base_term s1 = base_term s"
    by (simp_all add: s1_def base_trunc)
  show ?thesis
  proof (cases "?m < length es")
    case True
    have "last_index s1 = prev + ?m"
      using True inv1 e1 b1 d lo match_len_le(1) [of ?xs es] by (simp add: last_index)
    moreover have "numbered_from (Suc prev + ?m) (drop ?m es)"
      using num by (rule numbered_from_drop)
    ultimately have "inv (app (drop ?m es) s1)"
      using inv1 by (intro inv_app) simp_all
    with True s' b1 e1 inv1 show ?thesis
      by (simp add: base_app entries_app merge_suffix_match)
  next
    case False
    with match_len_le(2) [of ?xs es] have "?m = length es" by simp
    with s' b1 e1 inv1 show ?thesis by (simp add: merge_suffix_match)
  qed
qed

end

end
