(* ===== verification/Bytes.thy ===== *)
theory Bytes
  imports Prelude
begin

text \<open>
  Byte-level encodings shared by the snapshot and wire codecs: little- and big-endian integers of a
  given number of bytes (\<open>to_le_bytes\<close>, \<open>to_be_bytes\<close> and their inverses) and the contract of a
  self-delimiting codec, whose decoder returns the value it read and the rest of the input.
\<close>

primrec le_bytes :: "nat \<Rightarrow> nat \<Rightarrow> bytes" where
  "le_bytes 0 v = []"
| "le_bytes (Suc n) v = of_nat v # le_bytes n (v div 256)"

primrec le_value :: "bytes \<Rightarrow> nat" where
  "le_value [] = 0"
| "le_value (b # bs) = unat b + 256 * le_value bs"

definition be_bytes :: "nat \<Rightarrow> nat \<Rightarrow> bytes" where
  "be_bytes n v = rev (le_bytes n v)"

definition be_value :: "bytes \<Rightarrow> nat" where
  "be_value bs = le_value (rev bs)"

lemma length_le_bytes [simp, codec_simps]: "length (le_bytes n v) = n"
  by (induction n arbitrary: v) auto

lemma length_be_bytes [simp, codec_simps]: "length (be_bytes n v) = n"
  by (simp add: be_bytes_def)

lemma unat_of_nat_u8: "unat (of_nat v :: u8) = v mod 256"
  by (simp add: unat_of_nat)

lemma le_value_le_bytes: "le_value (le_bytes n v) = v mod 256 ^ n"
proof (induction n arbitrary: v)
  case (Suc n)
  have "le_value (le_bytes (Suc n) v) = v mod 256 + 256 * (v div 256 mod 256 ^ n)"
    by (simp add: Suc unat_of_nat_u8)
  also have "\<dots> = v mod (256 * 256 ^ n)"
    by (simp add: mod_mult2_eq)
  finally show ?case by simp
qed simp

lemma be_value_be_bytes: "be_value (be_bytes n v) = v mod 256 ^ n"
  by (simp add: be_value_def be_bytes_def le_value_le_bytes)

lemma le_value_less: "le_value bs < 256 ^ length bs"
proof (induction bs)
  case (Cons b bs)
  have "unat b < 256"
    using unsigned_less [of b] by simp
  with Cons show ?case by simp
qed simp

lemma be_value_less: "be_value bs < 256 ^ length bs"
  using le_value_less [of "rev bs"] by (simp add: be_value_def)

lemma le_bytes_le_value: "le_bytes (length bs) (le_value bs) = bs"
proof (induction bs)
  case (Cons b bs)
  have b: "unat b < 256"
    using unsigned_less [of b] by simp
  have "(of_nat (unat b + 256 * le_value bs) :: u8) = of_nat (unat b)"
    using b by (intro word_of_nat_eq_iff [THEN iffD2]) (simp add: take_bit_eq_mod)
  with b Cons show ?case by simp
qed simp

lemma le_value_word:
  fixes w :: "'a::len word"
  assumes "unat w < 256 ^ n"
  shows "of_nat (le_value (le_bytes n (unat w))) = w"
  unfolding le_value_le_bytes using assms by (simp only: mod_less of_nat_unat ucast_id)

subsection \<open>Self-delimiting codecs\<close>

text \<open>
  A streaming decoder that succeeds on some input succeeds alike on every longer one, and leaves the
  additional bytes unread.
\<close>

definition streaming :: "(bytes \<Rightarrow> ('a \<times> bytes) option) \<Rightarrow> bool" where
  "streaming dec \<longleftrightarrow> (\<forall>bs x rest ext. dec bs = Some (x, rest) \<longrightarrow> dec (bs @ ext) = Some (x, rest @ ext))"

named_theorems streaming_intros \<open>decoder combinators preserve streaming\<close>

lemma streamingD: "streaming dec \<Longrightarrow> dec bs = Some (x, rest) \<Longrightarrow> dec (bs @ ext) = Some (x, rest @ ext)"
  by (simp add: streaming_def)

lemma streaming_return [streaming_intros]: "streaming (\<lambda>bs. Some (x, bs))"
  by (simp add: streaming_def)

lemma streaming_fail [streaming_intros]: "streaming (\<lambda>bs. None)"
  by (simp add: streaming_def)

lemma streaming_bind [streaming_intros]:
  assumes "streaming dec" and "\<And>x. streaming (f x)"
  shows "streaming (\<lambda>bs. Option.bind (dec bs) (\<lambda>(x, bs). f x bs))"
  unfolding streaming_def
proof (intro allI impI)
  fix bs x rest ext
  assume "Option.bind (dec bs) (\<lambda>(x, bs). f x bs) = Some (x, rest)"
  then obtain y r where "dec bs = Some (y, r)" "f y r = Some (x, rest)"
    by (auto simp: bind_eq_Some_conv)
  with assms show "Option.bind (dec (bs @ ext)) (\<lambda>(x, bs). f x bs) = Some (x, rest @ ext)"
    by (simp add: streamingD)
qed

lemma streaming_guard [streaming_intros]:
  "(\<And>y. streaming (f y)) \<Longrightarrow> streaming (\<lambda>bs. Option.bind m (\<lambda>y. f y bs))"
  by (cases m) (simp_all add: streaming_def)

lemma streaming_if [streaming_intros]:
  "streaming f \<Longrightarrow> streaming g \<Longrightarrow> streaming (\<lambda>bs. if P then f bs else g bs)"
  by (cases P) simp_all

locale codec =
  fixes enc :: "'a \<Rightarrow> bytes"
    and dec :: "bytes \<Rightarrow> ('a \<times> bytes) option"
    and ok :: "'a \<Rightarrow> bool"
  assumes dec_enc: "ok x \<Longrightarrow> dec (enc x @ rest) = Some (x, rest)"
    and dec_streaming: "streaming dec"
begin

text \<open>What was encoded first is determined by the bytes: a codec is prefix free.\<close>

lemma enc_prefix_free: "ok x \<Longrightarrow> ok y \<Longrightarrow> enc x @ r = enc y @ r' \<Longrightarrow> x = y \<and> r = r'"
  by (metis dec_enc option.inject prod.inject)

lemma enc_inj: "ok x \<Longrightarrow> ok y \<Longrightarrow> enc x = enc y \<Longrightarrow> x = y"
  using enc_prefix_free [of x y "[]" "[]"] by simp

text \<open>A truncated encoding does not decode to a value with nothing left over.\<close>

lemma truncated_undecoded:
  assumes "ok x" and "enc x = bs @ more" and "more \<noteq> []"
  shows "dec bs \<noteq> Some (y, [])"
proof
  assume "dec bs = Some (y, [])"
  then have "dec (enc x @ []) = Some (y, more)" using streamingD [OF dec_streaming] assms(2) by (metis append.left_neutral append.right_neutral)
  with dec_enc [OF assms(1), of "[]"] assms(3) show False by simp
qed

end

text \<open>A counted repetition of a codec.\<close>

fun dec_count :: "(bytes \<Rightarrow> ('a \<times> bytes) option) \<Rightarrow> nat \<Rightarrow> bytes \<Rightarrow> ('a list \<times> bytes) option" where
  "dec_count dec 0 bs = Some ([], bs)"
| "dec_count dec (Suc n) bs =
     (case dec bs of
        None \<Rightarrow> None
      | Some (x, rest) \<Rightarrow>
          (case dec_count dec n rest of None \<Rightarrow> None | Some (xs, rest') \<Rightarrow> Some (x # xs, rest')))"

lemma streaming_dec_count [streaming_intros]: "streaming dec \<Longrightarrow> streaming (dec_count dec n)"
proof (induction n)
  case (Suc n)
  have "dec_count dec (Suc n) = (\<lambda>bs. Option.bind (dec bs) (\<lambda>(x, bs).
      Option.bind (dec_count dec n bs) (\<lambda>(xs, bs). Some (x # xs, bs))))"
    by (auto simp: fun_eq_iff Option.bind_def split: option.splits)
  with Suc show ?case by (auto intro!: streaming_intros)
qed (simp add: streaming_def)

context codec
begin

lemma dec_count_concat:
  "\<forall>x \<in> set xs. ok x \<Longrightarrow> dec_count dec (length xs) (concat (map enc xs) @ rest) = Some (xs, rest)"
  by (induction xs) (auto simp: dec_enc)

end

subsection \<open>Text\<close>

text \<open>
  A \<open>str\<close> is its UTF-8 byte sequence, kept as a \<^typ>\<open>string\<close> of eight-bit characters;
  \<open>String::from_utf8\<close> checks the well-formed byte sequences of the Unicode standard.
\<close>

definition str_bytes :: "string \<Rightarrow> bytes" where
  "str_bytes s = map (\<lambda>c. of_nat (of_char c)) s"

definition utf8_tail :: "u8 \<Rightarrow> bool" where
  "utf8_tail b \<longleftrightarrow> 0x80 \<le> b \<and> b \<le> 0xBF"

fun utf8_valid :: "bytes \<Rightarrow> bool" where
  "utf8_valid [] = True"
| "utf8_valid (a # bs) =
     (if a \<le> 0x7F then utf8_valid bs
      else if 0xC2 \<le> a \<and> a \<le> 0xDF then
        (case bs of b # cs \<Rightarrow> utf8_tail b \<and> utf8_valid cs | _ \<Rightarrow> False)
      else if 0xE0 \<le> a \<and> a \<le> 0xEF then
        (case bs of b # c # cs \<Rightarrow>
             utf8_tail b \<and> (a = 0xE0 \<longrightarrow> 0xA0 \<le> b) \<and> (a = 0xED \<longrightarrow> b \<le> 0x9F) \<and> utf8_tail c \<and> utf8_valid cs
         | _ \<Rightarrow> False)
      else if 0xF0 \<le> a \<and> a \<le> 0xF4 then
        (case bs of b # c # d # cs \<Rightarrow>
             utf8_tail b \<and> (a = 0xF0 \<longrightarrow> 0x90 \<le> b) \<and> (a = 0xF4 \<longrightarrow> b \<le> 0x8F) \<and>
             utf8_tail c \<and> utf8_tail d \<and> utf8_valid cs
         | _ \<Rightarrow> False)
      else False)"

definition from_utf8 :: "bytes \<Rightarrow> string option" where
  "from_utf8 bs = (if utf8_valid bs then Some (map (\<lambda>b. char_of (unat b)) bs) else None)"

abbreviation utf8_string :: "string \<Rightarrow> bool" where
  "utf8_string s \<equiv> utf8_valid (str_bytes s)"

lemma char_of_byte [simp]: "char_of (unat (of_nat (of_char c) :: u8)) = c"
  by (simp add: unat_of_nat_u8)

lemma from_utf8_str_bytes [simp]: "utf8_string s \<Longrightarrow> from_utf8 (str_bytes s) = Some s"
  by (simp add: from_utf8_def str_bytes_def comp_def)

lemma length_str_bytes [simp, codec_simps]: "length (str_bytes s) = length s"
  by (simp add: str_bytes_def)

lemma ascii_utf8: "(\<And>b. b \<in> set bs \<Longrightarrow> b \<le> 0x7F) \<Longrightarrow> utf8_valid bs"
  by (induction bs) auto

end
