(* ===== verification/Raft_Node.thy ===== *)
theory Raft_Node
  imports Raft_Log Bytes
begin

text \<open>
  The Raft step engine (\<open>ironcache-raft/src/lib.rs\<close>): the node state, and one definition per
  method, in the order of the source.  A method of \<open>RaftNode\<close> reads and writes the node, the random
  source and the effect sink; the model threads the three as one record \<open>ctx\<close>.  A method that can
  panic (the \<open>expect\<close> of \<open>apply_committed\<close> and of the snapshot buffer) returns an option, \<open>None\<close>
  being the abort.  The engine is generic in its replicated state machine, here a record of
  the three trait operations, and runs on \<open>MemStorage\<close>.
\<close>

subsection \<open>The state machine seam\<close>

record 'm sm_ops =
  sm_apply :: "'m \<Rightarrow> log_entry \<Rightarrow> 'm"
  sm_snapshot :: "'m \<Rightarrow> bytes"
  sm_restore :: "'m \<Rightarrow> bytes \<Rightarrow> 'm"

record counting_sm =
  applied :: nat

definition counting_sm_new :: counting_sm where
  "counting_sm_new = \<lparr>applied = 0\<rparr>"

definition counting_apply :: "counting_sm \<Rightarrow> log_entry \<Rightarrow> counting_sm" where
  "counting_apply m e = m\<lparr>applied := saturating_add_u64 (applied m) 1\<rparr>"

definition counting_snapshot :: "counting_sm \<Rightarrow> bytes" where
  "counting_snapshot m = le_bytes 8 (applied m)"

definition counting_restore :: "counting_sm \<Rightarrow> bytes \<Rightarrow> counting_sm" where
  "counting_restore m d = m\<lparr>applied := if 8 \<le> length d then le_value (take 8 d) else 0\<rparr>"

definition counting_ops :: "counting_sm sm_ops" where
  "counting_ops =
     \<lparr>sm_apply = counting_apply, sm_snapshot = counting_snapshot, sm_restore = counting_restore\<rparr>"

subsection \<open>Node state\<close>

record snapshot_rx =
  rx_last_included_index :: nat
  rx_last_included_term :: nat
  rx_voters :: "node_id set"
  rx_learners :: "node_id set"
  rx_data :: bytes

record 'm raft_node =
  node_id_of :: node_id
  voters :: "node_id set"
  learners :: "node_id set"
  config_baseline :: membership
  role :: role
  votes :: "node_id set"
  pre_votes :: "node_id set option"
  pre_vote_term :: nat
  failed_pre_vote_rounds :: nat
  pre_vote_round_responded :: bool
  last_leader_contact :: "monotonic option"
  quorum_contact :: "node_id \<rightharpoonup> monotonic"
  leader_id :: "node_id option"
  config :: raft_config
  storage :: mem_storage
  commit_index :: nat
  last_applied :: nat
  next_index :: "node_id \<rightharpoonup> nat"
  match_index :: "node_id \<rightharpoonup> nat"
  applied_count :: nat
  snapshot_next_offset :: "node_id \<rightharpoonup> nat"
  snapshot_rx :: "snapshot_rx option"
  sm :: 'm

record 'm ctx =
  node :: "'m raft_node"
  rng :: split_mix64
  out :: effects

definition emit :: "node_id \<Rightarrow> raft_msg \<Rightarrow> 'm ctx \<Rightarrow> 'm ctx" where
  "emit to_node msg c = c\<lparr>out := send to_node msg (out c)\<rparr>"

definition default_at :: "'a \<Rightarrow> ('k \<rightharpoonup> 'a) \<Rightarrow> 'k \<Rightarrow> 'a" where
  "default_at d m k = (case m k of Some v \<Rightarrow> v | None \<Rightarrow> d)"

subsection \<open>Configuration queries\<close>

definition config_at :: "nat \<Rightarrow> 'm raft_node \<Rightarrow> membership" where
  "config_at idx n =
     replay_membership (entry_at (storage n)) (log_start_index (storage n))
       (min (last_log_index (storage n)) idx) (config_baseline n)"

definition committed_config_contains_self :: "'m raft_node \<Rightarrow> bool" where
  "committed_config_contains_self n \<longleftrightarrow> node_id_of n \<in> fst (config_at (commit_index n) n)"

definition recompute_config_from_log :: "'m raft_node \<Rightarrow> 'm raft_node" where
  "recompute_config_from_log n =
     (let (vs, ls) = replay_membership (entry_at (storage n)) (log_start_index (storage n))
                       (last_log_index (storage n)) (config_baseline n)
      in n\<lparr>voters := vs, learners := ls\<rparr>)"

definition membership_change_in_flight :: "'m raft_node \<Rightarrow> bool" where
  "membership_change_in_flight n =
     change_in_range (entry_at (storage n)) (max (log_start_index (storage n)) (commit_index n + 1))
       (last_log_index (storage n))"

definition learner_caught_up :: "'m raft_node \<Rightarrow> node_id \<Rightarrow> bool" where
  "learner_caught_up n l =
     (if role n \<noteq> Leader \<or> l \<notin> learners n then False
      else last_log_index (storage n) \<le> default_at 0 (match_index n) l + LEARNER_CATCHUP_LAG)"

subsection \<open>Construction and timers\<close>

definition with_state_machine ::
    "'m sm_ops \<Rightarrow> node_id \<Rightarrow> node_id set \<Rightarrow> mem_storage \<Rightarrow> raft_config \<Rightarrow> 'm \<Rightarrow> 'm raft_node" where
  "with_state_machine M nid vs st cfg m =
     (let (sm0, idx) = (case load_snapshot st of
              Some (meta, d) \<Rightarrow> (sm_restore M m d, last_included_index meta)
            | None \<Rightarrow> (m, 0));
          baseline = (case load_config_baseline st of Some b \<Rightarrow> b | None \<Rightarrow> (vs, {}))
      in recompute_config_from_log
        \<lparr>node_id_of = nid, voters = fst baseline, learners = snd baseline, config_baseline = baseline,
         role = Follower, votes = {}, pre_votes = None, pre_vote_term = 0, failed_pre_vote_rounds = 0,
         pre_vote_round_responded = False, last_leader_contact = None, quorum_contact = Map.empty,
         leader_id = None, config = cfg, storage = st, commit_index = idx, last_applied = idx,
         next_index = Map.empty, match_index = Map.empty, applied_count = 0,
         snapshot_next_offset = Map.empty, snapshot_rx = None, sm = sm0\<rparr>)"

definition arm_election_timer :: "'m ctx \<Rightarrow> 'm ctx" where
  "arm_election_timer c =
     (let cfg = config (node c);
          (extra, r) = gen_below (as_millis_u64 (election_timeout_jitter cfg)) (rng c);
          after = duration_saturating_add (election_timeout_base cfg) (from_millis extra)
      in c\<lparr>rng := r, out := set_timer ELECTION_TIMEOUT after (out c)\<rparr>)"

definition arm_election_timer_now :: "'m ctx \<Rightarrow> 'm ctx" where
  "arm_election_timer_now c =
     c\<lparr>out := set_timer ELECTION_TIMEOUT (election_timeout_base (config (node c))) (out c)\<rparr>"

definition start_node :: "'m ctx \<Rightarrow> 'm ctx" where
  "start_node c = arm_election_timer c"

subsection \<open>Predicates of the node\<close>

definition candidate_log_up_to_date :: "'m raft_node \<Rightarrow> nat \<Rightarrow> nat \<Rightarrow> bool" where
  "candidate_log_up_to_date n cand_last_index cand_last_term =
     (let my_term = last_log_term (storage n); my_index = last_log_index (storage n)
      in if cand_last_term = my_term then my_index \<le> cand_last_index else my_term < cand_last_term)"

definition min_election_timeout :: "'m raft_node \<Rightarrow> duration" where
  "min_election_timeout n = election_timeout_base (config n)"

definition leader_is_fresh :: "monotonic \<Rightarrow> 'm raft_node \<Rightarrow> bool" where
  "leader_is_fresh now n =
     (case last_leader_contact n of
        Some t \<Rightarrow> saturating_duration_since now t < min_election_timeout n
      | None \<Rightarrow> False)"

definition has_quorum_contact :: "monotonic \<Rightarrow> 'm raft_node \<Rightarrow> bool" where
  "has_quorum_contact now n =
     (let window = min_election_timeout n;
          fresh0 = (if node_id_of n \<in> voters n then 1 else 0);
          fresh = fresh0 + length (filter (\<lambda>peer. peer \<noteq> node_id_of n \<and>
                    (case quorum_contact n peer of
                       Some t \<Rightarrow> saturating_duration_since now t < window
                     | None \<Rightarrow> False)) (btree_iter (voters n)));
          needed = card (voters n) div 2 + 1
      in needed \<le> fresh)"

text \<open>The tallies of \<open>maybe_promote_pre_candidate\<close> and \<open>maybe_become_leader\<close>.\<close>

definition tally_wins :: "node_id set \<Rightarrow> node_id set \<Rightarrow> bool" where
  "tally_wins vs tally =
     (card vs div 2 + 1 \<le> length (filter (\<lambda>v. v \<in> vs) (btree_iter tally)))"

subsection \<open>Replication to one peer\<close>

definition send_snapshot_chunk_to :: "node_id \<Rightarrow> nat \<Rightarrow> 'm ctx \<Rightarrow> 'm ctx" where
  "send_snapshot_chunk_to peer offset c =
     (let n = node c
      in case load_snapshot (storage n) of
           None \<Rightarrow> c\<lparr>node := n\<lparr>snapshot_next_offset := (snapshot_next_offset n)(peer := None)\<rparr>\<rparr>
         | Some (meta, d) \<Rightarrow>
             let (vs, ls) = (case load_config_baseline (storage n) of Some b \<Rightarrow> b | None \<Rightarrow> ({}, {}));
                 total = length d;
                 start = min offset total;
                 chunk_cap = (if snapshot_chunk_bytes (config n) = 0 then total
                              else snapshot_chunk_bytes (config n));
                 stop = min (start + chunk_cap) total;
                 chunk = take (stop - start) (drop start d);
                 done = total \<le> stop
             in emit peer (InstallSnapshot (current_term (storage n)) (node_id_of n)
                  (last_included_index meta) (last_included_term meta) start chunk done vs ls) c)"

definition send_append_entries_to :: "node_id \<Rightarrow> 'm ctx \<Rightarrow> 'm ctx" where
  "send_append_entries_to peer c =
     (let n = node c;
          st = storage n;
          nxt = default_at 1 (next_index n) peer;
          replicate_log =
            (let c1 = c\<lparr>node := n\<lparr>snapshot_next_offset := (snapshot_next_offset n)(peer := None)\<rparr>\<rparr>;
                 prev = nxt - 1
             in emit peer (AppendEntries (current_term st) (node_id_of n) prev (term_at st prev)
                  (entries_from st nxt) (commit_index n)) c1)
      in case load_snapshot st of
           Some (meta, d) \<Rightarrow>
             if nxt \<le> last_included_index meta then
               (let offset = default_at 0 (snapshot_next_offset n) peer
                in send_snapshot_chunk_to peer offset
                     (c\<lparr>node := n\<lparr>snapshot_next_offset := (snapshot_next_offset n)(peer \<mapsto> offset)\<rparr>\<rparr>))
             else replicate_log
         | None \<Rightarrow> replicate_log)"

definition replication_peers :: "'m raft_node \<Rightarrow> node_id list" where
  "replication_peers n =
     filter (\<lambda>p. p \<noteq> node_id_of n) (btree_iter (voters n) @ btree_iter (learners n))"

definition broadcast_heartbeat :: "'m ctx \<Rightarrow> 'm ctx" where
  "broadcast_heartbeat c = fold send_append_entries_to (replication_peers (node c)) c"

subsection \<open>Role changes\<close>

definition observe_term :: "nat \<Rightarrow> 'm ctx \<Rightarrow> bool \<times> 'm ctx" where
  "observe_term t c =
     (let n = node c
      in if current_term (storage n) < t then
           (let was_leader = role n = Leader;
                n1 = n\<lparr>storage := set_voted_for None (set_current_term t (storage n)),
                       role := Follower, votes := {}, pre_votes := None,
                       quorum_contact := Map.empty, failed_pre_vote_rounds := 0,
                       leader_id := None, next_index := Map.empty, match_index := Map.empty,
                       snapshot_next_offset := Map.empty\<rparr>;
                o1 = (if was_leader then cancel_timer HEARTBEAT (out c) else out c)
            in (True, arm_election_timer (c\<lparr>node := n1, out := o1\<rparr>)))
         else (False, c))"

definition step_down_to_follower :: "'m ctx \<Rightarrow> 'm ctx" where
  "step_down_to_follower c =
     (let n = node c;
          o1 = (if role n = Leader then cancel_timer HEARTBEAT (out c) else out c)
      in c\<lparr>node := n\<lparr>role := Follower, votes := {}, next_index := Map.empty,
                     match_index := Map.empty, snapshot_next_offset := Map.empty,
                     quorum_contact := Map.empty\<rparr>, out := o1\<rparr>)"

definition maybe_become_leader :: "monotonic \<Rightarrow> 'm ctx \<Rightarrow> 'm ctx" where
  "maybe_become_leader now c =
     (let n = node c
      in if role n \<noteq> Candidate then c
         else if \<not> tally_wins (voters n) (votes n) then c
         else
           (let nxt = last_log_index (storage n) + 1;
                peers = replication_peers n;
                n1 = n\<lparr>role := Leader, leader_id := Some (node_id_of n), failed_pre_vote_rounds := 0,
                       snapshot_next_offset := Map.empty,
                       next_index := fold (\<lambda>p m. m(p \<mapsto> nxt)) peers Map.empty,
                       match_index := fold (\<lambda>p m. m(p \<mapsto> 0)) peers Map.empty,
                       quorum_contact := fold (\<lambda>p m. m(p \<mapsto> now)) (btree_iter (voters n)) Map.empty,
                       storage := append_entry
                         \<lparr>entry_term = current_term (storage n),
                          entry_index = last_log_index (storage n) + 1,
                          payload = Noop\<rparr> (storage n)\<rparr>;
                c1 = broadcast_heartbeat (c\<lparr>node := n1, out := cancel_timer ELECTION_TIMEOUT (out c)\<rparr>)
            in c1\<lparr>out := set_timer HEARTBEAT (heartbeat_interval (config n)) (out c1)\<rparr>))"

definition record_vote :: "monotonic \<Rightarrow> node_id \<Rightarrow> nat \<Rightarrow> 'm ctx \<Rightarrow> 'm ctx" where
  "record_vote now voter t c =
     (let n = node c
      in if role n \<noteq> Candidate \<or> t \<noteq> current_term (storage n) then c
         else maybe_become_leader now (c\<lparr>node := n\<lparr>votes := insert voter (votes n)\<rparr>\<rparr>))"

subsection \<open>Elections\<close>

text \<open>The loop that asks every other voter.\<close>

definition solicit :: "raft_msg \<Rightarrow> 'm ctx \<Rightarrow> 'm ctx" where
  "solicit msg c =
     fold (\<lambda>peer c'. if peer \<noteq> node_id_of (node c) then emit peer msg c' else c')
       (btree_iter (voters (node c))) c"

definition start_real_election :: "monotonic \<Rightarrow> 'm ctx \<Rightarrow> 'm ctx" where
  "start_real_election now c =
     (let n = node c;
          new_term = current_term (storage n) + 1;
          st = set_voted_for (Some (node_id_of n)) (set_current_term new_term (storage n));
          n1 = n\<lparr>storage := st, role := Candidate, votes := {node_id_of n}, pre_votes := None,
                 leader_id := None\<rparr>;
          msg = RequestVote new_term (node_id_of n) (last_log_index st) (last_log_term st)
      in maybe_become_leader now (solicit msg (c\<lparr>node := n1\<rparr>)))"

definition maybe_promote_pre_candidate :: "monotonic \<Rightarrow> 'm ctx \<Rightarrow> 'm ctx" where
  "maybe_promote_pre_candidate now c =
     (let n = node c
      in case pre_votes n of
           None \<Rightarrow> c
         | Some tally \<Rightarrow>
             if \<not> tally_wins (voters n) tally then c
             else start_real_election now
                    (c\<lparr>node := n\<lparr>failed_pre_vote_rounds := 0, pre_votes := None\<rparr>\<rparr>))"

definition start_pre_vote :: "monotonic \<Rightarrow> 'm ctx \<Rightarrow> 'm ctx" where
  "start_pre_vote now c =
     (let n = node c;
          pre_term = current_term (storage n) + 1;
          n1 = n\<lparr>pre_vote_term := pre_term, pre_votes := Some {node_id_of n},
                 pre_vote_round_responded := False\<rparr>;
          msg = PreVote pre_term (node_id_of n) (last_log_index (storage n)) (last_log_term (storage n))
      in maybe_promote_pre_candidate now (arm_election_timer (solicit msg (c\<lparr>node := n1\<rparr>))))"

definition on_election_timeout :: "monotonic \<Rightarrow> 'm ctx \<Rightarrow> 'm ctx" where
  "on_election_timeout now c =
     (let n = node c
      in if role n = Leader then c
         else if node_id_of n \<notin> voters n then arm_election_timer c
         else if pre_vote (config n) then
           (let failed = (if pre_votes n \<noteq> None \<and> pre_vote_round_responded n
                          then saturating_add_u32 (failed_pre_vote_rounds n) 1
                          else failed_pre_vote_rounds n)
            in if PRE_VOTE_FALLBACK_ROUNDS \<le> failed then
                 arm_election_timer (start_real_election now
                   (c\<lparr>node := n\<lparr>failed_pre_vote_rounds := 0, pre_votes := None\<rparr>\<rparr>))
               else start_pre_vote now (c\<lparr>node := n\<lparr>failed_pre_vote_rounds := failed\<rparr>\<rparr>))
         else arm_election_timer (start_real_election now c))"

definition on_request_vote :: "monotonic \<Rightarrow> nat \<Rightarrow> node_id \<Rightarrow> nat \<Rightarrow> nat \<Rightarrow> 'm ctx \<Rightarrow> 'm ctx" where
  "on_request_vote now t candidate cand_last_index cand_last_term c =
     (if pre_vote (config (node c)) \<and> leader_is_fresh now (node c) then
        emit candidate (RequestVoteResp (current_term (storage (node c))) False) c
      else
        (let c1 = snd (observe_term t c);
             n = node c1;
             grant = (if t < current_term (storage n) then False
                      else (voted_for (storage n) = None \<or> voted_for (storage n) = Some candidate) \<and>
                           candidate_log_up_to_date n cand_last_index cand_last_term);
             c2 = (if grant then
                     arm_election_timer
                       (c1\<lparr>node := n\<lparr>storage := set_voted_for (Some candidate) (storage n)\<rparr>\<rparr>)
                   else c1)
         in emit candidate (RequestVoteResp (current_term (storage (node c2))) grant) c2))"

definition on_pre_vote :: "monotonic \<Rightarrow> nat \<Rightarrow> node_id \<Rightarrow> nat \<Rightarrow> nat \<Rightarrow> 'm ctx \<Rightarrow> 'm ctx" where
  "on_pre_vote now t candidate cand_last_index cand_last_term c =
     (let n = node c;
          grant = current_term (storage n) < t \<and>
                  candidate_log_up_to_date n cand_last_index cand_last_term \<and>
                  \<not> leader_is_fresh now n
      in emit candidate (PreVoteResp t grant) c)"

definition on_pre_vote_resp :: "monotonic \<Rightarrow> node_id \<Rightarrow> nat \<Rightarrow> bool \<Rightarrow> 'm ctx \<Rightarrow> 'm ctx" where
  "on_pre_vote_resp now from t vote_granted c =
     (let n = node c
      in if pre_votes n = None \<or> t \<noteq> pre_vote_term n then c
         else
           (let n1 = n\<lparr>pre_vote_round_responded := True\<rparr>
            in if \<not> vote_granted then c\<lparr>node := n1\<rparr>
               else maybe_promote_pre_candidate now
                      (c\<lparr>node := n1\<lparr>pre_votes := map_option (insert from) (pre_votes n)\<rparr>\<rparr>)))"

definition on_request_vote_resp :: "monotonic \<Rightarrow> node_id \<Rightarrow> nat \<Rightarrow> bool \<Rightarrow> 'm ctx \<Rightarrow> 'm ctx" where
  "on_request_vote_resp now from t vote_granted c =
     (let (stepped, c1) = observe_term t c
      in if stepped then c1
         else if vote_granted then record_vote now from t c1 else c1)"

subsection \<open>Applying and compacting\<close>

function apply_loop :: "'m sm_ops \<Rightarrow> 'm raft_node \<Rightarrow> 'm raft_node option" where
  "apply_loop M n =
     (if last_applied n < commit_index n then
        (case entry_at (storage n) (last_applied n + 1) of
           None \<Rightarrow> None
         | Some e \<Rightarrow>
             apply_loop M (n\<lparr>last_applied := last_applied n + 1, sm := sm_apply M (sm n) e,
                             applied_count := applied_count n + 1\<rparr>))
      else Some n)"
  by pat_completeness auto
termination
  by (relation "measure (\<lambda>(M, n). commit_index n - last_applied n)") auto

declare apply_loop.simps [simp del]

definition maybe_compact :: "'m sm_ops \<Rightarrow> 'm raft_node \<Rightarrow> 'm raft_node" where
  "maybe_compact M n =
     (let threshold = snapshot_threshold (config n);
          snap_index = (case load_snapshot (storage n) of
                          None \<Rightarrow> 0 | Some (meta, _) \<Rightarrow> last_included_index meta)
      in if threshold = 0 then n
         else if last_applied n \<le> snap_index then n
         else if last_applied n - snap_index \<le> threshold then n
         else
           (let idx = last_applied n;
                trm = term_at (storage n) idx;
                data = sm_snapshot M (sm n);
                baseline = config_at idx n;
                st1 = save_config_baseline baseline (storage n);
                st2 = save_snapshot \<lparr>last_included_index = idx, last_included_term = trm\<rparr> data st1
            in n\<lparr>config_baseline := baseline, storage := compact_to idx st2\<rparr>))"

definition apply_committed :: "'m sm_ops \<Rightarrow> 'm ctx \<Rightarrow> 'm ctx option" where
  "apply_committed M c =
     (case apply_loop M (node c) of
        None \<Rightarrow> None
      | Some n \<Rightarrow> Some (c\<lparr>node := maybe_compact M n\<rparr>))"

definition commit_to :: "'m sm_ops \<Rightarrow> nat \<Rightarrow> 'm ctx \<Rightarrow> 'm ctx option" where
  "commit_to M idx c =
     apply_committed M (c\<lparr>node := (node c)\<lparr>commit_index := idx\<rparr>,
                          out := note_committed_through idx (out c)\<rparr>)"

subsection \<open>Committing on the leader\<close>

definition replicated_on :: "'m raft_node \<Rightarrow> nat \<Rightarrow> nat" where
  "replicated_on n idx =
     (if node_id_of n \<in> voters n then 1 else 0) +
     length (filter (\<lambda>peer. case match_index n peer of Some mi \<Rightarrow> idx \<le> mi | None \<Rightarrow> False)
       (btree_iter (voters n)))"

fun commit_scan :: "'m raft_node \<Rightarrow> nat \<Rightarrow> nat" where
  "commit_scan n 0 = commit_index n"
| "commit_scan n (Suc i) =
     (if commit_index n < Suc i then
        (if term_at (storage n) (Suc i) = current_term (storage n) \<and>
            card (voters n) div 2 + 1 \<le> replicated_on n (Suc i)
         then Suc i
         else commit_scan n i)
      else commit_index n)"

definition maybe_advance_commit :: "'m sm_ops \<Rightarrow> 'm ctx \<Rightarrow> 'm ctx option" where
  "maybe_advance_commit M c =
     (if role (node c) \<noteq> Leader then Some c
      else
        (let new_commit = commit_scan (node c) (last_log_index (storage (node c)));
             c1 = (if commit_index (node c) < new_commit then commit_to M new_commit c else Some c)
         in case c1 of
              None \<Rightarrow> None
            | Some c2 \<Rightarrow>
                Some (if role (node c2) = Leader \<and> \<not> committed_config_contains_self (node c2)
                      then arm_election_timer_now (step_down_to_follower c2)
                      else c2)))"

definition on_append_entries_resp ::
    "'m sm_ops \<Rightarrow> monotonic \<Rightarrow> node_id \<Rightarrow> nat \<Rightarrow> bool \<Rightarrow> nat \<Rightarrow> 'm ctx \<Rightarrow> 'm ctx option" where
  "on_append_entries_resp M now from t success match_idx c =
     (let (stepped, c1) = observe_term t c; n = node c1
      in if stepped then Some c1
         else if role n \<noteq> Leader \<or> t \<noteq> current_term (storage n) then Some c1
         else if success then
           (let mi = max (default_at 0 (match_index n) from) match_idx
            in maybe_advance_commit M
                 (c1\<lparr>node := n\<lparr>quorum_contact := (quorum_contact n)(from \<mapsto> now),
                                match_index := (match_index n)(from \<mapsto> mi),
                                next_index := (next_index n)(from \<mapsto> mi + 1)\<rparr>\<rparr>))
         else
           (let ni = default_at 1 (next_index n) from
            in Some (send_append_entries_to from
                 (c1\<lparr>node := n\<lparr>next_index := (next_index n)(from \<mapsto> (if 1 < ni then ni - 1 else ni))\<rparr>\<rparr>))))"

definition on_heartbeat_timer :: "monotonic \<Rightarrow> 'm ctx \<Rightarrow> 'm ctx" where
  "on_heartbeat_timer now c =
     (if role (node c) \<noteq> Leader then c
      else if check_quorum (config (node c)) \<and> \<not> has_quorum_contact now (node c) then
        (let c1 = step_down_to_follower c
         in arm_election_timer (c1\<lparr>node := (node c1)\<lparr>leader_id := None\<rparr>\<rparr>))
      else
        (let c1 = broadcast_heartbeat c
         in c1\<lparr>out := set_timer HEARTBEAT (heartbeat_interval (config (node c1))) (out c1)\<rparr>))"

subsection \<open>Following a leader\<close>

text \<open>The opening shared by \<open>on_append_entries\<close> and \<open>on_install_snapshot\<close> once the term is current.\<close>

definition accept_leader :: "monotonic \<Rightarrow> node_id \<Rightarrow> 'm ctx \<Rightarrow> 'm ctx" where
  "accept_leader now leader c =
     (let c1 = (if role (node c) \<noteq> Follower then step_down_to_follower c else c);
          c2 = arm_election_timer c1
      in c2\<lparr>node := (node c2)\<lparr>leader_id := Some leader, last_leader_contact := Some now,
                                pre_votes := None, failed_pre_vote_rounds := 0\<rparr>\<rparr>)"

definition on_append_entries ::
    "'m sm_ops \<Rightarrow> monotonic \<Rightarrow> nat \<Rightarrow> node_id \<Rightarrow> nat \<Rightarrow> nat \<Rightarrow> log_entry list \<Rightarrow> nat \<Rightarrow>
     'm ctx \<Rightarrow> 'm ctx option" where
  "on_append_entries M now t leader prev_log_index prev_log_term es leader_commit c =
     (let c1 = snd (observe_term t c);
          current = current_term (storage (node c1))
      in if t < current then
           Some (emit leader (AppendEntriesResp current False (last_log_index (storage (node c1)))) c1)
         else
           (let c2 = accept_leader now leader c1;
                st = storage (node c2)
            in if term_at st prev_log_index \<noteq> prev_log_term then
                 Some (emit leader (AppendEntriesResp current False (last_log_index st)) c2)
               else
                 (let (st1, truncated, appended) =
                        reconcile_log term_at truncate_from append_entries prev_log_index es st;
                      n1 = (node c2)\<lparr>storage := st1\<rparr>;
                      n2 = (if truncated \<or> appended then recompute_config_from_log n1 else n1);
                      c3 = c2\<lparr>node := n2\<rparr>;
                      last_new_index = prev_log_index + length es;
                      new_commit = min leader_commit last_new_index;
                      c4 = (if commit_index n2 < leader_commit \<and> commit_index n2 < new_commit
                            then commit_to M new_commit c3 else Some c3)
                  in case c4 of
                       None \<Rightarrow> None
                     | Some c5 \<Rightarrow>
                         Some (emit leader (AppendEntriesResp current True last_new_index) c5))))"

definition install_assembled_snapshot :: "'m sm_ops \<Rightarrow> snapshot_rx \<Rightarrow> 'm ctx \<Rightarrow> 'm ctx" where
  "install_assembled_snapshot M rx c =
     (let n = node c;
          idx = rx_last_included_index rx;
          trm = rx_last_included_term rx;
          suffix_valid = term_at (storage n) idx = trm;
          st1 = (if suffix_valid then storage n
                 else truncate_from (log_start_index (storage n)) (storage n));
          st2 = compact_to idx
                  (save_snapshot \<lparr>last_included_index = idx, last_included_term = trm\<rparr> (rx_data rx) st1);
          baseline = (rx_voters rx, rx_learners rx);
          n1 = n\<lparr>sm := sm_restore M (sm n) (rx_data rx), config_baseline := baseline,
                 storage := save_config_baseline baseline st2\<rparr>;
          n2 = (recompute_config_from_log n1)\<lparr>commit_index := idx, last_applied := idx\<rparr>
      in c\<lparr>node := n2, out := note_committed_through idx (out c)\<rparr>)"

text \<open>
  Chunk assembly: the buffer after a chunk, and whether the chunk was accepted.
\<close>

definition receive_chunk ::
    "nat \<Rightarrow> nat \<Rightarrow> nat \<Rightarrow> bytes \<Rightarrow> node_id set \<Rightarrow> node_id set \<Rightarrow> snapshot_rx option \<Rightarrow>
     bool \<times> snapshot_rx option" where
  "receive_chunk idx trm offset d vs ls buf =
     (if offset = 0 then
        (True, Some \<lparr>rx_last_included_index = idx, rx_last_included_term = trm, rx_voters = vs,
                     rx_learners = ls, rx_data = d\<rparr>)
      else
        case buf of
          Some rx \<Rightarrow>
            if rx_last_included_index rx = idx \<and> rx_last_included_term rx = trm \<and>
               offset = length (rx_data rx)
            then (True, Some (rx\<lparr>rx_data := rx_data rx @ d\<rparr>))
            else (False, buf)
        | None \<Rightarrow> (False, buf))"

definition expected_offset :: "nat \<Rightarrow> nat \<Rightarrow> snapshot_rx option \<Rightarrow> nat" where
  "expected_offset idx trm buf =
     (case buf of
        Some rx \<Rightarrow> if rx_last_included_index rx = idx \<and> rx_last_included_term rx = trm
                   then length (rx_data rx) else 0
      | None \<Rightarrow> 0)"

definition on_install_snapshot ::
    "'m sm_ops \<Rightarrow> monotonic \<Rightarrow> nat \<Rightarrow> node_id \<Rightarrow> nat \<Rightarrow> nat \<Rightarrow> nat \<Rightarrow> bytes \<Rightarrow> bool \<Rightarrow>
     node_id set \<Rightarrow> node_id set \<Rightarrow> 'm ctx \<Rightarrow> 'm ctx option" where
  "on_install_snapshot M now t leader idx trm offset d done vs ls c =
     (let c1 = snd (observe_term t c);
          current = current_term (storage (node c1))
      in if t < current then
           Some (emit leader (InstallSnapshotResp current idx False 0) c1)
         else
           (let c2 = accept_leader now leader c1;
                (accepted, buf) = receive_chunk idx trm offset d vs ls (snapshot_rx (node c2));
                c3 = c2\<lparr>node := (node c2)\<lparr>snapshot_rx := buf\<rparr>\<rparr>
            in if \<not> accepted then
                 Some (emit leader (InstallSnapshotResp current idx False (expected_offset idx trm buf)) c3)
               else if \<not> done then
                 (let received = (case buf of Some rx \<Rightarrow> length (rx_data rx) | None \<Rightarrow> 0)
                  in Some (emit leader (InstallSnapshotResp current idx False received) c3))
               else
                 (case buf of
                    None \<Rightarrow> None
                  | Some rx \<Rightarrow>
                      (let c4 = c3\<lparr>node := (node c3)\<lparr>snapshot_rx := None\<rparr>\<rparr>;
                           ack = InstallSnapshotResp current (rx_last_included_index rx) True 0
                       in if rx_last_included_index rx \<le> commit_index (node c4)
                          then Some (emit leader ack c4)
                          else Some (emit leader ack (install_assembled_snapshot M rx c4))))))"

definition on_install_snapshot_resp ::
    "'m sm_ops \<Rightarrow> node_id \<Rightarrow> nat \<Rightarrow> nat \<Rightarrow> bool \<Rightarrow> nat \<Rightarrow> 'm ctx \<Rightarrow> 'm ctx option" where
  "on_install_snapshot_resp M from t installed_index installed next_offset c =
     (let (stepped, c1) = observe_term t c; n = node c1
      in if stepped then Some c1
         else if role n \<noteq> Leader \<or> t \<noteq> current_term (storage n) then Some c1
         else if \<not> installed then
           (case snapshot_next_offset n from of
              Some _ \<Rightarrow>
                Some (send_snapshot_chunk_to from next_offset
                  (c1\<lparr>node := n\<lparr>snapshot_next_offset := (snapshot_next_offset n)(from \<mapsto> next_offset)\<rparr>\<rparr>))
            | None \<Rightarrow> Some c1)
         else
           (let mi = max (default_at 0 (match_index n) from) installed_index;
                n1 = n\<lparr>snapshot_next_offset := (snapshot_next_offset n)(from := None),
                       match_index := (match_index n)(from \<mapsto> mi),
                       next_index := (next_index n)(from \<mapsto> mi + 1)\<rparr>
            in map_option (send_append_entries_to from) (maybe_advance_commit M (c1\<lparr>node := n1\<rparr>))))"

subsection \<open>Proposals and dispatch\<close>

definition seed_peer :: "nat \<Rightarrow> node_id \<Rightarrow> 'm raft_node \<Rightarrow> 'm raft_node" where
  "seed_peer nxt peer n =
     n\<lparr>next_index := (next_index n)(peer \<mapsto> default_at nxt (next_index n) peer),
       match_index := (match_index n)(peer \<mapsto> default_at 0 (match_index n) peer)\<rparr>"

definition propose :: "'m sm_ops \<Rightarrow> entry_payload \<Rightarrow> 'm ctx \<Rightarrow> (nat option \<times> 'm ctx) option" where
  "propose M p c =
     (let n = node c
      in if role n \<noteq> Leader then Some (None, c)
         else if is_config_change p \<and> membership_change_in_flight n then Some (None, c)
         else
           (let idx = last_log_index (storage n) + 1;
                n1 = n\<lparr>storage := append_entry
                         \<lparr>entry_term = current_term (storage n), entry_index = idx, payload = p\<rparr>
                         (storage n)\<rparr>;
                n2 = (if is_config_change p then
                        (let n' = recompute_config_from_log n1
                         in fold (seed_peer (last_log_index (storage n') + 1)) (replication_peers n') n')
                      else n1)
            in map_option (\<lambda>c'. (Some idx, c'))
                 (maybe_advance_commit M (broadcast_heartbeat (c\<lparr>node := n2\<rparr>)))))"

definition propose_membership_change ::
    "'m sm_ops \<Rightarrow> membership_change \<Rightarrow> 'm ctx \<Rightarrow> (nat option \<times> 'm ctx) option" where
  "propose_membership_change M ch c = propose M (ConfigChange ch) c"

fun on_message :: "'m sm_ops \<Rightarrow> monotonic \<Rightarrow> node_id \<Rightarrow> raft_msg \<Rightarrow> 'm ctx \<Rightarrow> 'm ctx option" where
  "on_message M now from (RequestVote t cand li lt) c = Some (on_request_vote now t cand li lt c)"
| "on_message M now from (RequestVoteResp t g) c = Some (on_request_vote_resp now from t g c)"
| "on_message M now from (PreVote t cand li lt) c = Some (on_pre_vote now t cand li lt c)"
| "on_message M now from (PreVoteResp t g) c = Some (on_pre_vote_resp now from t g c)"
| "on_message M now from (AppendEntries t l pi pt es lc) c = on_append_entries M now t l pi pt es lc c"
| "on_message M now from (AppendEntriesResp t s mi) c = on_append_entries_resp M now from t s mi c"
| "on_message M now from (Propose p) c = map_option snd (propose M p c)"
| "on_message M now from (ForwardPropose corr p) c = Some c"
| "on_message M now from (ForwardProposeResult corr r) c = Some c"
| "on_message M now from (InstallSnapshot t l li lt off d dn vs ls) c =
     on_install_snapshot M now t l li lt off d dn vs ls c"
| "on_message M now from (InstallSnapshotResp t li inst off) c =
     on_install_snapshot_resp M from t li inst off c"

definition on_timer :: "monotonic \<Rightarrow> nat \<Rightarrow> 'm ctx \<Rightarrow> 'm ctx" where
  "on_timer now token c =
     (if token = ELECTION_TIMEOUT then on_election_timeout now c
      else if token = HEARTBEAT then on_heartbeat_timer now c
      else c)"

end
