(* ===== verification/Quorum.thy ===== *)
theory Quorum
  imports Prelude
begin

text \<open>
  Quorum decisions of the control plane.  Elections and commits both count a majority of a
  configuration's voters; the only thing their safety rests on is that two winning sets of the
  same configuration, or of two configurations that differ by one server, share a member.  The two
  locales state that contract, and majorities meet it.
\<close>

locale quorum_system =
  fixes config_ok :: "'c \<Rightarrow> bool"
    and quorum :: "'c \<Rightarrow> 'v set \<Rightarrow> bool"
  assumes quorum_intersect: "config_ok C \<Longrightarrow> quorum C P \<Longrightarrow> quorum C Q \<Longrightarrow> \<exists>v. v \<in> P \<and> v \<in> Q"
begin

text \<open>If every member of a quorum gave its one ballot to \<open>a\<close>, no quorum gave theirs to another.\<close>

lemma unique_choice:
  assumes "config_ok C" "quorum C P" "quorum C Q"
    and "\<forall>v \<in> P. ballot v = Some a" and "\<forall>v \<in> Q. ballot v = Some b"
  shows "a = b"
proof -
  from quorum_intersect [OF assms(1-3)] obtain v where "v \<in> P" "v \<in> Q" by blast
  with assms(4,5) show ?thesis by fastforce
qed

end

locale reconfigurable_quorums = quorum_system config_ok quorum
  for config_ok :: "'c \<Rightarrow> bool" and quorum :: "'c \<Rightarrow> 'v set \<Rightarrow> bool" +
  fixes adjacent :: "'c \<Rightarrow> 'c \<Rightarrow> bool"
  assumes adjacent_intersect:
    "config_ok C \<Longrightarrow> adjacent C D \<Longrightarrow> quorum C P \<Longrightarrow> quorum D Q \<Longrightarrow> \<exists>v. v \<in> P \<and> v \<in> Q"
begin

lemma unique_choice_across:
  assumes "config_ok C" "adjacent C D" "quorum C P" "quorum D Q"
    and "\<forall>v \<in> P. ballot v = Some a" and "\<forall>v \<in> Q. ballot v = Some b"
  shows "a = b"
proof -
  from adjacent_intersect [OF assms(1-4)] obtain v where "v \<in> P" "v \<in> Q" by blast
  with assms(5,6) show ?thesis by fastforce
qed

end

subsection \<open>Majorities\<close>

definition majority :: "'a set \<Rightarrow> 'a set \<Rightarrow> bool" where
  "majority V Q \<longleftrightarrow> card V div 2 + 1 \<le> card (Q \<inter> V)"

text \<open>Voter sets that differ by at most one server.\<close>

definition one_server_apart :: "'a set \<Rightarrow> 'a set \<Rightarrow> bool" where
  "one_server_apart V W \<longleftrightarrow> (\<exists>x. W = V \<or> W = insert x V \<or> W = V - {x})"

lemma majorities_share:
  assumes "finite U" and "V \<subseteq> U" and "W \<subseteq> U" and "card U < (card V div 2 + 1) + (card W div 2 + 1)"
    and "majority V P" and "majority W Q"
  shows "\<exists>v. v \<in> P \<and> v \<in> Q"
proof (rule ccontr)
  assume "\<not> ?thesis"
  then have disj: "(P \<inter> V) \<inter> (Q \<inter> W) = {}" by blast
  have fin: "finite (P \<inter> V)" "finite (Q \<inter> W)"
    using assms(1-3) by (auto intro: finite_subset)
  have "card (P \<inter> V) + card (Q \<inter> W) = card ((P \<inter> V) \<union> (Q \<inter> W))"
    using disj fin by (simp add: card_Un_disjoint)
  also have "\<dots> \<le> card U"
    using assms(1-3) by (intro card_mono) auto
  finally show False
    using assms(4-6) by (simp add: majority_def)
qed

lemma majority_mono: "finite V \<Longrightarrow> majority V P \<Longrightarrow> P \<subseteq> Q \<Longrightarrow> majority V Q"
proof -
  assume "finite V" "majority V P" "P \<subseteq> Q"
  then have "card (P \<inter> V) \<le> card (Q \<inter> V)"
    by (intro card_mono) auto
  with \<open>majority V P\<close> show ?thesis by (simp add: majority_def)
qed

interpretation maj: reconfigurable_quorums finite majority one_server_apart
proof unfold_locales
  fix V P Q :: "'a set"
  assume "finite V" "majority V P" "majority V Q"
  then show "\<exists>v. v \<in> P \<and> v \<in> Q"
    by (intro majorities_share [of V V V]) auto
next
  fix V W P Q :: "'a set"
  assume *: "finite V" "one_server_apart V W" "majority V P" "majority W Q"
  then obtain x where "W = V \<or> W = insert x V \<or> W = V - {x}"
    by (auto simp: one_server_apart_def)
  then consider "W = V" | "x \<notin> V" "W = insert x V" | "x \<in> V" "W = V - {x}"
    by blast
  then show "\<exists>v. v \<in> P \<and> v \<in> Q"
  proof cases
    case 1
    with * show ?thesis by (intro majorities_share [of V V W]) auto
  next
    case 2
    with * have "card W = Suc (card V)" by simp
    with * 2 show ?thesis by (intro majorities_share [of W V W]) auto
  next
    case 3
    then have "V = insert x W" "x \<notin> W" by auto
    with * have "finite W" "card V = Suc (card W)" by simp_all
    with * 3 show ?thesis by (intro majorities_share [of V V W]) auto
  qed
qed

end
