(* ===== verification/Raft_Election.thy ===== *)
theory Raft_Election
  imports Raft_Node Quorum
begin

text \<open>
  What one step of the engine does to the voting state, for a cluster whose membership does not
  change.  \<open>node_ok\<close> is the invariant of a node; \<open>evolves\<close> relates the context before and after a
  method: terms only grow, a ballot once cast in a term is never changed, no vote is
  reported on the way, and a node campaigns only with ballots it cast itself or heard of.  The relation
  is transitive, so each handler's lemma is the composition of the lemmas of the methods it calls.
\<close>

abbreviation term_of_node :: "'m raft_node \<Rightarrow> nat" where
  "term_of_node n \<equiv> current_term (storage n)"

abbreviation vote_of_node :: "'m raft_node \<Rightarrow> node_id option" where
  "vote_of_node n \<equiv> voted_for (storage n)"

subsection \<open>Static membership\<close>

definition static_log :: "log_entry list \<Rightarrow> bool" where
  "static_log es \<longleftrightarrow> (\<forall>e \<in> set es. \<not> is_config_change (payload e))"

definition static_storage :: "membership \<Rightarrow> mem_storage \<Rightarrow> bool" where
  "static_storage B s \<longleftrightarrow>
     static_log (log s) \<and> (\<forall>b. stored_baseline s = Some b \<longrightarrow> b = B) \<and>
     (snap_meta s \<noteq> None \<longrightarrow> stored_baseline s \<noteq> None)"

definition static_msg :: "membership \<Rightarrow> raft_msg \<Rightarrow> bool" where
  "static_msg B m =
     (case m of
        AppendEntries _ _ _ _ es _ \<Rightarrow> static_log es
      | InstallSnapshot _ _ _ _ _ _ _ vs ls \<Rightarrow> (vs, ls) = B
      | Propose p \<Rightarrow> \<not> is_config_change p
      | _ \<Rightarrow> True)"

definition static_node :: "membership \<Rightarrow> 'm raft_node \<Rightarrow> bool" where
  "static_node B n \<longleftrightarrow>
     finite (fst B) \<and> finite (snd B) \<and> config_baseline n = B \<and> voters n = fst B \<and> learners n = snd B \<and>
     static_storage B (storage n) \<and>
     (\<forall>rx. snapshot_rx n = Some rx \<longrightarrow> (rx_voters rx, rx_learners rx) = B)"

definition node_ok :: "membership \<Rightarrow> 'm raft_node \<Rightarrow> bool" where
  "node_ok B n \<longleftrightarrow>
     static_node B n \<and> finite (votes n) \<and>
     (role n \<noteq> Follower \<longrightarrow> vote_of_node n = Some (node_id_of n)) \<and>
     (role n = Leader \<longrightarrow> majority (fst B) (votes n))"

lemma static_log_simps [simp]:
  "static_log []"
  "static_log (e # es) \<longleftrightarrow> \<not> is_config_change (payload e) \<and> static_log es"
  "static_log (xs @ ys) \<longleftrightarrow> static_log xs \<and> static_log ys"
  by (auto simp: static_log_def)

lemma static_log_take: "static_log es \<Longrightarrow> static_log (take k es)"
  and static_log_drop: "static_log es \<Longrightarrow> static_log (drop k es)"
  by (auto simp: static_log_def dest: in_set_takeD in_set_dropD)

lemma entry_at_in_log: "entry_at s i = Some e \<Longrightarrow> e \<in> set (log s)"
  by (auto simp: entry_at_def pos_of_def Let_def split: if_splits)

lemma replay_static: "static_log (log s) \<Longrightarrow> replay_membership (entry_at s) a b M = M"
proof -
  assume static: "static_log (log s)"
  have "(case entry_at s i of Some e \<Rightarrow> replay_entry e vl | None \<Rightarrow> vl) = vl" for i vl
    using static entry_at_in_log [of s i]
    by (auto simp: static_log_def replay_entry_def is_config_change_def
        split: option.splits entry_payload.splits)
  then show ?thesis
    by (simp add: replay_membership_def fold_invariant_set [where P = "\<lambda>x. x = M"])
qed

lemma config_at_static: "static_node B n \<Longrightarrow> config_at i n = B"
  by (simp add: config_at_def static_node_def static_storage_def replay_static)

lemma recompute_static:
  "static_log (log (storage n)) \<Longrightarrow>
   recompute_config_from_log n = n\<lparr>voters := fst (config_baseline n), learners := snd (config_baseline n)\<rparr>"
  by (simp add: recompute_config_from_log_def replay_static split_beta)

lemma tally_wins_majority: "finite T \<Longrightarrow> tally_wins V T \<longleftrightarrow> majority V T"
  by (simp add: tally_wins_def majority_def length_filter_btree_iter Int_def)

subsection \<open>The step relation on voting state\<close>

text \<open>A message that does not report a vote.\<close>

definition no_grant :: "raft_msg \<Rightarrow> bool" where
  "no_grant m \<longleftrightarrow> (\<forall>t. m \<noteq> RequestVoteResp t True)"

definition sends_ok :: "membership \<Rightarrow> (node_id \<times> raft_msg) list \<Rightarrow> bool" where
  "sends_ok B ms \<longleftrightarrow> (\<forall>(dest, m) \<in> set ms. static_msg B m \<and> no_grant m)"

text \<open>\<open>heard v t\<close>: the step was told that \<open>v\<close> granted its vote in term \<open>t\<close>.\<close>

definition evolves :: "membership \<Rightarrow> (node_id \<Rightarrow> nat \<Rightarrow> bool) \<Rightarrow> 'm ctx \<Rightarrow> 'm ctx \<Rightarrow> bool" where
  "evolves B heard c c' \<longleftrightarrow>
     (let n = node c; n' = node c'
      in node_ok B n \<longrightarrow>
         node_ok B n' \<and> node_id_of n' = node_id_of n \<and> term_of_node n \<le> term_of_node n' \<and>
         (term_of_node n' = term_of_node n \<longrightarrow> vote_of_node n \<noteq> None \<longrightarrow>
            vote_of_node n' = vote_of_node n) \<and>
         (\<exists>ms. sends (out c') = sends (out c) @ ms \<and> sends_ok B ms) \<and>
         (role n' \<noteq> Follower \<longrightarrow>
            (\<forall>v \<in> votes n'. v = node_id_of n \<or> heard v (term_of_node n') \<or>
               role n \<noteq> Follower \<and> term_of_node n' = term_of_node n \<and> v \<in> votes n)))"

lemma sends_ok_simps [simp]:
  "sends_ok B []"
  "sends_ok B ((d, m) # ms) \<longleftrightarrow> static_msg B m \<and> no_grant m \<and> sends_ok B ms"
  "sends_ok B (xs @ ys) \<longleftrightarrow> sends_ok B xs \<and> sends_ok B ys"
  by (auto simp: sends_ok_def)

lemma evolves_refl [intro, simp]: "evolves B heard c c"
  by (auto simp: evolves_def Let_def)

lemma evolves_trans [trans]:
  assumes 1: "evolves B heard c1 c2" and 2: "evolves B heard c2 c3"
  shows "evolves B heard c1 c3"
proof -
  have ?thesis if ok: "node_ok B (node c1)"
  proof -
    note s1 = 1 [unfolded evolves_def Let_def, rule_format, OF ok]
    note s2 = 2 [unfolded evolves_def Let_def, rule_format, OF conjunct1 [OF s1]]
    from s1 s2 obtain ms ms' where ms: "sends (out c2) = sends (out c1) @ ms" "sends_ok B ms"
      and ms': "sends (out c3) = sends (out c2) @ ms'" "sends_ok B ms'" by blast
    from ms ms' have "\<exists>ms. sends (out c3) = sends (out c1) @ ms \<and> sends_ok B ms"
      by (intro exI [of _ "ms @ ms'"]) simp
    moreover have "term_of_node (node c1) \<le> term_of_node (node c3)"
      using s1 s2 by linarith
    moreover have "term_of_node (node c3) = term_of_node (node c1) \<longrightarrow> vote_of_node (node c1) \<noteq> None \<longrightarrow>
        vote_of_node (node c3) = vote_of_node (node c1)"
    proof (intro impI)
      assume eq: "term_of_node (node c3) = term_of_node (node c1)" and v: "vote_of_node (node c1) \<noteq> None"
      with s1 s2 have "term_of_node (node c2) = term_of_node (node c1)" by linarith
      with eq v s1 s2 show "vote_of_node (node c3) = vote_of_node (node c1)" by metis
    qed
    moreover have "v = node_id_of (node c1) \<or> heard v (term_of_node (node c3)) \<or>
        role (node c1) \<noteq> Follower \<and> term_of_node (node c3) = term_of_node (node c1) \<and> v \<in> votes (node c1)"
      if "role (node c3) \<noteq> Follower" and "v \<in> votes (node c3)" for v
      using that s1 s2 by metis
    ultimately show ?thesis
      using s1 s2 unfolding evolves_def Let_def by metis
  qed
  then show ?thesis unfolding evolves_def Let_def by blast
qed

lemma evolves_fold: "(\<And>x c. evolves B heard c (f x c)) \<Longrightarrow> evolves B heard c (fold f xs c)"
  by (induction xs arbitrary: c) (auto intro: evolves_trans)

subsection \<open>Methods that leave the voting state alone\<close>

definition same_voting :: "'m raft_node \<Rightarrow> 'm raft_node \<Rightarrow> bool" where
  "same_voting n n' \<longleftrightarrow>
     node_id_of n' = node_id_of n \<and> voters n' = voters n \<and> learners n' = learners n \<and>
     config_baseline n' = config_baseline n \<and> role n' = role n \<and> votes n' = votes n \<and>
     snapshot_rx n' = snapshot_rx n \<and> storage n' = storage n"

lemma same_voting_ok: "same_voting n n' \<Longrightarrow> node_ok B n' = node_ok B n"
  by (simp add: same_voting_def node_ok_def static_node_def)

lemma evolves_quietI:
  assumes "same_voting (node c) (node c')"
    and "sends (out c') = sends (out c) @ ms"
    and "node_ok B (node c) \<Longrightarrow> sends_ok B ms"
  shows "evolves B heard c c'"
  using assms same_voting_ok [OF assms(1), of B]
  by (auto simp: evolves_def Let_def same_voting_def)

lemma evolves_emit:
  "(node_ok B (node c) \<Longrightarrow> static_msg B m \<and> no_grant m) \<Longrightarrow> evolves B heard c (emit d m c)"
  by (rule evolves_quietI [where ms = "[(d, m)]"]) (simp_all add: emit_def effect_simps same_voting_def)

lemma node_emit [simp]: "node (emit d m c) = node c"
  by (simp add: emit_def)

lemma evolves_node_update:
  "same_voting (node c) n' \<Longrightarrow> sends o' = sends (out c) \<Longrightarrow>
   evolves B heard c (c\<lparr>node := n', rng := r, out := o'\<rparr>)"
  by (rule evolves_quietI [where ms = "[]"]) simp_all

lemma arm_election_timer_eq:
  "node (arm_election_timer c) = node c"
  "sends (out (arm_election_timer c)) = sends (out c)"
  by (simp_all add: arm_election_timer_def Let_def split_beta effect_simps)

lemma evolves_arm_election_timer [intro]: "evolves B heard c (arm_election_timer c)"
  by (rule evolves_quietI [where ms = "[]"]) (simp_all add: arm_election_timer_eq same_voting_def)

lemma evolves_arm_election_timer_now [intro]: "evolves B heard c (arm_election_timer_now c)"
  by (rule evolves_quietI [where ms = "[]"])
    (simp_all add: arm_election_timer_now_def effect_simps same_voting_def)

lemma no_grant_simps [simp]:
  "no_grant (RequestVote t cd li lt)" "no_grant (PreVote t cd li lt)"
  "no_grant (PreVoteResp t g)" "no_grant (RequestVoteResp t False)"
  "no_grant (AppendEntries t l pi pt es lc)" "no_grant (AppendEntriesResp t sc mi)"
  "no_grant (InstallSnapshot t l li lt off dat dn vs ls)"
  "no_grant (InstallSnapshotResp t li inst off)"
  by (simp_all add: no_grant_def)

lemma static_msg_simps [simp]:
  "static_msg B (RequestVote t cd li lt)" "static_msg B (PreVote t cd li lt)"
  "static_msg B (PreVoteResp t g)" "static_msg B (RequestVoteResp t g)"
  "static_msg B (AppendEntriesResp t sc mi)" "static_msg B (InstallSnapshotResp t li inst off)"
  "static_msg B (AppendEntries t l pi pt es lc) = static_log es"
  "static_msg B (InstallSnapshot t l li lt off dat dn vs ls) = ((vs, ls) = B)"
  "static_msg B (Propose p) = (\<not> is_config_change p)"
  by (simp_all add: static_msg_def)

lemma evolves_send_snapshot_chunk [intro]: "evolves B heard c (send_snapshot_chunk_to p off c)"
proof (cases "load_snapshot (storage (node c))")
  case None
  then show ?thesis
    by (intro evolves_quietI [where ms = "[]"]) (simp_all add: send_snapshot_chunk_to_def same_voting_def Let_def)
next
  case (Some md)
  then have "snap_meta (storage (node c)) \<noteq> None"
    by (auto simp: load_snapshot_def)
  then have base: "load_config_baseline (storage (node c)) = Some B" if "node_ok B (node c)"
    using that by (auto simp: node_ok_def static_node_def static_storage_def load_config_baseline_def)
  obtain meta d where md: "md = (meta, d)" by fastforce
  have "evolves B heard c (emit p (InstallSnapshot t l li lt st ch dn vs ls) c)"
    if "(vs, ls) = (case load_config_baseline (storage (node c)) of Some b \<Rightarrow> b | None \<Rightarrow> ({}, {}))"
    for t l li lt st ch dn vs ls
    using that base by (intro evolves_emit) simp
  then show ?thesis
    by (simp add: send_snapshot_chunk_to_def Some md Let_def split: prod.split)
qed

lemma evolves_send_append_entries [intro]: "evolves B heard c (send_append_entries_to p c)"
proof -
  let ?n = "node c"
  let ?upd = "\<lambda>m. c\<lparr>node := ?n\<lparr>snapshot_next_offset := m\<rparr>\<rparr>"
  have upd: "evolves B heard c (?upd m)" for m
    by (rule evolves_quietI [where ms = "[]"]) (simp_all add: same_voting_def)
  have chunk: "evolves B heard c (send_snapshot_chunk_to p off (?upd m))" for off m
    using upd evolves_send_snapshot_chunk by (rule evolves_trans)
  have ship: "evolves B heard c (emit p (AppendEntries t l pi pt (entries_from (storage ?n) nx) lc) (?upd m))"
    for t l pi pt nx lc m
    by (rule evolves_trans [OF upd evolves_emit])
      (auto simp: node_ok_def static_node_def static_storage_def entries_from_def Let_def static_log_drop)
  show ?thesis
    by (simp add: send_append_entries_to_def Let_def chunk ship split: option.splits)
qed

lemma evolves_broadcast_heartbeat [intro]: "evolves B heard c (broadcast_heartbeat c)"
  unfolding broadcast_heartbeat_def by (rule evolves_fold) (rule evolves_send_append_entries)

subsection \<open>Role changes\<close>

lemma evolves_observe_term: "evolves B heard c (snd (observe_term t c))"
  by (auto simp: evolves_def Let_def observe_term_def arm_election_timer_eq effect_simps storage_defs
      node_ok_def static_node_def static_storage_def)

lemma observe_term_same: "\<not> fst (observe_term t c) \<Longrightarrow> snd (observe_term t c) = c"
  by (simp add: observe_term_def Let_def split: if_splits)

lemma observe_term_ge: "t \<le> term_of_node (node (snd (observe_term t c)))"
  by (simp add: observe_term_def Let_def arm_election_timer_eq storage_defs)

lemma evolves_step_down [intro]: "evolves B heard c (step_down_to_follower c)"
  by (auto simp: evolves_def Let_def step_down_to_follower_def effect_simps node_ok_def static_node_def)

text \<open>Appending an entry that changes no membership, with the given new voting fields.\<close>

lemma static_storage_append:
  "static_storage B st \<Longrightarrow> \<not> is_config_change (payload e) \<Longrightarrow> static_storage B (append_entry e st)"
  by (simp add: static_storage_def append_entry_def)

lemma append_entry_frame [simp]:
  "current_term (append_entry e st) = current_term st"
  "voted_for (append_entry e st) = voted_for st"
  by (simp_all add: append_entry_def)

lemma evolves_maybe_become_leader [intro]: "evolves B heard c (maybe_become_leader now c)"
proof (cases "role (node c) = Candidate \<and> tally_wins (voters (node c)) (votes (node c))")
  case True
  let ?n = "node c"
  define noop where "noop = \<lparr>entry_term = term_of_node ?n,
      entry_index = last_log_index (storage ?n) + 1, payload = Noop\<rparr>"
  define n1 where "n1 = ?n\<lparr>role := Leader, leader_id := Some (node_id_of ?n),
      failed_pre_vote_rounds := 0, snapshot_next_offset := Map.empty,
      next_index := fold (\<lambda>p m. m(p \<mapsto> last_log_index (storage ?n) + 1)) (replication_peers ?n) Map.empty,
      match_index := fold (\<lambda>p m. m(p \<mapsto> 0)) (replication_peers ?n) Map.empty,
      quorum_contact := fold (\<lambda>p m. m(p \<mapsto> now)) (btree_iter (voters ?n)) Map.empty,
      storage := append_entry noop (storage ?n)\<rparr>"
  define c1 where "c1 = c\<lparr>node := n1, out := cancel_timer ELECTION_TIMEOUT (out c)\<rparr>"
  define c2 where "c2 = broadcast_heartbeat c1"
  have eq: "maybe_become_leader now c =
      c2\<lparr>out := set_timer HEARTBEAT (heartbeat_interval (config ?n)) (out c2)\<rparr>"
    using True by (simp add: maybe_become_leader_def Let_def c2_def c1_def n1_def noop_def)
  have "\<not> is_config_change (payload noop)"
    by (simp add: noop_def is_config_change_def)
  then have "evolves B heard c c1"
    using True
    by (auto simp: evolves_def Let_def c1_def n1_def effect_simps node_ok_def static_node_def
        static_storage_append tally_wins_majority)
  also have "evolves B heard c1 c2"
    unfolding c2_def by (rule evolves_broadcast_heartbeat)
  also have "evolves B heard c2 (maybe_become_leader now c)"
    unfolding eq by (rule evolves_quietI [where ms = "[]"]) (simp_all add: effect_simps same_voting_def)
  finally show ?thesis .
next
  case False
  then show ?thesis by (auto simp: maybe_become_leader_def Let_def)
qed

lemma evolves_record_vote: "heard v t \<Longrightarrow> evolves B heard c (record_vote now v t c)"
proof (cases "role (node c) = Candidate \<and> t = term_of_node (node c)")
  case True
  let ?c1 = "c\<lparr>node := (node c)\<lparr>votes := insert v (votes (node c))\<rparr>\<rparr>"
  assume "heard v t"
  with True have "evolves B heard c ?c1"
    by (auto simp: evolves_def Let_def node_ok_def static_node_def)
  also have "evolves B heard ?c1 (maybe_become_leader now ?c1)" ..
  finally show ?thesis
    using True by (simp add: record_vote_def Let_def)
next
  case False
  then show ?thesis by (auto simp: record_vote_def Let_def)
qed

subsection \<open>Elections\<close>

lemma evolves_solicit:
  assumes "static_msg B m" and "no_grant m"
  shows "evolves B heard c (solicit m c)"
  unfolding solicit_def using assms by (intro evolves_fold) (simp add: evolves_emit)

lemma evolves_start_real_election [intro]: "evolves B heard c (start_real_election now c)"
proof -
  let ?n = "node c"
  define st where "st = set_voted_for (Some (node_id_of ?n))
      (set_current_term (term_of_node ?n + 1) (storage ?n))"
  define c1 where "c1 = c\<lparr>node := ?n\<lparr>storage := st, role := Candidate, votes := {node_id_of ?n},
      pre_votes := None, leader_id := None\<rparr>\<rparr>"
  define msg where "msg = RequestVote (term_of_node ?n + 1) (node_id_of ?n) (last_log_index st) (last_log_term st)"
  have "evolves B heard c c1"
    by (auto simp: evolves_def Let_def c1_def st_def node_ok_def static_node_def static_storage_def
        storage_defs)
  also have "evolves B heard c1 (solicit msg c1)"
    by (rule evolves_solicit) (simp_all add: msg_def)
  also have "evolves B heard (solicit msg c1) (maybe_become_leader now (solicit msg c1))" ..
  also have "maybe_become_leader now (solicit msg c1) = start_real_election now c"
    by (simp add: start_real_election_def Let_def c1_def st_def msg_def)
  finally show ?thesis .
qed

lemma evolves_maybe_promote [intro]: "evolves B heard c (maybe_promote_pre_candidate now c)"
proof -
  let ?c1 = "c\<lparr>node := (node c)\<lparr>failed_pre_vote_rounds := 0, pre_votes := None\<rparr>\<rparr>"
  have "evolves B heard c ?c1"
    by (rule evolves_quietI [where ms = "[]"]) (simp_all add: same_voting_def)
  also have "evolves B heard ?c1 (start_real_election now ?c1)" ..
  finally show ?thesis
    by (auto simp: maybe_promote_pre_candidate_def Let_def split: option.splits)
qed

lemma evolves_start_pre_vote [intro]: "evolves B heard c (start_pre_vote now c)"
proof -
  let ?n = "node c"
  define c1 where "c1 = c\<lparr>node := ?n\<lparr>pre_vote_term := term_of_node ?n + 1,
      pre_votes := Some {node_id_of ?n}, pre_vote_round_responded := False\<rparr>\<rparr>"
  define msg where "msg = PreVote (term_of_node ?n + 1) (node_id_of ?n)
      (last_log_index (storage ?n)) (last_log_term (storage ?n))"
  have "evolves B heard c c1"
    by (rule evolves_quietI [where ms = "[]"]) (simp_all add: c1_def same_voting_def)
  also have "evolves B heard c1 (solicit msg c1)"
    by (rule evolves_solicit) (simp_all add: msg_def)
  also have "evolves B heard (solicit msg c1) (arm_election_timer (solicit msg c1))" ..
  also have "evolves B heard \<dots> (maybe_promote_pre_candidate now \<dots>)" ..
  also have "maybe_promote_pre_candidate now (arm_election_timer (solicit msg c1)) = start_pre_vote now c"
    by (simp add: start_pre_vote_def Let_def c1_def msg_def)
  finally show ?thesis .
qed

lemma evolves_on_election_timeout: "evolves B heard c (on_election_timeout now c)"
proof -
  let ?n = "node c"
  have real: "evolves B heard c (arm_election_timer (start_real_election now c'))"
    if "evolves B heard c c'" for c'
    using that by (blast intro: evolves_trans)
  have quiet: "evolves B heard c (c\<lparr>node := ?n\<lparr>failed_pre_vote_rounds := k, pre_votes := pv\<rparr>\<rparr>)"
    "evolves B heard c (c\<lparr>node := ?n\<lparr>failed_pre_vote_rounds := k\<rparr>\<rparr>)" for k pv
    by (rule evolves_quietI [where ms = "[]"]; simp add: same_voting_def)+
  have pre: "evolves B heard c (start_pre_vote now (c\<lparr>node := ?n\<lparr>failed_pre_vote_rounds := k\<rparr>\<rparr>))" for k
    using quiet(2) by (rule evolves_trans) (rule evolves_start_pre_vote)
  show ?thesis
    unfolding on_election_timeout_def Let_def
    by (auto intro!: real quiet pre)
qed

subsection \<open>Vote handlers\<close>

lemma evolves_cast_vote:
  assumes "vote_of_node (node c) = None \<or> vote_of_node (node c) = Some v"
  shows "evolves B heard c (c\<lparr>node := (node c)\<lparr>storage := set_voted_for (Some v) (storage (node c))\<rparr>\<rparr>)"
  using assms
  by (auto simp: evolves_def Let_def node_ok_def static_node_def static_storage_def storage_defs)

text \<open>
  A \<open>RequestVote\<close> is answered last: a grant names the ballot the node holds when it answers.
\<close>

lemma on_request_vote_answer:
  "\<exists>c2 g. evolves B heard c c2 \<and> (g \<longrightarrow> vote_of_node (node c2) = Some cand) \<and>
     on_request_vote now t cand li lt c = emit cand (RequestVoteResp (term_of_node (node c2)) g) c2"
proof (cases "pre_vote (config (node c)) \<and> leader_is_fresh now (node c)")
  case True
  then show ?thesis
    by (intro exI [of _ c] exI [of _ False]) (simp add: on_request_vote_def)
next
  case False
  define c1 where "c1 = snd (observe_term t c)"
  define grant where "grant \<longleftrightarrow> \<not> t < term_of_node (node c1) \<and>
      (vote_of_node (node c1) = None \<or> vote_of_node (node c1) = Some cand) \<and>
      candidate_log_up_to_date (node c1) li lt"
  define c1' where "c1' = c1\<lparr>node := (node c1)\<lparr>storage := set_voted_for (Some cand) (storage (node c1))\<rparr>\<rparr>"
  define c2 where "c2 = (if grant then arm_election_timer c1' else c1)"
  have "evolves B heard c c1"
    unfolding c1_def by (rule evolves_observe_term)
  also have "evolves B heard c1 c2"
  proof (cases grant)
    case True
    then have "evolves B heard c1 c1'"
      unfolding c1'_def grant_def by (intro evolves_cast_vote) blast
    with True show ?thesis
      by (auto simp: c2_def intro: evolves_trans)
  qed (simp add: c2_def)
  finally have "evolves B heard c c2" .
  moreover have "grant \<longrightarrow> vote_of_node (node c2) = Some cand"
    by (simp add: c2_def c1'_def arm_election_timer_eq storage_defs)
  moreover have "on_request_vote now t cand li lt c =
      emit cand (RequestVoteResp (term_of_node (node c2)) grant) c2"
    using False
    by (auto simp: on_request_vote_def Let_def c2_def c1'_def grant_def c1_def [symmetric])
  ultimately show ?thesis by blast
qed

lemma evolves_on_pre_vote: "evolves B heard c (on_pre_vote now t cand li lt c)"
  by (auto simp: on_pre_vote_def Let_def intro!: evolves_emit)

lemma evolves_on_pre_vote_resp: "evolves B heard c (on_pre_vote_resp now src t g c)"
proof -
  have quiet: "evolves B heard c (c\<lparr>node := (node c)\<lparr>pre_vote_round_responded := True\<rparr>\<rparr>)"
    "evolves B heard c (c\<lparr>node := (node c)\<lparr>pre_vote_round_responded := True, pre_votes := pv\<rparr>\<rparr>)" for pv
    by (rule evolves_quietI [where ms = "[]"]; simp add: same_voting_def)+
  have "evolves B heard c (maybe_promote_pre_candidate now
      (c\<lparr>node := (node c)\<lparr>pre_vote_round_responded := True, pre_votes := pv\<rparr>\<rparr>))" for pv
    using quiet(2) evolves_maybe_promote by (rule evolves_trans)
  with quiet(1) show ?thesis
    by (simp add: on_pre_vote_resp_def Let_def)
qed

lemma evolves_on_request_vote_resp:
  assumes "g \<Longrightarrow> heard src t"
  shows "evolves B heard c (on_request_vote_resp now src t g c)"
proof -
  obtain b c1 where obs: "observe_term t c = (b, c1)" by fastforce
  have "evolves B heard c c1"
    using evolves_observe_term [of B heard c t] obs by simp
  moreover have "evolves B heard c (record_vote now src t c1)" if g
    using calculation evolves_record_vote [of heard src t, OF assms [OF that]]
    by (rule evolves_trans)
  ultimately show ?thesis
    by (simp add: on_request_vote_resp_def obs Let_def)
qed

subsection \<open>Committing, compaction and the leader's handlers\<close>

lemma apply_loop_frame:
  "apply_loop M n = Some n' \<Longrightarrow>
   \<exists>la m ac. n' = n\<lparr>last_applied := la, sm := m, applied_count := ac\<rparr>"
proof (induction M n rule: apply_loop.induct)
  case (1 M n)
  show ?case
  proof (cases "last_applied n < commit_index n")
    case True
    then obtain e where e: "entry_at (storage n) (last_applied n + 1) = Some e"
      using "1.prems" by (auto simp: apply_loop.simps [of M n] split: option.splits)
    with True "1.prems" have "apply_loop M (n\<lparr>last_applied := last_applied n + 1, sm := sm_apply M (sm n) e,
        applied_count := applied_count n + 1\<rparr>) = Some n'"
      by (simp add: apply_loop.simps [of M n])
    from "1.IH" [OF True e this] show ?thesis by auto
  next
    case False
    with "1.prems" have "n' = n\<lparr>last_applied := last_applied n, sm := sm n, applied_count := applied_count n\<rparr>"
      by (simp add: apply_loop.simps [of M n])
    then show ?thesis by blast
  qed
qed

lemma compact_to_frame [simp]:
  "current_term (compact_to i s) = current_term s" "voted_for (compact_to i s) = voted_for s"
  "stored_baseline (compact_to i s) = stored_baseline s" "snap_meta (compact_to i s) = snap_meta s"
  by (simp_all add: compact_to_def)

lemma static_log_compact: "static_log (log s) \<Longrightarrow> static_log (log (compact_to i s))"
  by (simp add: compact_to_def static_log_drop)

lemma node_ok_maybe_compact:
  assumes "node_ok B n"
  shows "node_ok B (maybe_compact M n)"
    and "storage (maybe_compact M n) = storage n \<or>
      term_of_node (maybe_compact M n) = term_of_node n \<and> vote_of_node (maybe_compact M n) = vote_of_node n"
    and "role (maybe_compact M n) = role n" "votes (maybe_compact M n) = votes n"
      "node_id_of (maybe_compact M n) = node_id_of n"
  using assms config_at_static [of B n]
  by (auto simp: maybe_compact_def Let_def node_ok_def static_node_def static_storage_def
      save_config_baseline_def save_snapshot_def static_log_compact)

lemma evolves_commit_to:
  assumes "commit_to M i c = Some c'"
  shows "evolves B heard c c'"
proof -
  define c1 where "c1 = c\<lparr>node := (node c)\<lparr>commit_index := i\<rparr>, out := note_committed_through i (out c)\<rparr>"
  from assms obtain n where n: "apply_loop M (node c1) = Some n" and c': "c' = c1\<lparr>node := maybe_compact M n\<rparr>"
    by (auto simp: commit_to_def apply_committed_def c1_def split: option.splits)
  have "evolves B heard c c1"
    by (rule evolves_quietI [where ms = "[]"]) (simp_all add: c1_def effect_simps same_voting_def)
  also have "evolves B heard c1 (c1\<lparr>node := n\<rparr>)"
    using apply_loop_frame [OF n]
    by (intro evolves_quietI [where ms = "[]"]) (auto simp: same_voting_def)
  also have "evolves B heard (c1\<lparr>node := n\<rparr>) c'"
    unfolding c'
    using node_ok_maybe_compact [of B n M] by (auto simp: evolves_def Let_def)
  finally show ?thesis .
qed

lemma evolves_maybe_advance_commit:
  assumes "maybe_advance_commit M c = Some c'"
  shows "evolves B heard c c'"
proof -
  have down: "evolves B heard c2 (arm_election_timer_now (step_down_to_follower c2))" for c2 :: "'a ctx"
    by (rule evolves_trans [OF evolves_step_down]) (rule evolves_arm_election_timer_now)
  define new_commit where "new_commit = commit_scan (node c) (last_log_index (storage (node c)))"
  show ?thesis
  proof (cases "role (node c) = Leader")
    case True
    then obtain c2 where c2: "(if commit_index (node c) < new_commit then commit_to M new_commit c else Some c) = Some c2"
      and c': "c' = c2 \<or> c' = arm_election_timer_now (step_down_to_follower c2)"
      using assms by (auto simp: maybe_advance_commit_def Let_def new_commit_def
          split: option.splits if_splits)
    from c2 have "evolves B heard c c2"
      using evolves_commit_to [of M new_commit c c2] by (auto split: if_splits)
    with c' down show ?thesis by (auto intro: evolves_trans)
  next
    case False
    with assms show ?thesis by (simp add: maybe_advance_commit_def)
  qed
qed

lemma evolves_on_append_entries_resp:
  assumes "on_append_entries_resp M now src t success mi c = Some c'"
  shows "evolves B heard c c'"
proof -
  obtain b c1 where obs: "observe_term t c = (b, c1)" by fastforce
  have 1: "evolves B heard c c1"
    using evolves_observe_term [of B heard c t] obs by simp
  have quiet: "evolves B heard c1 (c1\<lparr>node := (node c1)\<lparr>next_index := ni\<rparr>\<rparr>)"
    "evolves B heard c1 (c1\<lparr>node := (node c1)\<lparr>quorum_contact := qc, match_index := mt, next_index := ni\<rparr>\<rparr>)"
    for qc mt ni
    by (rule evolves_quietI [where ms = "[]"]; simp add: same_voting_def)+
  have send: "evolves B heard c (send_append_entries_to src (c1\<lparr>node := (node c1)\<lparr>next_index := ni\<rparr>\<rparr>))" for ni
    by (rule evolves_trans [OF evolves_trans [OF 1 quiet(1)] evolves_send_append_entries])
  have advance: "evolves B heard c c'"
    if "maybe_advance_commit M
      (c1\<lparr>node := (node c1)\<lparr>quorum_contact := qc, match_index := mt, next_index := ni\<rparr>\<rparr>) = Some c'" for qc mt ni
    by (rule evolves_trans [OF evolves_trans [OF 1 quiet(2)] evolves_maybe_advance_commit [OF that]])
  show ?thesis
    using assms 1 send advance
    by (auto simp: on_append_entries_resp_def obs Let_def split: if_splits)
qed

lemma evolves_on_heartbeat_timer: "evolves B heard c (on_heartbeat_timer now c)"
proof -
  let ?d = "step_down_to_follower c"
  let ?d' = "?d\<lparr>node := (node ?d)\<lparr>leader_id := None\<rparr>\<rparr>"
  have "evolves B heard ?d ?d'"
    by (rule evolves_quietI [where ms = "[]"]) (simp_all add: same_voting_def)
  then have down: "evolves B heard c (arm_election_timer ?d')"
    by (rule evolves_trans [OF evolves_trans [OF evolves_step_down] evolves_arm_election_timer])
  have "evolves B heard c1 (c1\<lparr>out := set_timer HEARTBEAT d (out c1)\<rparr>)" for d and c1 :: "'a ctx"
    by (rule evolves_quietI [where ms = "[]"]) (simp_all add: effect_simps same_voting_def)
  then have beat: "evolves B heard c
      (broadcast_heartbeat c\<lparr>out := set_timer HEARTBEAT d (out (broadcast_heartbeat c))\<rparr>)" for d
    by (rule evolves_trans [OF evolves_broadcast_heartbeat])
  show ?thesis
    by (auto simp: on_heartbeat_timer_def Let_def down beat)
qed

subsection \<open>Follower handlers\<close>

lemma evolves_accept_leader [intro]: "evolves B heard c (accept_leader now l c)"
proof -
  let ?c1 = "if role (node c) \<noteq> Follower then step_down_to_follower c else c"
  let ?c2 = "arm_election_timer ?c1"
  have "evolves B heard c ?c1" by auto
  also have "evolves B heard ?c1 ?c2" ..
  also have "evolves B heard ?c2 (accept_leader now l c)"
    by (rule evolves_quietI [where ms = "[]"]) (simp_all add: accept_leader_def Let_def same_voting_def)
  finally show ?thesis .
qed

lemma static_storage_truncate: "static_storage B s \<Longrightarrow> static_storage B (truncate_from i s)"
  by (auto simp: static_storage_def truncate_from_def Let_def static_log_take)

lemma static_storage_append_entries:
  "static_storage B s \<Longrightarrow> static_log es \<Longrightarrow> static_storage B (append_entries es s)"
  by (simp add: static_storage_def append_entries_def)

lemma truncate_from_frame [simp]:
  "current_term (truncate_from i s) = current_term s" "voted_for (truncate_from i s) = voted_for s"
  "stored_baseline (truncate_from i s) = stored_baseline s"
  by (simp_all add: truncate_from_def Let_def)

lemma append_entries_frame [simp]:
  "current_term (append_entries es s) = current_term s" "voted_for (append_entries es s) = voted_for s"
  "stored_baseline (append_entries es s) = stored_baseline s" "snap_meta (append_entries es s) = snap_meta s"
  by (simp_all add: append_entries_def)

lemma reconcile_frame:
  assumes "reconcile_log term_at truncate_from append_entries prev es s = (s', tr, ap)"
  shows "current_term s' = current_term s" "voted_for s' = voted_for s"
    and "static_storage B s \<Longrightarrow> static_log es \<Longrightarrow> static_storage B s'"
  using assms
  by (auto simp: reconcile_log_def Let_def split_beta static_storage_truncate
      static_storage_append_entries static_log_drop split: if_splits option.splits)

lemma node_ok_new_storage:
  assumes "node_ok B n" and "static_storage B st"
    and "current_term st = term_of_node n" and "voted_for st = vote_of_node n"
  shows "node_ok B (n\<lparr>storage := st\<rparr>)"
    and "recompute_config_from_log (n\<lparr>storage := st\<rparr>) = n\<lparr>storage := st\<rparr>"
  using assms by (auto simp: node_ok_def static_node_def static_storage_def recompute_static)

lemma on_append_entries_accept:
  assumes c1: "c1 = snd (observe_term t c)" and c2: "c2 = accept_leader now l c1"
    and "\<not> t < term_of_node (node c1)" and "term_at (storage (node c2)) pi = pt"
    and "reconcile_log term_at truncate_from append_entries pi es (storage (node c2)) = (st, tr, ap)"
    and n2: "n2 = (if tr \<or> ap then recompute_config_from_log ((node c2)\<lparr>storage := st\<rparr>)
      else (node c2)\<lparr>storage := st\<rparr>)"
  shows "on_append_entries M now t l pi pt es lc c =
    (case (if commit_index n2 < lc \<and> commit_index n2 < min lc (pi + length es)
           then commit_to M (min lc (pi + length es)) (c2\<lparr>node := n2\<rparr>) else Some (c2\<lparr>node := n2\<rparr>)) of
       None \<Rightarrow> None
     | Some c5 \<Rightarrow> Some (emit l (AppendEntriesResp (term_of_node (node c1)) True (pi + length es)) c5))"
  using assms(3-5) unfolding c1 c2 n2 by (simp add: on_append_entries_def Let_def)

lemma evolves_on_append_entries:
  assumes res: "on_append_entries M now t l pi pt es lc c = Some c'" and static: "static_log es"
  shows "evolves B heard c c'"
proof -
  define c1 where "c1 = snd (observe_term t c)"
  define c2 where "c2 = accept_leader now l c1"
  have 1: "evolves B heard c c1"
    unfolding c1_def by (rule evolves_observe_term)
  have 2: "evolves B heard c c2"
    unfolding c2_def using 1 evolves_accept_leader by (rule evolves_trans)
  have reply: "evolves B heard c (emit l (AppendEntriesResp a b d) x)" if "evolves B heard c x" for a b d x
    using that by (rule evolves_trans) (simp add: evolves_emit)
  obtain st tr ap where rec: "reconcile_log term_at truncate_from append_entries pi es (storage (node c2)) = (st, tr, ap)"
    by (metis prod_cases3)
  define n2 where "n2 = (if tr \<or> ap then recompute_config_from_log ((node c2)\<lparr>storage := st\<rparr>)
    else (node c2)\<lparr>storage := st\<rparr>)"
  define c3 where "c3 = c2\<lparr>node := n2\<rparr>"
  have "evolves B heard c2 c3"
  proof -
    have "evolves B heard c2 c3" if ok: "node_ok B (node c2)"
    proof -
      have "static_storage B (storage (node c2))"
        using ok by (simp add: node_ok_def static_node_def)
      then have "static_storage B st"
        using reconcile_frame(3) [OF rec] static by blast
      then have "n2 = (node c2)\<lparr>storage := st\<rparr>" "node_ok B n2"
        using node_ok_new_storage [OF ok, of st] reconcile_frame(1,2) [OF rec] by (simp_all add: n2_def)
      with reconcile_frame(1,2) [OF rec] show ?thesis
        by (auto simp: evolves_def Let_def c3_def)
    qed
    then show ?thesis by (auto simp: evolves_def Let_def)
  qed
  with 2 have 3: "evolves B heard c c3" by (rule evolves_trans)
  define q where "q \<longleftrightarrow> commit_index n2 < lc \<and> commit_index n2 < min lc (pi + length es)"
  have 4: "evolves B heard c c5"
    if "(if q then commit_to M (min lc (pi + length es)) c3 else Some c3) = Some c5" for c5
    using that evolves_trans [OF 3 evolves_commit_to [of M _ c3 c5]] 3 by (auto split: if_splits)
  show ?thesis
  proof (cases "t < term_of_node (node c1) \<or> term_at (storage (node c2)) pi \<noteq> pt")
    case True
    then show ?thesis
      using res reply [OF 1] reply [OF 2]
      by (auto simp: on_append_entries_def Let_def c1_def [symmetric] c2_def [symmetric] split: if_splits)
  next
    case False
    then obtain c5 where "(if q then commit_to M (min lc (pi + length es)) c3 else Some c3) = Some c5"
      and c': "c' = emit l (AppendEntriesResp (term_of_node (node c1)) True (pi + length es)) c5"
      using res on_append_entries_accept [OF c1_def c2_def _ _ rec n2_def, of pt M lc]
      unfolding q_def c3_def by (auto split: option.splits)
    with 4 reply show ?thesis by blast
  qed
qed

lemma evolves_install_assembled_snapshot:
  assumes "(rx_voters rx, rx_learners rx) = B"
  shows "evolves B heard c (install_assembled_snapshot M rx c)"
proof -
  have "evolves B heard c (install_assembled_snapshot M rx c)" if ok: "node_ok B (node c)"
  proof -
    let ?n = "node c"
    define st where "st = save_config_baseline B (compact_to (rx_last_included_index rx)
      (save_snapshot \<lparr>last_included_index = rx_last_included_index rx,
         last_included_term = rx_last_included_term rx\<rparr> (rx_data rx)
        (if term_at (storage ?n) (rx_last_included_index rx) = rx_last_included_term rx then storage ?n
         else truncate_from (log_start_index (storage ?n)) (storage ?n))))"
    have ss: "static_storage B (storage ?n)"
      using ok by (simp add: node_ok_def static_node_def)
    have "static_log (log st)"
      using ss static_storage_truncate [OF ss]
      by (auto simp: st_def save_config_baseline_def static_storage_def save_snapshot_def
          intro!: static_log_compact)
    moreover have st: "current_term st = term_of_node ?n" "voted_for st = vote_of_node ?n"
        "stored_baseline st = Some B"
      by (simp_all add: st_def save_config_baseline_def save_snapshot_def)
    ultimately have "node (install_assembled_snapshot M rx c) = ?n\<lparr>sm := sm_restore M (sm ?n) (rx_data rx),
        config_baseline := B, storage := st, voters := fst B, learners := snd B,
        commit_index := rx_last_included_index rx, last_applied := rx_last_included_index rx\<rparr>"
      "static_storage B st"
      using assms
      by (auto simp: install_assembled_snapshot_def Let_def st_def [symmetric] recompute_static
          static_storage_def)
    with ok st show ?thesis
      by (auto simp: evolves_def Let_def node_ok_def static_node_def install_assembled_snapshot_def
          effect_simps)
  qed
  then show ?thesis by (auto simp: evolves_def Let_def)
qed

lemma receive_chunk_static:
  "receive_chunk i tr off d vs ls buf = (acc, Some rx) \<Longrightarrow> (vs, ls) = B \<Longrightarrow>
   (\<forall>rx. buf = Some rx \<longrightarrow> (rx_voters rx, rx_learners rx) = B) \<Longrightarrow> (rx_voters rx, rx_learners rx) = B"
  by (auto simp: receive_chunk_def split: if_splits option.splits)

lemma evolves_on_install_snapshot:
  assumes res: "on_install_snapshot M now t l i tr off d dn vs ls c = Some c'" and static: "(vs, ls) = B"
  shows "evolves B heard c c'"
proof -
  define c1 where "c1 = snd (observe_term t c)"
  define c2 where "c2 = accept_leader now l c1"
  obtain acc buf where chunk: "receive_chunk i tr off d vs ls (snapshot_rx (node c2)) = (acc, buf)"
    by fastforce
  define c3 where "c3 = c2\<lparr>node := (node c2)\<lparr>snapshot_rx := buf\<rparr>\<rparr>"
  define c4 where "c4 = c2\<lparr>node := (node c2)\<lparr>snapshot_rx := None\<rparr>\<rparr>"
  have 1: "evolves B heard c c1"
    unfolding c1_def by (rule evolves_observe_term)
  have 2: "evolves B heard c c2"
    unfolding c2_def using 1 evolves_accept_leader by (rule evolves_trans)
  have chunk_ok: "(rx_voters rx, rx_learners rx) = B" if "node_ok B (node c2)" "buf = Some rx" for rx
    using that chunk static receive_chunk_static [of i tr off d vs ls "snapshot_rx (node c2)" acc rx B]
    by (simp add: node_ok_def static_node_def)
  have "node_ok B (node c3)" if "node_ok B (node c2)"
    using that chunk_ok [OF that] by (simp add: c3_def node_ok_def static_node_def)
  then have "evolves B heard c2 c3"
    by (simp add: evolves_def Let_def c3_def)
  with 2 have 3: "evolves B heard c c3" by (rule evolves_trans)
  have "evolves B heard c2 c4"
    by (simp add: evolves_def Let_def c4_def node_ok_def static_node_def)
  with 2 have 4: "evolves B heard c c4" by (rule evolves_trans)
  have 5: "evolves B heard c (install_assembled_snapshot M rx c4)" if rx: "buf = Some rx" for rx
  proof -
    have "evolves B heard c (install_assembled_snapshot M rx c4)" if ok: "node_ok B (node c)"
    proof -
      from 2 ok have "node_ok B (node c2)" by (simp add: evolves_def Let_def)
      from chunk_ok [OF this rx] show ?thesis
        using 4 evolves_install_assembled_snapshot evolves_trans by blast
    qed
    then show ?thesis by (auto simp: evolves_def Let_def)
  qed
  have reply: "evolves B heard c (emit l (InstallSnapshotResp a b e f) x)" if "evolves B heard c x" for a b e f x
    using that by (rule evolves_trans) (simp add: evolves_emit)
  show ?thesis
    using res reply [OF 1] reply [OF 3] reply [OF 4] reply [OF 5]
    by (auto simp: on_install_snapshot_def Let_def c1_def [symmetric] c2_def [symmetric] chunk
        c3_def [symmetric] c4_def [symmetric] split: if_splits option.splits)
qed

lemma evolves_on_install_snapshot_resp:
  assumes "on_install_snapshot_resp M src t i inst off c = Some c'"
  shows "evolves B heard c c'"
proof -
  obtain b c1 where obs: "observe_term t c = (b, c1)" by fastforce
  have 1: "evolves B heard c c1"
    using evolves_observe_term [of B heard c t] obs by simp
  have quiet: "evolves B heard c1 (c1\<lparr>node := (node c1)\<lparr>snapshot_next_offset := so\<rparr>\<rparr>)"
    "evolves B heard c1 (c1\<lparr>node := (node c1)\<lparr>snapshot_next_offset := so, match_index := mt, next_index := ni\<rparr>\<rparr>)"
    for so mt ni
    by (rule evolves_quietI [where ms = "[]"]; simp add: same_voting_def)+
  have chunk: "evolves B heard c (send_snapshot_chunk_to src off
      (c1\<lparr>node := (node c1)\<lparr>snapshot_next_offset := so\<rparr>\<rparr>))" for so
    by (rule evolves_trans [OF evolves_trans [OF 1 quiet(1)] evolves_send_snapshot_chunk])
  have advance: "evolves B heard c (send_append_entries_to src z)"
    if "maybe_advance_commit M
      (c1\<lparr>node := (node c1)\<lparr>snapshot_next_offset := so, match_index := mt, next_index := ni\<rparr>\<rparr>) = Some z" for so mt ni z
    by (rule evolves_trans [OF evolves_trans [OF evolves_trans [OF 1 quiet(2)]
            evolves_maybe_advance_commit [OF that]] evolves_send_append_entries])
  show ?thesis
    using assms 1 chunk advance
    by (auto simp: on_install_snapshot_resp_def obs Let_def split: if_splits option.splits)
qed

subsection \<open>Proposals, messages and timers\<close>

lemma evolves_propose:
  assumes res: "propose M p c = Some (r, c')" and static: "\<not> is_config_change p"
  shows "evolves B heard c c'"
proof -
  let ?n = "node c"
  define e where "e = \<lparr>entry_term = term_of_node ?n, entry_index = last_log_index (storage ?n) + 1, payload = p\<rparr>"
  define c1 where "c1 = c\<lparr>node := ?n\<lparr>storage := append_entry e (storage ?n)\<rparr>\<rparr>"
  have "evolves B heard c c1"
    using static
    by (auto simp: evolves_def Let_def c1_def e_def node_ok_def static_node_def static_storage_append)
  then have 2: "evolves B heard c (broadcast_heartbeat c1)"
    using evolves_broadcast_heartbeat by (rule evolves_trans)
  have "c' = c \<or> maybe_advance_commit M (broadcast_heartbeat c1) = Some c'"
    using res static by (auto simp: propose_def Let_def c1_def e_def split: if_splits)
  then show ?thesis
    using evolves_trans [OF 2 evolves_maybe_advance_commit [of M]] by auto
qed

text \<open>Every message is handled by an \<open>evolves\<close> step, followed at most by the answer to a vote request.\<close>

lemma on_message_evolves:
  assumes "on_message M now src m c = Some c'" and "static_msg B m"
    and "\<And>t. m = RequestVoteResp t True \<Longrightarrow> heard src t"
  shows "evolves B heard c c' \<or>
    (\<exists>c2 d g. evolves B heard c c2 \<and> (g \<longrightarrow> vote_of_node (node c2) = Some d) \<and>
       c' = emit d (RequestVoteResp (term_of_node (node c2)) g) c2)"
proof (cases m)
  case (RequestVote t cand li lt)
  with assms(1) have "c' = on_request_vote now t cand li lt c" by simp
  with on_request_vote_answer [of B heard c cand now t li lt] show ?thesis by metis
next
  case (Propose p)
  with assms(1) obtain r where "propose M p c = Some (r, c')" by auto
  then have "evolves B heard c c'"
    by (rule evolves_propose) (use assms(2) Propose in simp)
  then show ?thesis ..
qed (use assms in \<open>auto simp: evolves_on_request_vote_resp evolves_on_pre_vote
      evolves_on_pre_vote_resp intro!: disjI1 intro: evolves_on_append_entries evolves_on_append_entries_resp
      evolves_on_install_snapshot evolves_on_install_snapshot_resp\<close>)

lemma on_timer_evolves: "evolves B heard c (on_timer now token c)"
  by (simp add: on_timer_def evolves_on_election_timeout evolves_on_heartbeat_timer)

end
