(* ===== verification/Raft_Cluster.thy ===== *)
theory Raft_Cluster
  imports Raft_Election
begin

text \<open>
  A cluster of engine nodes over an asynchronous network: every message ever sent stays in the soup
  and may be delivered any number of times, late, out of order or never; timers fire at any time;
  a node may crash and restart from its storage.  Two history variables record the ballots cast
  and the elections won.  Election safety is the invariant that a term has at most one winner.
\<close>

record 'm net =
  nodes :: "node_id \<Rightarrow> 'm raft_node"
  soup :: "(node_id \<times> node_id \<times> raft_msg) set"
  ballots :: "node_id \<times> nat \<rightharpoonup> node_id"
  elected :: "(nat \<times> node_id) set"

definition run_ctx :: "'m raft_node \<Rightarrow> split_mix64 \<Rightarrow> 'm ctx" where
  "run_ctx n r = \<lparr>node = n, rng = r, out = effects_new\<rparr>"

text \<open>Writing a finished step of node \<open>i\<close> back into the network.\<close>

definition settle :: "node_id \<Rightarrow> 'm ctx \<Rightarrow> 'm net \<Rightarrow> 'm net" where
  "settle i c s =
     (let n = node c
      in s\<lparr>nodes := (nodes s)(i := n),
           soup := soup s \<union> (\<lambda>(d, m). (i, d, m)) ` set (sends (out c)),
           ballots := (case vote_of_node n of
                         Some v \<Rightarrow> (ballots s)((i, term_of_node n) \<mapsto> v) | None \<Rightarrow> ballots s),
           elected := (if role n = Leader then insert (term_of_node n, i) (elected s) else elected s)\<rparr>)"

definition init_net :: "'m sm_ops \<Rightarrow> node_id set \<Rightarrow> (node_id \<Rightarrow> raft_config) \<Rightarrow> (node_id \<Rightarrow> 'm) \<Rightarrow> 'm net" where
  "init_net M V cfg m0 =
     \<lparr>nodes = (\<lambda>i. with_state_machine M i V mem_storage_new (cfg i) (m0 i)), soup = {},
      ballots = Map.empty, elected = {}\<rparr>"

inductive net_step ::
    "'m sm_ops \<Rightarrow> node_id set \<Rightarrow> (node_id \<Rightarrow> raft_config) \<Rightarrow> (node_id \<Rightarrow> 'm) \<Rightarrow> 'm net \<Rightarrow> 'm net \<Rightarrow> bool"
  for M :: "'m sm_ops" and V :: "node_id set" and cfg :: "node_id \<Rightarrow> raft_config" and m0 :: "node_id \<Rightarrow> 'm"
where
  deliver: "(src, i, m) \<in> soup s \<Longrightarrow> on_message M now src m (run_ctx (nodes s i) r) = Some c \<Longrightarrow>
      net_step M V cfg m0 s (settle i c s)"
| client: "\<not> is_config_change p \<Longrightarrow> propose M p (run_ctx (nodes s i) r) = Some (res, c) \<Longrightarrow>
      net_step M V cfg m0 s (settle i c s)"
| timer: "net_step M V cfg m0 s (settle i (on_timer now token (run_ctx (nodes s i) r)) s)"
| restart: "net_step M V cfg m0 s
      (settle i (start_node (run_ctx (with_state_machine M i V (storage (nodes s i)) (cfg i) (m0 i)) r)) s)"

inductive reachable ::
    "'m sm_ops \<Rightarrow> node_id set \<Rightarrow> (node_id \<Rightarrow> raft_config) \<Rightarrow> (node_id \<Rightarrow> 'm) \<Rightarrow> 'm net \<Rightarrow> bool"
  for M :: "'m sm_ops" and V :: "node_id set" and cfg :: "node_id \<Rightarrow> raft_config" and m0 :: "node_id \<Rightarrow> 'm"
where
  initial: "reachable M V cfg m0 (init_net M V cfg m0)"
| step: "reachable M V cfg m0 s \<Longrightarrow> net_step M V cfg m0 s s' \<Longrightarrow> reachable M V cfg m0 s'"

subsection \<open>The election invariant\<close>

definition ballots_ok :: "'m net \<Rightarrow> bool" where
  "ballots_ok s \<longleftrightarrow>
     (\<forall>v t x. ballots s (v, t) = Some x \<longrightarrow>
        t \<le> term_of_node (nodes s v) \<and>
        (t = term_of_node (nodes s v) \<longrightarrow> vote_of_node (nodes s v) = Some x)) \<and>
     (\<forall>v x. vote_of_node (nodes s v) = Some x \<longrightarrow> ballots s (v, term_of_node (nodes s v)) = Some x)"

definition soup_ok :: "membership \<Rightarrow> 'm net \<Rightarrow> bool" where
  "soup_ok B s \<longleftrightarrow>
     (\<forall>v d m. (v, d, m) \<in> soup s \<longrightarrow>
        static_msg B m \<and> (\<forall>t. m = RequestVoteResp t True \<longrightarrow> ballots s (v, t) = Some d))"

definition net_inv :: "node_id set \<Rightarrow> 'm net \<Rightarrow> bool" where
  "net_inv V s \<longleftrightarrow>
     (\<forall>i. node_ok (V, {}) (nodes s i) \<and> node_id_of (nodes s i) = i) \<and>
     ballots_ok s \<and> soup_ok (V, {}) s \<and>
     (\<forall>i. role (nodes s i) \<noteq> Follower \<longrightarrow>
        (\<forall>v \<in> votes (nodes s i). ballots s (v, term_of_node (nodes s i)) = Some i)) \<and>
     (\<forall>i. role (nodes s i) = Leader \<longrightarrow> (term_of_node (nodes s i), i) \<in> elected s) \<and>
     (\<forall>t i. (t, i) \<in> elected s \<longrightarrow> (\<exists>Q. majority V Q \<and> (\<forall>v \<in> Q. ballots s (v, t) = Some i)))"

lemma ballots_okD:
  assumes "ballots_ok s" and "ballots s (v, t) = Some x"
  shows "t \<le> term_of_node (nodes s v)"
    and "t = term_of_node (nodes s v) \<Longrightarrow> vote_of_node (nodes s v) = Some x"
  using assms by (simp_all add: ballots_ok_def)

lemma net_invD:
  assumes "net_inv V s"
  shows "node_ok (V, {}) (nodes s i)" "node_id_of (nodes s i) = i" "ballots_ok s" "soup_ok (V, {}) s"
    and "role (nodes s i) \<noteq> Follower \<Longrightarrow> v \<in> votes (nodes s i) \<Longrightarrow>
      ballots s (v, term_of_node (nodes s i)) = Some i"
    and "(t, i) \<in> elected s \<Longrightarrow> \<exists>Q. majority V Q \<and> (\<forall>v \<in> Q. ballots s (v, t) = Some i)"
    and "role (nodes s i) = Leader \<Longrightarrow> (term_of_node (nodes s i), i) \<in> elected s"
  using assms by (simp_all add: net_inv_def)

lemma soup_okD:
  assumes "soup_ok B s" and "(v, d, m) \<in> soup s"
  shows "static_msg B m" and "m = RequestVoteResp t True \<Longrightarrow> ballots s (v, t) = Some d"
  using assms by (simp_all add: soup_ok_def)

text \<open>Ballots are never withdrawn or changed.\<close>

lemma ballots_settle_mono:
  assumes inv: "ballots_ok s"
    and mono: "term_of_node (nodes s i) \<le> term_of_node (node c)"
    and stable: "term_of_node (node c) = term_of_node (nodes s i) \<Longrightarrow> vote_of_node (nodes s i) \<noteq> None \<Longrightarrow>
      vote_of_node (node c) = vote_of_node (nodes s i)"
    and "ballots s (v, t) = Some x"
  shows "ballots (settle i c s) (v, t) = Some x"
proof (cases "v = i \<and> t = term_of_node (node c)")
  case True
  with ballots_okD [OF inv assms(4)] mono have "term_of_node (node c) = term_of_node (nodes s i)"
      "vote_of_node (nodes s i) = Some x"
    by auto
  with stable True assms(4) show ?thesis by (simp add: settle_def Let_def)
next
  case False
  with assms(4) show ?thesis by (auto simp: settle_def Let_def split: option.splits)
qed

lemma ballots_ok_settle:
  assumes inv: "ballots_ok s"
    and mono: "term_of_node (nodes s i) \<le> term_of_node (node c)"
    and stable: "term_of_node (node c) = term_of_node (nodes s i) \<Longrightarrow> vote_of_node (nodes s i) \<noteq> None \<Longrightarrow>
      vote_of_node (node c) = vote_of_node (nodes s i)"
  shows "ballots_ok (settle i c s)"
proof -
  have "t \<le> term_of_node (nodes (settle i c s) v) \<and>
      (t = term_of_node (nodes (settle i c s) v) \<longrightarrow> vote_of_node (nodes (settle i c s) v) = Some x)"
    if b: "ballots (settle i c s) (v, t) = Some x" for v t x
  proof (cases "v = i")
    case False
    with b inv show ?thesis
      by (auto simp: settle_def Let_def ballots_ok_def split: option.splits)
  next
    case True
    show ?thesis
    proof (cases "t = term_of_node (node c) \<and> vote_of_node (node c) \<noteq> None")
      case vote: True
      with b True show ?thesis by (auto simp: settle_def Let_def)
    next
      case False
      with b True have old: "ballots s (i, t) = Some x"
        by (auto simp: settle_def Let_def split: option.splits if_splits)
      note o = ballots_okD [OF inv old]
      have "vote_of_node (node c) = Some x" if "t = term_of_node (node c)"
        using that o mono stable by simp
      with o(1) mono True show ?thesis
        by (simp add: settle_def Let_def)
    qed
  qed
  moreover have "ballots (settle i c s) (v, term_of_node (nodes (settle i c s) v)) = Some x"
    if "vote_of_node (nodes (settle i c s) v) = Some x" for v x
    using that inv by (auto simp: settle_def Let_def ballots_ok_def split: option.splits)
  ultimately show ?thesis by (simp add: ballots_ok_def)
qed

text \<open>One finished step keeps the invariant.\<close>

lemma net_inv_settle:
  assumes inv: "net_inv V s"
    and evo: "evolves (V, {}) heard (run_ctx (nodes s i) r) c2"
    and heard: "\<And>v t. heard v t \<Longrightarrow> (v, i, RequestVoteResp t True) \<in> soup s"
    and c: "c = c2 \<or> (\<exists>d g. c = emit d (RequestVoteResp (term_of_node (node c2)) g) c2 \<and>
      (g \<longrightarrow> vote_of_node (node c2) = Some d))"
  shows "net_inv V (settle i c s)"
proof -
  let ?s = "settle i c s"
  have nc: "node c = node c2" using c by auto
  have ok: "node_ok (V, {}) (nodes s i)" and "node_id_of (nodes s i) = i" and bal: "ballots_ok s"
    using net_invD [OF inv] by blast+
  note e = evo [unfolded evolves_def run_ctx_def Let_def, simplified, rule_format, OF ok]
  have mono: "term_of_node (nodes s i) \<le> term_of_node (node c)"
    and stable: "term_of_node (node c) = term_of_node (nodes s i) \<Longrightarrow> vote_of_node (nodes s i) \<noteq> None \<Longrightarrow>
      vote_of_node (node c) = vote_of_node (nodes s i)"
    using e nc by auto
  have bal': "ballots_ok ?s"
    using bal mono stable by (rule ballots_ok_settle)
  have keep: "ballots ?s (v, t) = Some x" if "ballots s (v, t) = Some x" for v t x
    using bal mono stable that by (rule ballots_settle_mono)
  have cast: "ballots ?s (i, term_of_node (node c)) = Some x" if "vote_of_node (node c) = Some x" for x
    using that by (simp add: settle_def Let_def)
  have ns: "nodes ?s = (nodes s)(i := node c)" and es: "elected ?s =
      (if role (node c) = Leader then insert (term_of_node (node c), i) (elected s) else elected s)"
    by (simp_all add: settle_def Let_def)
  obtain ms where ms: "sends (out c2) = ms" "sends_ok (V, {}) ms"
    using e by (auto simp: effects_new_def)
  have soup: "soup_ok (V, {}) ?s"
  proof -
    have "static_msg (V, {}) m \<and> (\<forall>t. m = RequestVoteResp t True \<longrightarrow> ballots ?s (v, t) = Some d)"
      if "(v, d, m) \<in> soup ?s" for v d m
    proof (cases "(v, d, m) \<in> soup s")
      case True
      with soup_okD [OF net_invD(4) [OF inv] True] keep show ?thesis by blast
    next
      case False
      with that have "v = i" and "(d, m) \<in> set (sends (out c))"
        by (auto simp: settle_def Let_def)
      then consider "(d, m) \<in> set ms"
        | g where "m = RequestVoteResp (term_of_node (node c)) g" "g \<longrightarrow> vote_of_node (node c) = Some d"
        using c ms nc by (auto simp: emit_def effect_simps)
      then show ?thesis
      proof cases
        case 1
        with ms(2) show ?thesis by (fastforce simp: sends_ok_def no_grant_def)
      next
        case 2
        with cast \<open>v = i\<close> show ?thesis by auto
      qed
    qed
    then show ?thesis by (simp add: soup_ok_def)
  qed
  have campaign: "ballots ?s (v, term_of_node (node c)) = Some i"
    if "role (node c) \<noteq> Follower" and "v \<in> votes (node c)" for v
  proof -
    have "v = i \<or> heard v (term_of_node (node c)) \<or>
      role (nodes s i) \<noteq> Follower \<and> term_of_node (node c) = term_of_node (nodes s i) \<and> v \<in> votes (nodes s i)"
      using e that nc \<open>node_id_of (nodes s i) = i\<close> by auto
    moreover have "vote_of_node (node c) = Some i"
      using e nc that(1) \<open>node_id_of (nodes s i) = i\<close> by (auto simp: node_ok_def)
    moreover have "heard v t \<Longrightarrow> ballots s (v, t) = Some i" for t
      using soup_okD(2) [OF net_invD(4) [OF inv] heard [of v t]] by simp
    ultimately show ?thesis
      using net_invD(5) [OF inv, of i v] keep cast by metis
  qed
  have "\<exists>Q. majority V Q \<and> (\<forall>v \<in> Q. ballots ?s (v, t) = Some j)" if "(t, j) \<in> elected ?s" for t j
  proof (cases "(t, j) \<in> elected s")
    case True
    with net_invD(6) [OF inv True] keep show ?thesis by blast
  next
    case False
    with that es have "role (node c) = Leader" "t = term_of_node (node c)" "j = i"
      by (auto split: if_splits)
    moreover from this have "majority V (votes (node c))"
      using e nc by (auto simp: node_ok_def)
    ultimately show ?thesis using campaign by auto
  qed
  moreover have "node_ok (V, {}) (nodes ?s j) \<and> node_id_of (nodes ?s j) = j" for j
    using net_invD(1,2) [OF inv, of j] e nc \<open>node_id_of (nodes s i) = i\<close> by (simp add: ns)
  moreover have "ballots ?s (v, term_of_node (nodes ?s j)) = Some j"
    if "role (nodes ?s j) \<noteq> Follower" "v \<in> votes (nodes ?s j)" for j v
    using that campaign keep net_invD(5) [OF inv, of j v] by (cases "j = i") (simp_all add: ns)
  moreover have "(term_of_node (nodes ?s j), j) \<in> elected ?s" if "role (nodes ?s j) = Leader" for j
    using that net_invD(7) [OF inv, of j] by (cases "j = i") (simp_all add: ns es)
  ultimately show ?thesis
    using bal' soup by (simp add: net_inv_def)
qed

subsection \<open>Restarts and reachable states\<close>

text \<open>A rebuilt node keeps its term, its ballot and the static configuration, and is a follower.\<close>

lemma with_state_machine_fields:
  assumes "static_storage (V, {}) st" and n_def: "n = with_state_machine M i V st cfg m"
  shows "storage n = st" "role n = Follower" "node_id_of n = i" "votes n = {}" "snapshot_rx n = None"
    and "config_baseline n = (V, {})" "voters n = V" "learners n = {}"
proof -
  have b: "(case load_config_baseline st of Some b \<Rightarrow> b | None \<Rightarrow> (V, {})) = (V, {})"
    using assms(1) by (auto simp: static_storage_def load_config_baseline_def split: option.splits)
  have static: "static_log (log st)"
    using assms(1) by (simp add: static_storage_def)
  show "storage n = st" "role n = Follower" "node_id_of n = i" "votes n = {}" "snapshot_rx n = None"
    "config_baseline n = (V, {})" "voters n = V" "learners n = {}"
    using static
    by (simp_all add: n_def with_state_machine_def b Let_def split_beta recompute_static)
qed

lemma with_state_machine_ok:
  "finite V \<Longrightarrow> static_storage (V, {}) st \<Longrightarrow> node_ok (V, {}) (with_state_machine M i V st cfg m)"
  by (simp add: node_ok_def static_node_def with_state_machine_fields [OF _ refl])

lemma static_storage_new [simp]: "static_storage B mem_storage_new"
  by (simp add: static_storage_def mem_storage_new_def)

lemma net_inv_init: "finite V \<Longrightarrow> net_inv V (init_net M V cfg m0)"
  by (simp add: net_inv_def init_net_def with_state_machine_ok with_state_machine_fields [OF _ refl] ballots_ok_def
      soup_ok_def) (simp add: mem_storage_new_def)

lemma net_inv_restart:
  assumes inv: "net_inv V s" and "finite V"
  shows "net_inv V (settle i (start_node
    (run_ctx (with_state_machine M i V (storage (nodes s i)) cfg m) r)) s)"
    (is "net_inv V (settle i ?c s)")
proof -
  let ?n = "with_state_machine M i V (storage (nodes s i)) cfg m"
  have st: "static_storage (V, {}) (storage (nodes s i))"
    using net_invD(1) [OF inv, of i] by (simp add: node_ok_def static_node_def)
  note f = with_state_machine_fields [OF st refl, of M i cfg m]
  have nc: "node ?c = ?n" and no_sends: "sends (out ?c) = []"
    by (simp_all add: start_node_def run_ctx_def arm_election_timer_eq effects_new_def)
  have keep: "ballots (settle i ?c s) (v, t) = Some x" if "ballots s (v, t) = Some x" for v t x
    by (rule ballots_settle_mono [OF net_invD(3) [OF inv] _ _ that]) (simp_all add: nc f)
  have bal: "ballots_ok (settle i ?c s)"
    by (rule ballots_ok_settle [OF net_invD(3) [OF inv]]) (simp_all add: nc f)
  have ns: "nodes (settle i ?c s) = (nodes s)(i := ?n)" "elected (settle i ?c s) = elected s"
    "soup (settle i ?c s) = soup s"
    by (simp_all add: settle_def Let_def nc f no_sends)
  have "soup_ok (V, {}) (settle i ?c s)"
    using net_invD(4) [OF inv] keep by (auto simp: soup_ok_def ns)
  moreover have "node_ok (V, {}) ?n"
    using \<open>finite V\<close> st by (rule with_state_machine_ok)
  moreover have "\<exists>Q. majority V Q \<and> (\<forall>v \<in> Q. ballots (settle i ?c s) (v, t) = Some j)"
    if "(t, j) \<in> elected s" for t j
    using net_invD(6) [OF inv that] keep by blast
  ultimately show ?thesis
    using net_invD(1,2,5,7) [OF inv] bal keep by (auto simp: net_inv_def ns f)
qed

lemma net_inv_step:
  assumes step: "net_step M V cfg m0 s s'" and inv: "net_inv V s" and fin: "finite V"
  shows "net_inv V s'"
  using step
proof cases
  case (deliver src i m now r c)
  let ?heard = "\<lambda>v t. (v, i, RequestVoteResp t True) \<in> soup s"
  have "static_msg (V, {}) m"
    using soup_okD(1) [OF net_invD(4) [OF inv] deliver(2)] .
  then have "evolves (V, {}) ?heard (run_ctx (nodes s i) r) c \<or>
    (\<exists>c2 d g. evolves (V, {}) ?heard (run_ctx (nodes s i) r) c2 \<and>
       (g \<longrightarrow> vote_of_node (node c2) = Some d) \<and>
       c = emit d (RequestVoteResp (term_of_node (node c2)) g) c2)"
    using deliver(2) by (intro on_message_evolves [OF deliver(3)]) auto
  then show ?thesis
    unfolding deliver(1) by (metis net_inv_settle [OF inv, of ?heard])
next
  case (client p i r res c)
  have "evolves (V, {}) (\<lambda>v t. False) (run_ctx (nodes s i) r) c"
    using client by (intro evolves_propose)
  then show ?thesis
    unfolding client(1) by (rule net_inv_settle [OF inv]) simp_all
next
  case (timer i now token r)
  have "evolves (V, {}) (\<lambda>v t. False) (run_ctx (nodes s i) r) (on_timer now token (run_ctx (nodes s i) r))"
    by (rule on_timer_evolves)
  then show ?thesis
    unfolding timer by (rule net_inv_settle [OF inv]) simp_all
next
  case (restart i r)
  show ?thesis
    unfolding restart using inv fin by (rule net_inv_restart)
qed

lemma net_inv_reachable: "reachable M V cfg m0 s \<Longrightarrow> finite V \<Longrightarrow> net_inv V s"
  by (induction rule: reachable.induct) (auto intro: net_inv_init net_inv_step)

subsection \<open>Election safety\<close>

text \<open>
  C1: in every reachable state of a cluster with static membership, under message loss, duplication,
  reordering, arbitrary timers and crash-restarts, a term has at most one elected leader over the
  whole history, and every node that is a leader now is the recorded winner of its term; so two
  nodes never lead the same term.
\<close>

theorem election_safety:
  assumes "finite V" and "reachable M V cfg m0 s"
  shows "(\<forall>t i j. (t, i) \<in> elected s \<longrightarrow> (t, j) \<in> elected s \<longrightarrow> i = j) \<and>
         (\<forall>i. role (nodes s i) = Leader \<longrightarrow> (term_of_node (nodes s i), i) \<in> elected s)"
proof (intro conjI allI impI)
  have inv: "net_inv V s"
    using assms by (simp add: net_inv_reachable)
  show "(term_of_node (nodes s i), i) \<in> elected s" if "role (nodes s i) = Leader" for i
    by (rule net_invD(7) [OF inv that])
  show "i = j" if "(t, i) \<in> elected s" "(t, j) \<in> elected s" for t i j
  proof -
    from net_invD(6) [OF inv that(1)] net_invD(6) [OF inv that(2)]
    obtain P Q where "majority V P" "\<forall>v \<in> P. ballots s (v, t) = Some i"
      and "majority V Q" "\<forall>v \<in> Q. ballots s (v, t) = Some j" by blast
    with \<open>finite V\<close> show ?thesis
      by (intro maj.unique_choice [where ballot = "\<lambda>v. ballots s (v, t)"])
  qed
qed

text \<open>A run in which a three-voter cluster elects its first leader.\<close>

definition demo_voters :: "node_id set" where
  "demo_voters = {NodeId 1, NodeId 2, NodeId 3}"

definition demo_cfg :: "node_id \<Rightarrow> raft_config" where
  "demo_cfg i = raft_config_default\<lparr>pre_vote := False\<rparr>"

definition demo_node :: "node_id \<Rightarrow> counting_sm raft_node" where
  "demo_node i = with_state_machine counting_ops i demo_voters mem_storage_new (demo_cfg i) counting_sm_new"

definition demo_seed :: split_mix64 where
  "demo_seed = split_mix64_new 1"

definition demo_campaign :: "counting_sm ctx" where
  "demo_campaign = on_timer monotonic_zero ELECTION_TIMEOUT (run_ctx (demo_node (NodeId 1)) demo_seed)"

definition demo_grant :: "counting_sm ctx option" where
  "demo_grant = on_message counting_ops monotonic_zero (NodeId 1) (RequestVote 1 (NodeId 1) 0 0)
     (run_ctx (demo_node (NodeId 2)) demo_seed)"

definition demo_win :: "counting_sm ctx option" where
  "demo_win = on_message counting_ops monotonic_zero (NodeId 2) (RequestVoteResp 1 True)
     (run_ctx (node demo_campaign) demo_seed)"

definition demo_net :: "counting_sm net" where
  "demo_net = settle (NodeId 1) (the demo_win) (settle (NodeId 2) (the demo_grant)
     (settle (NodeId 1) demo_campaign (init_net counting_ops demo_voters demo_cfg (\<lambda>_. counting_sm_new))))"

lemma demo_campaign_sends: "(NodeId 2, RequestVote 1 (NodeId 1) 0 0) \<in> set (sends (out demo_campaign))"
  by code_simp

lemma demo_grant_sends: "map_option (\<lambda>c. sends (out c)) demo_grant = Some [(NodeId 1, RequestVoteResp 1 True)]"
  by code_simp

lemma demo_win_leads:
  "map_option (\<lambda>c. (role (node c), term_of_node (node c))) demo_win = Some (Leader, 1)"
  by code_simp

lemma demo_reachable: "reachable counting_ops demo_voters demo_cfg (\<lambda>_. counting_sm_new) demo_net"
proof -
  let ?R = "reachable counting_ops demo_voters demo_cfg (\<lambda>_. counting_sm_new)"
  let ?s0 = "init_net counting_ops demo_voters demo_cfg (\<lambda>_. counting_sm_new)"
  let ?s1 = "settle (NodeId 1) demo_campaign ?s0"
  obtain g w where g: "demo_grant = Some g" and w: "demo_win = Some w"
      and sg: "sends (out g) = [(NodeId 1, RequestVoteResp 1 True)]"
    using demo_grant_sends demo_win_leads by auto
  let ?s2 = "settle (NodeId 2) g ?s1"
  have n0: "nodes ?s0 i = demo_node i" for i
    by (simp add: init_net_def demo_node_def)
  have n1: "nodes ?s1 (NodeId 2) = demo_node (NodeId 2)" and n2: "nodes ?s2 (NodeId 1) = node demo_campaign"
    by (simp_all add: settle_def Let_def n0)
  have "?R ?s1"
    unfolding demo_campaign_def n0 [symmetric] by (intro reachable.step [OF reachable.initial] net_step.timer)
  moreover have "(NodeId 1, NodeId 2, RequestVote 1 (NodeId 1) 0 0) \<in> soup ?s1"
    using demo_campaign_sends by (force simp: settle_def Let_def)
  ultimately have "?R ?s2"
    using g unfolding demo_grant_def n1 [symmetric] by (blast intro: reachable.step net_step.deliver)
  moreover have "(NodeId 2, NodeId 1, RequestVoteResp 1 True) \<in> soup ?s2"
    using sg by (simp add: settle_def Let_def)
  ultimately have "?R (settle (NodeId 1) w ?s2)"
    using w unfolding demo_win_def n2 [symmetric] by (blast intro: reachable.step net_step.deliver)
  then show ?thesis
    by (simp add: demo_net_def g w)
qed

lemma demo_leader: "role (nodes demo_net (NodeId 1)) = Leader" "term_of_node (nodes demo_net (NodeId 1)) = 1"
proof -
  obtain w where w: "demo_win = Some w" "role (node w) = Leader" "term_of_node (node w) = 1"
    using demo_win_leads by auto
  have "nodes demo_net (NodeId 1) = node w"
    unfolding demo_net_def w(1) by (simp add: settle_def Let_def)
  with w(2,3) show "role (nodes demo_net (NodeId 1)) = Leader" "term_of_node (nodes demo_net (NodeId 1)) = 1"
    by simp_all
qed

theorem election_safety_witness:
  "finite demo_voters \<and> reachable counting_ops demo_voters demo_cfg (\<lambda>_. counting_sm_new) demo_net \<and>
   role (nodes demo_net (NodeId 1)) = Leader \<and>
   (1, NodeId 1) \<in> elected demo_net \<and> (1, NodeId 2) \<notin> elected demo_net"
proof -
  have fin: "finite demo_voters" by (simp add: demo_voters_def)
  note safe = election_safety [OF fin demo_reachable]
  have won: "(1, NodeId 1) \<in> elected demo_net"
    using safe demo_leader by metis
  have "(1, NodeId 2) \<notin> elected demo_net"
  proof
    assume "(1, NodeId 2) \<in> elected demo_net"
    with safe won have "NodeId 1 = NodeId 2" by blast
    then show False by simp
  qed
  with fin demo_reachable demo_leader(1) won show ?thesis by blast
qed

end
