(* ===== verification/Raft_History.thy ===== *)
theory Raft_History
  imports Raft_Log Quorum "HOL-Library.Sublist"
begin

text \<open>
  The history of a run, as the safety argument of Raft needs it: who won each term and what that
  leader's log became, every ballot together with the voter's log at that moment, and which
  prefixes of a leader's log each server acknowledged.  \<open>hist_ok\<close> is what every run keeps of it.  The
  theorem \<open>committed_persists\<close> is leader completeness: once a majority has acknowledged an
  entry of the leader's own term, every later winner held that prefix when it was elected.
\<close>

record history =
  led :: "nat \<rightharpoonup> node_id"
  llog :: "nat \<Rightarrow> log_entry list"
  cast :: "node_id \<times> nat \<rightharpoonup> node_id \<times> log_entry list"
  acks :: "(node_id \<times> nat \<times> nat) set"

definition last_term :: "log_entry list \<Rightarrow> nat" where
  "last_term L = (if L = [] then 0 else entry_term (last L))"

definition up_to_date :: "log_entry list \<Rightarrow> log_entry list \<Rightarrow> bool" where
  "up_to_date L K \<longleftrightarrow> last_term K < last_term L \<or> last_term K = last_term L \<and> length K \<le> length L"

text \<open>Each entry vouches for the log of the leader that created it, up to that entry.\<close>

definition coherent :: "history \<Rightarrow> log_entry list \<Rightarrow> bool" where
  "coherent h L \<longleftrightarrow> (\<forall>k < length L. prefix (take (Suc k) L) (llog h (entry_term (L ! k))))"

text \<open>The winner of term \<open>u\<close> did not hold \<open>P\<close>.\<close>

definition lost_by :: "history \<Rightarrow> nat \<Rightarrow> log_entry list \<Rightarrow> bool" where
  "lost_by h u P \<longleftrightarrow> (\<exists>c L. led h u = Some c \<and> cast h (c, u) = Some (c, L) \<and> \<not> prefix P L)"

text \<open>A log still holds an acknowledged prefix, or a later leader without it has overwritten the log.\<close>

definition holds_ack :: "history \<Rightarrow> log_entry list \<Rightarrow> nat \<Rightarrow> nat \<Rightarrow> bool" where
  "holds_ack h L t k \<longleftrightarrow>
     prefix (take k (llog h t)) L \<or> (\<exists>u. t < u \<and> u \<le> last_term L \<and> lost_by h u (take k (llog h t)))"

definition leader_ok :: "node_id set \<Rightarrow> history \<Rightarrow> nat \<Rightarrow> node_id \<Rightarrow> bool" where
  "leader_ok V h t c \<longleftrightarrow>
     0 < t \<and> majority V {v. \<exists>L. cast h (v, t) = Some (c, L)} \<and>
     (\<exists>L. cast h (c, t) = Some (c, L) \<and> strict_prefix L (llog h t) \<and>
          (\<forall>e \<in> set (drop (length L) (llog h t)). entry_term e = t))"

definition ballot_ok :: "history \<Rightarrow> nat \<Rightarrow> node_id \<Rightarrow> log_entry list \<Rightarrow> bool" where
  "ballot_ok h t c L \<longleftrightarrow>
     coherent h L \<and>
     (\<exists>K. cast h (c, t) = Some (c, K) \<and> up_to_date K L \<and> (\<forall>e \<in> set K. entry_term e < t))"

definition hist_ok :: "node_id set \<Rightarrow> history \<Rightarrow> bool" where
  "hist_ok V h \<longleftrightarrow>
     (\<forall>t c. led h t = Some c \<longrightarrow> leader_ok V h t c) \<and>
     (\<forall>t. led h t = None \<longrightarrow> llog h t = []) \<and>
     (\<forall>t. coherent h (llog h t) \<and> numbered_from 1 (llog h t)) \<and>
     (\<forall>v t c L. cast h (v, t) = Some (c, L) \<longrightarrow> ballot_ok h t c L) \<and>
     (\<forall>v t k. (v, t, k) \<in> acks h \<longrightarrow> k \<le> length (llog h t)) \<and>
     (\<forall>v t k u c L. (v, t, k) \<in> acks h \<longrightarrow> cast h (v, u) = Some (c, L) \<longrightarrow> t < u \<longrightarrow> holds_ack h L t k) \<and>
     (\<forall>v t k j. (v, t, k) \<in> acks h \<longrightarrow> j \<le> k \<longrightarrow> (v, t, j) \<in> acks h)"

definition committed :: "node_id set \<Rightarrow> history \<Rightarrow> nat \<Rightarrow> nat \<Rightarrow> bool" where
  "committed V h t k \<longleftrightarrow>
     0 < k \<and> k \<le> length (llog h t) \<and> entry_term (llog h t ! (k - 1)) = t \<and>
     majority V {v. (v, t, k) \<in> acks h}"

lemma hist_okD:
  assumes "hist_ok V h"
  shows "led h t = Some c \<Longrightarrow> leader_ok V h t c"
    and "led h t = None \<Longrightarrow> llog h t = []"
    and "coherent h (llog h t)" and "numbered_from 1 (llog h t)"
    and "cast h (v, t) = Some (c, L) \<Longrightarrow> ballot_ok h t c L"
    and "(v, t, k) \<in> acks h \<Longrightarrow> k \<le> length (llog h t)"
    and "(v, t, k) \<in> acks h \<Longrightarrow> cast h (v, u) = Some (c, L) \<Longrightarrow> t < u \<Longrightarrow> holds_ack h L t k"
    and "(v, t, k) \<in> acks h \<Longrightarrow> j \<le> k \<Longrightarrow> (v, t, j) \<in> acks h"
  using assms unfolding hist_ok_def by meson+

lemma hist_okI:
  assumes "\<And>t c. led h t = Some c \<Longrightarrow> leader_ok V h t c"
    and "\<And>t. led h t = None \<Longrightarrow> llog h t = []"
    and "\<And>t. coherent h (llog h t) \<and> numbered_from 1 (llog h t)"
    and "\<And>v t c L. cast h (v, t) = Some (c, L) \<Longrightarrow> ballot_ok h t c L"
    and "\<And>v t k. (v, t, k) \<in> acks h \<Longrightarrow> k \<le> length (llog h t)"
    and "\<And>v t k u c L. (v, t, k) \<in> acks h \<Longrightarrow> cast h (v, u) = Some (c, L) \<Longrightarrow> t < u \<Longrightarrow> holds_ack h L t k"
    and "\<And>v t k j. (v, t, k) \<in> acks h \<Longrightarrow> j \<le> k \<Longrightarrow> (v, t, j) \<in> acks h"
  shows "hist_ok V h"
  unfolding hist_ok_def using assms(1,2,4-) assms(3) [THEN conjunct1] assms(3) [THEN conjunct2]
  by (intro conjI allI impI)

subsection \<open>Coherent logs\<close>

lemma coherentD:
  "coherent h L \<Longrightarrow> k < length L \<Longrightarrow> prefix (take (Suc k) L) (llog h (entry_term (L ! k)))"
  by (simp add: coherent_def)

lemma coherent_prefix:
  assumes "coherent h L" and "prefix K L"
  shows "coherent h K"
  unfolding coherent_def
proof (intro allI impI)
  fix k assume k: "k < length K"
  from assms(2) obtain Z where L: "L = K @ Z" by (auto simp: prefix_def)
  with k assms(1) show "prefix (take (Suc k) K) (llog h (entry_term (K ! k)))"
    using coherentD [of h L k] by (simp add: nth_append)
qed

lemma coherent_Nil [simp]: "coherent h []"
  by (simp add: coherent_def)

lemma coherent_last: "coherent h L \<Longrightarrow> L \<noteq> [] \<Longrightarrow> prefix L (llog h (last_term L))"
  using coherentD [of h L "length L - 1"] by (simp add: last_term_def last_conv_nth)

lemma coherent_snoc: "coherent h L \<Longrightarrow> prefix (L @ [e]) (llog h (entry_term e)) \<Longrightarrow> coherent h (L @ [e])"
  by (auto simp: coherent_def nth_append less_Suc_eq)

lemma take_prefix_eq: "prefix (take k L) K \<Longrightarrow> k \<le> length L \<Longrightarrow> take k K = take k L"
  by (metis length_take min_absorb2 prefix_def append_eq_conv_conj)

lemma prefix_nth: "prefix K L \<Longrightarrow> j < length K \<Longrightarrow> L ! j = K ! j"
  by (auto simp: prefix_def nth_append)

lemma prefix_same_length: "prefix K L \<Longrightarrow> prefix K' L \<Longrightarrow> length K \<le> length K' \<Longrightarrow> prefix K K'"
  by (rule prefix_length_prefix)

text \<open>Two coherent logs with the same term at a position agree up to it (log matching).\<close>

lemma coherent_matching:
  assumes "coherent h L" "coherent h K" "j < length L" "j < length K" "entry_term (L ! j) = entry_term (K ! j)"
  shows "take (Suc j) L = take (Suc j) K"
proof -
  let ?M = "llog h (entry_term (L ! j))"
  have "prefix (take (Suc j) L) ?M" "prefix (take (Suc j) K) ?M"
    using coherentD [OF assms(1,3)] coherentD [OF assms(2,4)] assms(5) by simp_all
  then show ?thesis
    using assms(3,4) by (auto simp: prefix_def append_eq_append_conv)
qed

lemma entry_leader:
  assumes "hist_ok V h" "coherent h L" "j < length L"
  shows "\<exists>c. led h (entry_term (L ! j)) = Some c"
proof (rule ccontr)
  assume "\<not> ?thesis"
  then have "llog h (entry_term (L ! j)) = []"
    using hist_okD(2) [OF assms(1)] by simp
  with coherentD [OF assms(2,3)] assms(3) show False by auto
qed

lemma leader_logE:
  assumes "hist_ok V h" "led h t = Some c"
  obtains L where "cast h (c, t) = Some (c, L)" "strict_prefix L (llog h t)"
    "\<forall>j < length (llog h t). entry_term (llog h t ! j) = t \<longleftrightarrow> length L \<le> j"
    "\<forall>j < length (llog h t). entry_term (llog h t ! j) \<le> t" "\<forall>e \<in> set L. entry_term e < t"
proof -
  obtain L where L: "cast h (c, t) = Some (c, L)" "strict_prefix L (llog h t)"
      "\<forall>e \<in> set (drop (length L) (llog h t)). entry_term e = t"
    using hist_okD(1) [OF assms] by (auto simp: leader_ok_def)
  have small: "\<forall>e \<in> set L. entry_term e < t"
    using hist_okD(5) [OF assms(1) L(1)] L(1) by (auto simp: ballot_ok_def)
  have own: "entry_term (llog h t ! j) = t" if "length L \<le> j" "j < length (llog h t)" for j
  proof -
    have "llog h t ! j \<in> set (drop (length L) (llog h t))"
      using that by (auto simp: in_set_drop_conv)
    with L(3) show ?thesis by blast
  qed
  have old: "entry_term (llog h t ! j) < t" if "j < length L" for j
    using that small L(2) prefix_nth [of L "llog h t" j] by (simp add: strict_prefix_def)
  show ?thesis
  proof (rule that [OF L(1,2)])
    show "\<forall>j < length (llog h t). entry_term (llog h t ! j) = t \<longleftrightarrow> length L \<le> j"
      "\<forall>j < length (llog h t). entry_term (llog h t ! j) \<le> t"
      using own old by (metis less_irrefl not_le, metis le_refl less_imp_le not_le)
  qed (rule small)
qed

lemma coherent_sorted:
  assumes "hist_ok V h" "coherent h L" "j \<le> k" "k < length L"
  shows "entry_term (L ! j) \<le> entry_term (L ! k)"
proof -
  let ?u = "entry_term (L ! k)"
  obtain c where c: "led h ?u = Some c"
    using entry_leader [OF assms(1,2,4)] by blast
  have pre: "prefix (take (Suc k) L) (llog h ?u)"
    using assms by (intro coherentD)
  have "llog h ?u ! j = L ! j" "j < length (llog h ?u)"
    using prefix_nth [OF pre, of j] prefix_length_le [OF pre] assms(3,4) by auto
  then show ?thesis
    by (rule_tac leader_logE [OF assms(1) c]) metis
qed

lemma coherent_term_le_last:
  assumes "hist_ok V h" "coherent h L" "e \<in> set L"
  shows "entry_term e \<le> last_term L"
proof -
  from assms(3) obtain j where "j < length L" "e = L ! j" by (auto simp: in_set_conv_nth)
  with coherent_sorted [OF assms(1,2), of j "length L - 1"] show ?thesis
    by (auto simp: last_term_def last_conv_nth)
qed

lemma coherent_term_pos:
  assumes "hist_ok V h" "coherent h L" "e \<in> set L"
  shows "0 < entry_term e"
proof -
  from assms(3) obtain j where "j < length L" "e = L ! j" by (auto simp: in_set_conv_nth)
  with entry_leader [OF assms(1,2), of j] hist_okD(1) [OF assms(1)] show ?thesis
    by (auto simp: leader_ok_def)
qed

subsection \<open>Leader completeness\<close>

lemma last_term_ge_ballot:
  assumes "hist_ok V h" "cast h (v, t) = Some (c, L)" "cast h (c, t) = Some (c, K)"
  shows "up_to_date K L" "last_term L \<le> last_term K" "last_term K < t \<or> K = []"
proof -
  have ok: "ballot_ok h t c L"
    by (rule hist_okD(5) [OF assms(1,2)])
  with assms(3) show "up_to_date K L" "last_term K < t \<or> K = []"
    by (auto simp: ballot_ok_def last_term_def)
  then show "last_term L \<le> last_term K" by (auto simp: up_to_date_def)
qed

theorem committed_persists:
  assumes ok: "hist_ok V h" and fin: "finite V" and com: "committed V h t k"
    and "led h u = Some c" "t < u" "cast h (c, u) = Some (c, K)"
  shows "prefix (take k (llog h t)) K"
  using assms(4-6)
proof (induction u arbitrary: c K rule: less_induct)
  case (less u)
  let ?P = "take k (llog h t)"
  have kept: "\<not> lost_by h w ?P" if "t < w" "w < u" for w
    using less.IH [OF that(2)] that(1) by (auto simp: lost_by_def)
  from com have k: "0 < k" "k \<le> length (llog h t)" "entry_term (llog h t ! (k - 1)) = t"
    by (simp_all add: committed_def)
  obtain v L where v: "(v, t, k) \<in> acks h" and vote: "cast h (v, u) = Some (c, L)"
    using maj.quorum_intersect [OF fin, of "{v. (v, t, k) \<in> acks h}" "{v. \<exists>L. cast h (v, u) = Some (c, L)}"]
      com hist_okD(1) [OF ok less.prems(1)] by (auto simp: committed_def leader_ok_def)
  note upd = last_term_ge_ballot [OF ok vote less.prems(3)]
  have coh: "coherent h L" "coherent h K"
    using hist_okD(5) [OF ok vote] hist_okD(5) [OF ok less.prems(3)] by (simp_all add: ballot_ok_def)
  have last_small: "last_term K < u"
    using upd(3) less.prems(2) by (auto simp: last_term_def)
  have P: "prefix ?P L"
  proof (rule ccontr)
    assume "\<not> prefix ?P L"
    then obtain w where "t < w" "w \<le> last_term L" "lost_by h w ?P"
      using hist_okD(7) [OF ok v vote less.prems(2)] by (auto simp: holds_ack_def)
    with upd(2) last_small kept [of w] show False by simp
  qed
  have lenP: "length ?P = k" using k by simp
  have "k \<le> length L" using prefix_length_le [OF P] lenP by simp
  have "L ! (k - 1) = llog h t ! (k - 1)"
    using prefix_nth [OF P, of "k - 1"] k by simp
  with k \<open>k \<le> length L\<close> have "llog h t ! (k - 1) \<in> set L"
    by (metis Suc_pred' Suc_le_eq nth_mem)
  then have t_le: "t \<le> last_term L"
    using coherent_term_le_last [OF ok coh(1)] k(3) by force
  have "L \<noteq> []" using \<open>k \<le> length L\<close> k(1) by auto
  have "K \<noteq> []"
    using upd(1) t_le \<open>L \<noteq> []\<close> by (auto simp: up_to_date_def last_term_def)
  from upd(1) consider "last_term L = last_term K" "length L \<le> length K" | "last_term L < last_term K"
    by (auto simp: up_to_date_def)
  then show ?case
  proof cases
    case 1
    have "prefix L K"
      using coherent_last [OF coh(1) \<open>L \<noteq> []\<close>] coherent_last [OF coh(2) \<open>K \<noteq> []\<close>] 1
      by (auto intro: prefix_same_length)
    with P show ?thesis by (rule prefix_order.trans)
  next
    case 2
    let ?w = "last_term K"
    have w: "t < ?w" "?w < u" using 2 t_le last_small by auto
    have pre: "prefix K (llog h ?w)" by (rule coherent_last [OF coh(2) \<open>K \<noteq> []\<close>])
    have "last_term K = entry_term (K ! (length K - 1))" "length K - 1 < length K"
      using \<open>K \<noteq> []\<close> by (simp_all add: last_term_def last_conv_nth)
    then obtain c' where c': "led h ?w = Some c'"
      using entry_leader [OF ok coh(2), of "length K - 1"] by metis
    obtain M where M: "cast h (c', ?w) = Some (c', M)" "strict_prefix M (llog h ?w)"
        "\<forall>j < length (llog h ?w). entry_term (llog h ?w ! j) = ?w \<longleftrightarrow> length M \<le> j"
      by (rule leader_logE [OF ok c'])
    have PM: "prefix ?P M" using less.IH [OF w(2) c' w(1) M(1)] .
    have "llog h ?w ! (length K - 1) = last K"
      using prefix_nth [OF pre, of "length K - 1"] \<open>K \<noteq> []\<close> by (simp add: last_conv_nth)
    then have "length M \<le> length K - 1"
      using M(3) [rule_format, of "length K - 1"] prefix_length_le [OF pre] \<open>K \<noteq> []\<close>
      by (cases K) (simp_all add: last_term_def)
    then have "prefix M K"
      using pre M(2) by (intro prefix_same_length [OF _ pre]) (auto simp: strict_prefix_def)
    with PM show ?thesis by (rule prefix_order.trans)
  qed
qed

text \<open>A prefix some leader, no later than term \<open>b\<close>, has committed.\<close>

definition committed_prefix :: "node_id set \<Rightarrow> history \<Rightarrow> nat \<Rightarrow> log_entry list \<Rightarrow> bool" where
  "committed_prefix V h b P \<longleftrightarrow>
     P = [] \<or> (\<exists>t k. t \<le> b \<and> committed V h t k \<and> prefix P (take k (llog h t)))"

lemma committed_prefix_Nil [simp]: "committed_prefix V h b []"
  by (simp add: committed_prefix_def)

lemma committed_prefix_mono:
  "committed_prefix V h b P \<Longrightarrow> prefix Q P \<Longrightarrow> b \<le> b' \<Longrightarrow> committed_prefix V h b' Q"
  unfolding committed_prefix_def
  by (metis le_trans prefix_order.trans prefix_bot.extremum_uniqueI)

lemma committed_in_leader:
  assumes ok: "hist_ok V h" and fin: "finite V" and com: "committed V h t k" and c: "led h u = Some c" and "t \<le> u"
  shows "prefix (take k (llog h t)) (llog h u)"
proof (cases "t = u")
  case True
  then show ?thesis by (simp add: take_is_prefix)
next
  case False
  obtain L where L: "cast h (c, u) = Some (c, L)" "strict_prefix L (llog h u)"
    by (rule leader_logE [OF ok c])
  have "prefix (take k (llog h t)) L"
    using False \<open>t \<le> u\<close> by (intro committed_persists [OF ok fin com c _ L(1)]) simp
  with L(2) show ?thesis by (auto simp: strict_prefix_def intro: prefix_order.trans)
qed

lemma committed_led: "hist_ok V h \<Longrightarrow> committed V h t k \<Longrightarrow> \<exists>c. led h t = Some c"
  using hist_okD(2) [of V h t] by (cases "led h t") (auto simp: committed_def)

lemma committed_prefix_in_leader:
  assumes "hist_ok V h" "finite V" "committed_prefix V h b P" "led h u = Some c" "b \<le> u"
  shows "prefix P (llog h u)"
  using assms committed_in_leader [of V h _ _ u c] unfolding committed_prefix_def
  by (metis le_trans prefix_bot.extremum prefix_order.trans)

lemma committed_prefixes_comparable:
  assumes ok: "hist_ok V h" and fin: "finite V"
    and P: "committed_prefix V h b P" and Q: "committed_prefix V h d Q"
  shows "prefix P Q \<or> prefix Q P"
proof -
  have *: "prefix P Q \<or> prefix Q P"
    if a: "t \<le> u" "committed V h t k" "prefix P (take k (llog h t))" "committed V h u l" "prefix Q (take l (llog h u))"
    for t u k l P Q
  proof -
    obtain c where "led h u = Some c" using committed_led [OF ok a(4)] by blast
    then have "prefix P (llog h u)"
      using committed_in_leader [OF ok fin a(2) _ a(1)] a(3) by (blast intro: prefix_order.trans)
    moreover have "prefix Q (llog h u)"
      using a(5) take_is_prefix by (blast intro: prefix_order.trans)
    ultimately show ?thesis by (rule prefix_same_cases)
  qed
  show ?thesis
    using P Q * unfolding committed_prefix_def by (metis nat_le_linear prefix_bot.extremum)
qed

subsection \<open>How a history grows\<close>

text \<open>What a step of server \<open>i\<close> may add.\<close>

definition grows :: "node_id \<Rightarrow> history \<Rightarrow> history \<Rightarrow> bool" where
  "grows i h h' \<longleftrightarrow>
     (\<forall>t c. led h t = Some c \<longrightarrow> led h' t = Some c) \<and>
     (\<forall>t. prefix (llog h t) (llog h' t)) \<and>
     (\<forall>x b. cast h x = Some b \<longrightarrow> cast h' x = Some b) \<and> acks h \<subseteq> acks h' \<and>
     (\<forall>v t. v \<noteq> i \<longrightarrow> cast h' (v, t) = cast h (v, t)) \<and>
     (\<forall>v t k. v \<noteq> i \<longrightarrow> (v, t, k) \<in> acks h' \<longrightarrow> (v, t, k) \<in> acks h) \<and>
     (\<forall>t c. led h' t = Some c \<longrightarrow> c \<noteq> i \<longrightarrow> led h t = Some c \<and> llog h' t = llog h t)"

lemma growsD:
  assumes "grows i h h'"
  shows "led h t = Some c \<Longrightarrow> led h' t = Some c" and "prefix (llog h t) (llog h' t)"
    and "cast h x = Some b \<Longrightarrow> cast h' x = Some b" and "a \<in> acks h \<Longrightarrow> a \<in> acks h'"
    and "v \<noteq> i \<Longrightarrow> cast h' (v, t) = cast h (v, t)"
    and "v \<noteq> i \<Longrightarrow> (v, t, k) \<in> acks h' \<Longrightarrow> (v, t, k) \<in> acks h"
    and "led h' t = Some c \<Longrightarrow> c \<noteq> i \<Longrightarrow> led h t = Some c"
    and "led h' t = Some c \<Longrightarrow> c \<noteq> i \<Longrightarrow> llog h' t = llog h t"
  using assms unfolding grows_def by blast+

lemma grows_refl [simp, intro]: "grows i h h"
  by (simp add: grows_def)

lemma grows_trans:
  assumes "grows i h1 h2" and "grows i h2 h3"
  shows "grows i h1 h3"
proof -
  note g = growsD [OF assms(1)] and g' = growsD [OF assms(2)]
  have "prefix (llog h1 t) (llog h3 t)" for t
    using g(2) g'(2) by (rule prefix_order.trans)
  moreover have "led h1 t = Some c \<and> llog h3 t = llog h1 t" if "led h3 t = Some c" "c \<noteq> i" for t c
    using g(7,8) g'(7,8) that by metis
  moreover have "led h3 t = Some c" if "led h1 t = Some c" for t c
    by (rule g'(1) [OF g(1) [OF that]])
  moreover have "cast h3 x = Some b" if "cast h1 x = Some b" for x b
    by (rule g'(3) [OF g(3) [OF that]])
  moreover have "acks h1 \<subseteq> acks h3"
    using g(4) g'(4) by blast
  moreover have "cast h3 (v, t) = cast h1 (v, t)" if "v \<noteq> i" for v t
    using g(5) [OF that] g'(5) [OF that] by simp
  moreover have "(v, t, k) \<in> acks h1" if "v \<noteq> i" "(v, t, k) \<in> acks h3" for v t k
    by (rule g(6) [OF that(1) g'(6) [OF that]])
  ultimately show ?thesis
    unfolding grows_def by (intro conjI allI impI) blast+
qed

lemma coherent_grows: "grows i h h' \<Longrightarrow> coherent h L \<Longrightarrow> coherent h' L"
  unfolding coherent_def by (meson growsD(2) prefix_order.trans)

lemma lost_by_grows: "grows i h h' \<Longrightarrow> lost_by h u P \<Longrightarrow> lost_by h' u P"
  unfolding lost_by_def by (meson growsD(1,3))

lemma take_llog_grows: "grows i h h' \<Longrightarrow> k \<le> length (llog h t) \<Longrightarrow> take k (llog h' t) = take k (llog h t)"
  using growsD(2) [of i h h' t] by (auto simp: prefix_def)

lemma holds_ack_grows:
  "grows i h h' \<Longrightarrow> k \<le> length (llog h t) \<Longrightarrow> holds_ack h L t k \<Longrightarrow> holds_ack h' L t k"
  unfolding holds_ack_def using take_llog_grows lost_by_grows by metis

lemma ballot_ok_grows: "grows i h h' \<Longrightarrow> ballot_ok h t c L \<Longrightarrow> ballot_ok h' t c L"
  unfolding ballot_ok_def using coherent_grows growsD(3) by metis

lemma majority_cast_grows:
  assumes "grows i h h'" "finite V" "majority V {v. \<exists>L. cast h (v, t) = Some (c, L)}"
  shows "majority V {v. \<exists>L. cast h' (v, t) = Some (c, L)}"
  using assms(2,3) by (rule majority_mono) (use growsD(3) [OF assms(1)] in blast)

lemma leader_ok_grows:
  assumes "grows i h h'" "finite V" "llog h' t = llog h t" "leader_ok V h t c"
  shows "leader_ok V h' t c"
  using assms majority_cast_grows [OF assms(1,2)] growsD(3) [OF assms(1)] unfolding leader_ok_def by auto

lemma committed_grows:
  assumes "grows i h h'" "finite V" "committed V h t k"
  shows "committed V h' t k"
proof -
  from assms(3) have k: "0 < k" "k \<le> length (llog h t)" by (simp_all add: committed_def)
  have "majority V {v. (v, t, k) \<in> acks h'}"
    using assms(2,3) growsD(4) [OF assms(1)] by (auto simp: committed_def elim!: majority_mono)
  moreover have "llog h' t ! (k - 1) = llog h t ! (k - 1)"
    using prefix_nth [OF growsD(2) [OF assms(1), of t], of "k - 1"] k by simp
  moreover have "k \<le> length (llog h' t)"
    using k prefix_length_le [OF growsD(2) [OF assms(1), of t]] by simp
  ultimately show ?thesis using assms(3) by (simp add: committed_def)
qed

lemma committed_prefix_grows:
  assumes "grows i h h'" "finite V" "committed_prefix V h b P"
  shows "committed_prefix V h' b P"
proof -
  have "take k (llog h' t) = take k (llog h t)" if "committed V h t k" for t k
    using that by (intro take_llog_grows [OF assms(1)]) (simp add: committed_def)
  with assms(3) committed_grows [OF assms(1,2)] show ?thesis
    unfolding committed_prefix_def by metis
qed

subsection \<open>The three events of a history\<close>

text \<open>The leader of term \<open>t\<close> holds \<open>M\<close>, as a winner or since then, and appends \<open>e\<close>.\<close>

definition lead :: "node_id \<Rightarrow> nat \<Rightarrow> log_entry list \<Rightarrow> history \<Rightarrow> history" where
  "lead i t K h =
     h\<lparr>led := (led h)(t \<mapsto> i), llog := (llog h)(t := K),
       acks := acks h \<union> {(v, u, k). v = i \<and> u = t \<and> k \<le> length K}\<rparr>"

lemma grows_lead:
  assumes "hist_ok V h" and "led h t = None \<or> led h t = Some i \<and> prefix (llog h t) K"
  shows "grows i h (lead i t K h)"
proof -
  have "prefix (llog h t) K"
    using assms hist_okD(2) [OF assms(1), of t] by auto
  with assms(2) show ?thesis
    by (auto simp: grows_def lead_def split: if_splits)
qed

lemma hist_lead:
  assumes ok: "hist_ok V h" and fin: "finite V"
    and state: "led h t = Some i \<and> M = llog h t \<or>
      led h t = None \<and> 0 < t \<and> cast h (i, t) = Some (i, M) \<and> numbered_from 1 M \<and>
      majority V {v. \<exists>L. cast h (v, t) = Some (i, L)}"
    and e: "entry_term e = t" "entry_index e = Suc (length M)"
    and newest: "\<And>u. cast h (i, u) \<noteq> None \<Longrightarrow> u \<le> t"
  shows "hist_ok V (lead i t (M @ [e]) h)"
proof -
  let ?h = "lead i t (M @ [e]) h"
  have g: "grows i h ?h"
    using state by (intro grows_lead [OF ok]) auto
  have sel: "led ?h = (led h)(t \<mapsto> i)" "llog ?h = (llog h)(t := M @ [e])" "cast ?h = cast h"
      "acks ?h = acks h \<union> {(v, u, k). v = i \<and> u = t \<and> k \<le> Suc (length M)}"
    by (simp_all add: lead_def)
  have cohM: "coherent h M" "numbered_from 1 M" "0 < t"
    using state hist_okD(1,3,4) [OF ok, of t] hist_okD(5) [OF ok, of i t i M]
    by (auto simp: ballot_ok_def leader_ok_def)
  have "leader_ok V ?h t i"
  proof (cases "led h t")
    case None
    with state show ?thesis by (auto simp: leader_ok_def sel e strict_prefix_def)
  next
    case (Some j)
    with state have M: "led h t = Some i" "M = llog h t" by auto
    then obtain L where L: "cast h (i, t) = Some (i, L)" "strict_prefix L M"
        "\<forall>x \<in> set (drop (length L) M). entry_term x = t"
      and maj: "majority V {v. \<exists>L. cast h (v, t) = Some (i, L)}"
      using hist_okD(1) [OF ok, of t i] by (auto simp: leader_ok_def)
    have "length L \<le> length M" "strict_prefix L (M @ [e])"
      using L(2) by (auto simp: strict_prefix_def dest: prefix_length_le)
    with L(3) e have "\<forall>x \<in> set (drop (length L) (M @ [e])). entry_term x = t"
      by auto
    with \<open>strict_prefix L (M @ [e])\<close> L(1) maj cohM(3) show ?thesis
      unfolding leader_ok_def sel by (simp only: fun_upd_same) blast
  qed
  then have lead_ok: "leader_ok V ?h u c" if "led ?h u = Some c" for u c
    using that leader_ok_grows [OF g fin, of u c] hist_okD(1) [OF ok, of u c] by (cases "u = t") (auto simp: sel)
  have "coherent ?h (M @ [e])"
    by (rule coherent_snoc) (simp_all add: coherent_grows [OF g cohM(1)] sel e)
  then have coh: "coherent ?h (llog ?h u) \<and> numbered_from 1 (llog ?h u)" for u
    using coherent_grows [OF g hist_okD(3) [OF ok, of u]] hist_okD(4) [OF ok, of u] cohM(2,3) e by (simp add: sel)
  have old: "k \<le> length (llog h u)" if "(v, u, k) \<in> acks h" for v u k
    by (rule hist_okD(6) [OF ok that])
  have bound: "k \<le> length (llog ?h u)" if "(v, u, k) \<in> acks ?h" for v u k
    using that old [of v u k] prefix_length_le [OF growsD(2) [OF g, of u]] by (auto simp: sel split: if_splits)
  have ret: "holds_ack ?h L u k" if "(v, u, k) \<in> acks ?h" "cast ?h (v, w) = Some (c, L)" "u < w" for v u k w c L
  proof (cases "(v, u, k) \<in> acks h")
    case True
    then show ?thesis
      using that hist_okD(7) [OF ok True] by (intro holds_ack_grows [OF g old [OF True]]) (auto simp: sel)
  next
    case False
    with that have "v = i" "u = t" by (auto simp: sel)
    with newest [of w] that(2,3) show ?thesis by (simp add: sel)
  qed
  have "ballot_ok ?h u c L" if "cast ?h (v, u) = Some (c, L)" for v u c L
    using that by (intro ballot_ok_grows [OF g] hist_okD(5) [OF ok]) (simp add: sel)
  moreover have "llog ?h u = []" if "led ?h u = None" for u
    using that hist_okD(2) [OF ok, of u] by (auto simp: sel split: if_splits)
  moreover have "(v, u, j) \<in> acks ?h" if "(v, u, k) \<in> acks ?h" "j \<le> k" for v u k j
    using that hist_okD(8) [OF ok, of v u k j] by (auto simp: sel)
  ultimately show ?thesis
    unfolding hist_ok_def using lead_ok coh bound ret by blast
qed

text \<open>Server \<open>v\<close>, holding \<open>L\<close>, votes for \<open>c\<close> in term \<open>t\<close>.\<close>

definition cast_ballot :: "node_id \<Rightarrow> nat \<Rightarrow> node_id \<Rightarrow> log_entry list \<Rightarrow> history \<Rightarrow> history" where
  "cast_ballot v t c L h = h\<lparr>cast := (cast h)((v, t) \<mapsto> (c, L))\<rparr>"

lemma grows_cast: "cast h (v, t) = None \<Longrightarrow> grows v h (cast_ballot v t c L h)"
  by (auto simp: grows_def cast_ballot_def)

lemma hist_cast:
  assumes ok: "hist_ok V h" and fin: "finite V" and free: "cast h (v, t) = None" and L: "coherent h L"
    and cand: "c = v \<and> (\<forall>e \<in> set L. entry_term e < t) \<or> (\<exists>K. cast h (c, t) = Some (c, K) \<and> up_to_date K L)"
    and ret: "\<And>u k. (v, u, k) \<in> acks h \<Longrightarrow> u < t \<Longrightarrow> holds_ack h L u k"
  shows "hist_ok V (cast_ballot v t c L h)"
proof -
  let ?h = "cast_ballot v t c L h"
  have g: "grows v h ?h" by (rule grows_cast [OF free])
  have sel: "led ?h = led h" "llog ?h = llog h" "acks ?h = acks h" "cast ?h = (cast h)((v, t) \<mapsto> (c, L))"
    by (simp_all add: cast_ballot_def)
  have "ballot_ok ?h t c L"
  proof (cases "c = v \<and> (\<forall>e \<in> set L. entry_term e < t)")
    case True
    then have "cast ?h (c, t) = Some (c, L)" by (simp add: cast_ballot_def)
    moreover have "up_to_date L L" by (simp add: up_to_date_def)
    ultimately show ?thesis
      using True coherent_grows [OF g L] unfolding ballot_ok_def by blast
  next
    case False
    with cand obtain K where K: "cast h (c, t) = Some (c, K)" "up_to_date K L" by blast
    with hist_okD(5) [OF ok K(1)] have "\<forall>e \<in> set K. entry_term e < t" by (auto simp: ballot_ok_def)
    with K(2) growsD(3) [OF g K(1)] coherent_grows [OF g L] show ?thesis
      unfolding ballot_ok_def by blast
  qed
  then have bal: "ballot_ok ?h u d K" if "cast ?h (w, u) = Some (d, K)" for w u d K
    using that ballot_ok_grows [OF g hist_okD(5) [OF ok, of w u d K]] by (auto simp: sel split: if_splits)
  have ack: "holds_ack ?h K u k" if a: "(w, u, k) \<in> acks ?h" "cast ?h (w, x) = Some (d, K)" "u < x" for w u k x d K
  proof (rule holds_ack_grows [OF g])
    show "k \<le> length (llog h u)"
      using a(1) hist_okD(6) [OF ok, of w u k] by (simp add: sel)
    show "holds_ack h K u k"
    proof (cases "(w, x) = (v, t)")
      case True
      with a ret [of u k] show ?thesis by (simp add: sel)
    next
      case False
      with a have "cast h (w, x) = Some (d, K)" "(w, u, k) \<in> acks h" by (auto simp: sel)
      with a(3) show ?thesis using hist_okD(7) [OF ok, of w u k x d K] by blast
    qed
  qed
  have "leader_ok V ?h u d" if "led ?h u = Some d" for u d
    using that hist_okD(1) [OF ok, of u d] by (intro leader_ok_grows [OF g fin]) (auto simp: sel)
  moreover have "coherent ?h (llog ?h u) \<and> numbered_from 1 (llog ?h u)" for u
    using coherent_grows [OF g hist_okD(3) [OF ok, of u]] hist_okD(4) [OF ok, of u] by (simp add: sel)
  moreover have "llog ?h u = []" if "led ?h u = None" for u
    using that hist_okD(2) [OF ok, of u] by (simp add: sel)
  moreover have "k \<le> length (llog ?h u)" if "(w, u, k) \<in> acks ?h" for w u k
    using that hist_okD(6) [OF ok, of w u k] by (simp add: sel)
  moreover have "(w, u, j) \<in> acks ?h" if "(w, u, k) \<in> acks ?h" "j \<le> k" for w u k j
    using that hist_okD(8) [OF ok, of w u k j] by (simp add: sel)
  ultimately show ?thesis
    unfolding hist_ok_def using bal ack by blast
qed

text \<open>Server \<open>v\<close> acknowledges the first \<open>n\<close> entries of the leader of term \<open>t\<close>.\<close>

definition acknowledge :: "node_id \<Rightarrow> nat \<Rightarrow> nat \<Rightarrow> history \<Rightarrow> history" where
  "acknowledge v t n h = h\<lparr>acks := acks h \<union> {(w, u, k). w = v \<and> u = t \<and> k \<le> n}\<rparr>"

lemma grows_acknowledge: "grows v h (acknowledge v t n h)"
  by (auto simp: grows_def acknowledge_def)

lemma hist_acknowledge:
  assumes ok: "hist_ok V h" and n: "n \<le> length (llog h t)"
    and newest: "\<And>u. cast h (v, u) \<noteq> None \<Longrightarrow> u \<le> t"
  shows "hist_ok V (acknowledge v t n h)"
proof -
  let ?h = "acknowledge v t n h"
  have sel: "led ?h = led h" "llog ?h = llog h" "cast ?h = cast h"
      "acks ?h = acks h \<union> {(w, u, k). w = v \<and> u = t \<and> k \<le> n}"
    by (simp_all add: acknowledge_def)
  have same: "leader_ok V ?h = leader_ok V h" "coherent ?h = coherent h" "ballot_ok ?h = ballot_ok h"
      "holds_ack ?h = holds_ack h"
    by (simp_all add: fun_eq_iff leader_ok_def coherent_def ballot_ok_def holds_ack_def lost_by_def sel)
  have ret: "holds_ack h L u k" if "(w, u, k) \<in> acks ?h" "cast h (w, x) = Some (c, L)" "u < x" for w u k x c L
    using that hist_okD(7) [OF ok, of w u k x c L] newest [of x] by (auto simp: sel)
  have bound: "k \<le> length (llog h u)" if "(w, u, k) \<in> acks ?h" for w u k
    using that hist_okD(6) [OF ok, of w u k] n by (auto simp: sel)
  have down: "(w, u, j) \<in> acks ?h" if "(w, u, k) \<in> acks ?h" "j \<le> k" for w u k j
    using that hist_okD(8) [OF ok, of w u k j] by (auto simp: sel)
  show ?thesis
  proof (rule hist_okI, unfold same sel(1-3))
    show "coherent h (llog h u) \<and> numbered_from 1 (llog h u)" for u
      using hist_okD(3,4) [OF ok] by blast
  qed (fact hist_okD(1,2,5) [OF ok] bound ret down)+
qed

end
