(* ===== verification/Raft_Replication.thy ===== *)
theory Raft_Replication
  imports Raft_Election Raft_History
begin

text \<open>
  Log replication with static membership and compaction off (\<open>snapshot_threshold = 0\<close>, the default).
  \<open>replica_ok\<close> ties a node to the history of the run, \<open>sound_msg\<close> ties a message to it, and each
  engine method is shown to keep both while the history grows by that node's own events.
\<close>

record 'm cluster =
  electorate :: "node_id set"
  machine :: "'m sm_ops"
  initial_sm :: "node_id \<Rightarrow> 'm"

subsection \<open>Storage without a snapshot\<close>

definition plain_storage :: "mem_storage \<Rightarrow> bool" where
  "plain_storage s \<longleftrightarrow> snap_meta s = None \<and> log_start s = 0 \<and> numbered_from 1 (log s)"

lemma plain_wf: "plain_storage s \<Longrightarrow> wf_storage s" "plain_storage s \<Longrightarrow> mem_base s = 0"
    "plain_storage s \<Longrightarrow> mem_start s = 1"
  by (auto simp: plain_storage_def wf_storage_def mem_start_def mem_base_def)

lemma plain_last_index: "plain_storage s \<Longrightarrow> last_log_index s = length (log s)"
  using last_log_index_wf [OF plain_wf(1)] plain_wf(2) by simp

lemma plain_last_term: "plain_storage s \<Longrightarrow> last_log_term s = last_term (log s)"
  by (simp add: plain_storage_def last_log_term_def last_term_def)

lemma plain_term_at:
  "plain_storage s \<Longrightarrow> term_at s i = (if 0 < i \<and> i \<le> length (log s) then entry_term (log s ! (i - 1)) else 0)"
  by (auto simp: plain_storage_def term_at_def pos_of_def mem_start_def Let_def)

lemma plain_entry_at:
  "plain_storage s \<Longrightarrow> entry_at s i = (if 0 < i \<and> i \<le> length (log s) then Some (log s ! (i - 1)) else None)"
  by (auto simp: plain_storage_def entry_at_def pos_of_def mem_start_def Let_def)

lemma plain_entries_from: "plain_storage s \<Longrightarrow> 0 < i \<Longrightarrow> entries_from s i = drop (i - 1) (log s)"
  by (simp add: plain_storage_def entries_from_def mem_start_def)

lemma plain_load_snapshot [simp]: "plain_storage s \<Longrightarrow> load_snapshot s = None"
  by (simp add: plain_storage_def load_snapshot_def)

lemma plain_frame [simp]:
  "plain_storage (set_current_term t s) = plain_storage s"
  "plain_storage (set_voted_for v s) = plain_storage s"
  by (simp_all add: plain_storage_def set_current_term_def set_voted_for_def)

lemma static_storage_frame [simp]:
  "static_storage B (set_current_term t s) = static_storage B s"
  "static_storage B (set_voted_for v s) = static_storage B s"
  by (simp_all add: static_storage_def set_current_term_def set_voted_for_def)

lemma plain_append:
  "plain_storage s \<Longrightarrow> entry_index e = Suc (length (log s)) \<Longrightarrow> 0 < entry_term e \<Longrightarrow>
   plain_storage (append_entry e s)"
  by (simp add: plain_storage_def append_entry_def)

lemma set_frame [simp]:
  "log (set_current_term t s) = log s" "log (set_voted_for v s) = log s"
  "current_term (set_current_term t s) = t" "voted_for (set_voted_for v s) = v"
  "current_term (set_voted_for v s) = current_term s" "voted_for (set_current_term t s) = voted_for s"
  "log (append_entry e s) = log s @ [e]"
  by (simp_all add: set_current_term_def set_voted_for_def append_entry_def)

subsection \<open>Nodes and messages against the history\<close>

definition leads_ok :: "history \<Rightarrow> 'm raft_node \<Rightarrow> bool" where
  "leads_ok h n \<longleftrightarrow>
     (let i = node_id_of n; t = term_of_node n; L = log (storage n)
      in led h t = Some i \<and> llog h t = L \<and> (\<forall>k \<le> length L. (i, t, k) \<in> acks h) \<and>
         match_index n i = None \<and>
         (\<forall>p m. match_index n p = Some m \<longrightarrow> m = 0 \<or> (p, t, m) \<in> acks h) \<and>
         (\<forall>p x. next_index n p = Some x \<longrightarrow> 0 < x \<and> x \<le> Suc (length L)))"

definition votes_ok :: "history \<Rightarrow> 'm raft_node \<Rightarrow> bool" where
  "votes_ok h n \<longleftrightarrow>
     (let i = node_id_of n; t = term_of_node n
      in (\<forall>u c L. cast h (i, u) = Some (c, L) \<longrightarrow> u \<le> t \<and> (u = t \<longrightarrow> vote_of_node n = Some c)) \<and>
         (\<forall>c. vote_of_node n = Some c \<longrightarrow> (\<exists>L. cast h (i, t) = Some (c, L))) \<and>
         (role n = Candidate \<longrightarrow>
            0 < t \<and> cast h (i, t) = Some (i, log (storage n)) \<and> led h t \<noteq> Some i \<and>
            (\<forall>v \<in> votes n. \<exists>L. cast h (v, t) = Some (i, L))))"

definition log_ok :: "history \<Rightarrow> 'm raft_node \<Rightarrow> bool" where
  "log_ok h n \<longleftrightarrow>
     coherent h (log (storage n)) \<and> (\<forall>e \<in> set (log (storage n)). entry_term e \<le> term_of_node n) \<and>
     (\<forall>t k. (node_id_of n, t, k) \<in> acks h \<longrightarrow>
        t \<le> term_of_node n \<and> holds_ack h (log (storage n)) t k)"

definition applied_ok :: "'m cluster \<Rightarrow> history \<Rightarrow> 'm raft_node \<Rightarrow> bool" where
  "applied_ok E h n \<longleftrightarrow>
     commit_index n \<le> length (log (storage n)) \<and> last_applied n = commit_index n \<and>
     committed_prefix (electorate E) h (term_of_node n) (take (commit_index n) (log (storage n))) \<and>
     sm n = fold (\<lambda>e m. sm_apply (machine E) m e) (take (commit_index n) (log (storage n))) (initial_sm E (node_id_of n))"

definition plain_node :: "'m cluster \<Rightarrow> 'm raft_node \<Rightarrow> bool" where
  "plain_node E n \<longleftrightarrow>
     node_ok (electorate E, {}) n \<and> snapshot_threshold (config n) = 0 \<and> plain_storage (storage n)"

definition replica_ok :: "'m cluster \<Rightarrow> history \<Rightarrow> 'm raft_node \<Rightarrow> bool" where
  "replica_ok E h n \<longleftrightarrow>
     plain_node E n \<and> log_ok h n \<and> votes_ok h n \<and> (role n = Leader \<longrightarrow> leads_ok h n) \<and> applied_ok E h n"

text \<open>The entries an \<open>AppendEntries\<close> of term \<open>t\<close> may carry: the leader's log above \<open>prev\<close>.\<close>

definition sound_slice :: "history \<Rightarrow> nat \<Rightarrow> nat \<Rightarrow> nat \<Rightarrow> log_entry list \<Rightarrow> bool" where
  "sound_slice h t prev prev_term es \<longleftrightarrow>
     (\<exists>n. prev \<le> n \<and> 0 < n \<and> n \<le> length (llog h t) \<and> entry_term (llog h t ! (n - 1)) = t \<and>
          es = drop prev (take n (llog h t)) \<and>
          prev_term = (if prev = 0 then 0 else entry_term (llog h t ! (prev - 1))))"

definition sound_msg :: "'m cluster \<Rightarrow> history \<Rightarrow> node_id \<Rightarrow> node_id \<Rightarrow> raft_msg \<Rightarrow> bool" where
  "sound_msg E h src dst m \<longleftrightarrow>
     static_msg (electorate E, {}) m \<and>
     (case m of
        RequestVote t c li lt \<Rightarrow> (\<exists>L. cast h (c, t) = Some (c, L) \<and> li = length L \<and> lt = last_term L)
      | RequestVoteResp t g \<Rightarrow> g \<longrightarrow> (\<exists>L. cast h (src, t) = Some (dst, L))
      | AppendEntries t l pi pt es lc \<Rightarrow>
          l \<noteq> dst \<and> sound_slice h t pi pt es \<and> lc \<le> length (llog h t) \<and>
          committed_prefix (electorate E) h t (take lc (llog h t))
      | AppendEntriesResp t s k \<Rightarrow> src \<noteq> dst \<and> (s \<longrightarrow> (src, t, k) \<in> acks h)
      | InstallSnapshot _ _ _ _ _ _ _ _ _ \<Rightarrow> False
      | InstallSnapshotResp _ _ _ _ \<Rightarrow> False
      | _ \<Rightarrow> True)"

lemma sound_msg_simps [simp]:
  "sound_msg E h src dst (RequestVote t c li lt) =
     (\<exists>L. cast h (c, t) = Some (c, L) \<and> li = length L \<and> lt = last_term L)"
  "sound_msg E h src dst (RequestVoteResp t g) = (g \<longrightarrow> (\<exists>L. cast h (src, t) = Some (dst, L)))"
  "sound_msg E h src dst (PreVote t c li lt)" "sound_msg E h src dst (PreVoteResp t g)"
  "sound_msg E h src dst (AppendEntriesResp t s k) = (src \<noteq> dst \<and> (s \<longrightarrow> (src, t, k) \<in> acks h))"
  "sound_msg E h src dst (InstallSnapshot t l i1 t1 off d dn vs ls) = False"
  "sound_msg E h src dst (InstallSnapshotResp t i1 ins off) = False"
  "sound_msg E h src dst (AppendEntries t l pi pt es lc) =
     (static_log es \<and> l \<noteq> dst \<and> sound_slice h t pi pt es \<and> lc \<le> length (llog h t) \<and>
      committed_prefix (electorate E) h t (take lc (llog h t)))"
  "sound_msg E h src dst (Propose p) = (\<not> is_config_change p)"
  by (auto simp: sound_msg_def static_msg_def)

subsection \<open>Stability\<close>

lemma sound_slice_grows: "grows i h h' \<Longrightarrow> sound_slice h t prev pt es \<Longrightarrow> sound_slice h' t prev pt es"
proof -
  assume g: "grows i h h'" and "sound_slice h t prev pt es"
  then obtain n where n: "prev \<le> n" "0 < n" "n \<le> length (llog h t)" "entry_term (llog h t ! (n - 1)) = t"
      "es = drop prev (take n (llog h t))" "pt = (if prev = 0 then 0 else entry_term (llog h t ! (prev - 1)))"
    by (auto simp: sound_slice_def)
  have "llog h' t ! j = llog h t ! j" if "j < n" for j
    using that n(3) prefix_nth [OF growsD(2) [OF g]] by simp
  moreover have "n \<le> length (llog h' t)"
    using n(3) prefix_length_le [OF growsD(2) [OF g, of t]] by simp
  ultimately show ?thesis
    using n take_llog_grows [OF g n(3)] unfolding sound_slice_def by (intro exI [of _ n]) auto
qed

lemma sound_msg_grows:
  assumes g: "grows i h h'" and fin: "finite (electorate E)" and "sound_msg E h src dst m"
  shows "sound_msg E h' src dst m"
proof (cases m)
  case (AppendEntries t l pi pt es lc)
  with assms(3) have lc: "lc \<le> length (llog h t)" by simp
  with prefix_length_le [OF growsD(2) [OF g, of t]] have "lc \<le> length (llog h' t)" by simp
  with assms(3) AppendEntries take_llog_grows [OF g lc] show ?thesis
    by (simp add: sound_slice_grows [OF g] committed_prefix_grows [OF g fin])
qed (use assms(3) growsD(3,4) [OF g] in \<open>auto simp: sound_msg_def\<close>)

lemma leads_ok_grows:
  assumes g: "grows i h h'" and "node_id_of n \<noteq> i" and "leads_ok h n"
  shows "leads_ok h' n"
proof -
  from assms(3) have l: "led h (term_of_node n) = Some (node_id_of n)" "llog h (term_of_node n) = log (storage n)"
    by (auto simp: leads_ok_def Let_def)
  have "led h' (term_of_node n) = Some (node_id_of n)"
    by (rule growsD(1) [OF g l(1)])
  with growsD(8) [OF g this assms(2)] assms(3) growsD(4) [OF g] show ?thesis
    by (simp add: leads_ok_def Let_def l) blast
qed

lemma votes_ok_grows:
  assumes g: "grows i h h'" and i: "node_id_of n \<noteq> i" and "votes_ok h n"
  shows "votes_ok h' n"
proof -
  let ?i = "node_id_of n" and ?t = "term_of_node n"
  have same: "cast h' (?i, u) = cast h (?i, u)" for u
    by (rule growsD(5) [OF g i])
  have "led h' ?t \<noteq> Some ?i" if "led h ?t \<noteq> Some ?i"
    using that growsD(7) [OF g _ i] by blast
  moreover have "\<exists>L. cast h' (v, ?t) = Some (?i, L)" if "\<exists>L. cast h (v, ?t) = Some (?i, L)" for v
    using that growsD(3) [OF g] by blast
  ultimately show ?thesis
    using assms(3) unfolding votes_ok_def Let_def same by blast
qed

lemma log_ok_grows:
  assumes g: "grows i h h'" and ok: "hist_ok V h" and i: "node_id_of n \<noteq> i" and "log_ok h n"
  shows "log_ok h' n"
  using assms(4) growsD(6) [OF g i] coherent_grows [OF g] holds_ack_grows [OF g hist_okD(6) [OF ok]]
  unfolding log_ok_def by blast

lemma applied_ok_grows:
  "grows i h h' \<Longrightarrow> finite (electorate E) \<Longrightarrow> applied_ok E h n \<Longrightarrow> applied_ok E h' n"
  by (simp add: applied_ok_def committed_prefix_grows)

lemma applied_ok_same:
  assumes "applied_ok E h n" "log (storage n') = log (storage n)" "commit_index n' = commit_index n"
    "last_applied n' = last_applied n" "sm n' = sm n" "node_id_of n' = node_id_of n" "term_of_node n \<le> term_of_node n'"
  shows "applied_ok E h n'"
  using assms(1) committed_prefix_mono [OF _ prefix_order.refl assms(7)]
  unfolding applied_ok_def assms(2-6) by blast

lemma plain_node_finite: "plain_node E n \<Longrightarrow> finite (electorate E)"
  by (simp add: plain_node_def node_ok_def static_node_def)

lemma replica_ok_grows:
  assumes g: "grows i h h'" and ok: "hist_ok V h" and i: "node_id_of n \<noteq> i" and n: "replica_ok E h n"
  shows "replica_ok E h' n"
  using n log_ok_grows [OF g ok i] votes_ok_grows [OF g i] leads_ok_grows [OF g i]
    applied_ok_grows [OF g, of E n] plain_node_finite [of E n]
  unfolding replica_ok_def by blast

subsection \<open>Steps of one node\<close>

definition sound :: "'m cluster \<Rightarrow> node_id \<Rightarrow> history \<Rightarrow> 'm ctx \<Rightarrow> bool" where
  "sound E i h c \<longleftrightarrow>
     hist_ok (electorate E) h \<and> node_id_of (node c) = i \<and> replica_ok E h (node c) \<and>
     (\<forall>(d, m) \<in> set (sends (out c)). sound_msg E h i d m)"

definition reaches :: "'m cluster \<Rightarrow> node_id \<Rightarrow> history \<Rightarrow> 'm ctx \<Rightarrow> bool" where
  "reaches E i h c \<longleftrightarrow> (\<exists>h'. grows i h h' \<and> sound E i h' c)"

definition safe :: "'m cluster \<Rightarrow> node_id \<Rightarrow> 'm ctx \<Rightarrow> 'm ctx \<Rightarrow> bool" where
  "safe E i c c' \<longleftrightarrow> (\<forall>h. sound E i h c \<longrightarrow> reaches E i h c')"

lemma soundD:
  assumes "sound E i h c"
  shows "hist_ok (electorate E) h" "node_id_of (node c) = i" "replica_ok E h (node c)"
    and "finite (electorate E)" "plain_node E (node c)" "plain_storage (storage (node c))"
    and "log_ok h (node c)" "votes_ok h (node c)" "applied_ok E h (node c)"
    and "role (node c) = Leader \<Longrightarrow> leads_ok h (node c)"
    and "(d, m) \<in> set (sends (out c)) \<Longrightarrow> sound_msg E h i d m"
  using assms plain_node_finite [of E "node c"]
  by (auto simp: sound_def replica_ok_def plain_node_def)

lemma reachesI [intro]: "sound E i h c \<Longrightarrow> reaches E i h c"
  unfolding reaches_def by blast

lemma reaches_grows: "grows i h h' \<Longrightarrow> reaches E i h' c \<Longrightarrow> reaches E i h c"
  unfolding reaches_def using grows_trans by blast

lemma reaches_bind:
  "reaches E i h c \<Longrightarrow> (\<And>h'. grows i h h' \<Longrightarrow> sound E i h' c \<Longrightarrow> reaches E i h' c') \<Longrightarrow> reaches E i h c'"
  unfolding reaches_def using grows_trans by blast

lemma safe_refl [simp, intro]: "safe E i c c"
  by (auto simp: safe_def)

lemma safe_trans [trans]: "safe E i c1 c2 \<Longrightarrow> safe E i c2 c3 \<Longrightarrow> safe E i c1 c3"
  unfolding safe_def using reaches_bind by blast

lemma reaches_safe: "reaches E i h c \<Longrightarrow> safe E i c c' \<Longrightarrow> reaches E i h c'"
  unfolding safe_def using reaches_bind by blast

lemma safe_fold: "(\<And>x c. x \<in> set xs \<Longrightarrow> safe E i c (f x c)) \<Longrightarrow> safe E i c (fold f xs c)"
proof (induction xs arbitrary: c)
  case (Cons x xs)
  then have "safe E i c (f x c)" "safe E i (f x c) (fold f xs (f x c))" by simp_all
  then show ?case by (simp add: safe_trans)
qed simp

lemma soundI:
  assumes "sound E i h c" and "replica_ok E h (node c')" and "node_id_of (node c') = i"
    and "sends (out c') = sends (out c) @ ms" and "\<And>d m. (d, m) \<in> set ms \<Longrightarrow> sound_msg E h i d m"
  shows "sound E i h c'"
  using assms unfolding sound_def by auto

text \<open>A change of the node at an unchanged history, or at one that grew first.\<close>

lemma sound_grows_node:
  assumes "sound E i h c" and g: "grows i h h'" and "hist_ok (electorate E) h'"
    and "replica_ok E h' n'" and "node_id_of n' = i" and "sends o' = sends (out c)"
  shows "reaches E i h (c\<lparr>node := n', rng := r, out := o'\<rparr>)"
proof -
  have "sound_msg E h' i d m" if "(d, m) \<in> set (sends (out c))" for d m
    by (rule sound_msg_grows [OF g soundD(4) [OF assms(1)] soundD(11) [OF assms(1) that]])
  with assms have "sound E i h' (c\<lparr>node := n', rng := r, out := o'\<rparr>)"
    by (auto simp: sound_def)
  with g show ?thesis unfolding reaches_def by blast
qed

subsection \<open>Steps that change no replicated state\<close>

definition same_replica :: "'m raft_node \<Rightarrow> 'm raft_node \<Rightarrow> bool" where
  "same_replica n n' \<longleftrightarrow>
     same_voting n n' \<and> config n' = config n \<and> commit_index n' = commit_index n \<and>
     last_applied n' = last_applied n \<and> sm n' = sm n \<and> next_index n' = next_index n \<and>
     match_index n' = match_index n"

lemma replica_ok_same: "same_replica n n' \<Longrightarrow> replica_ok E h n' = replica_ok E h n"
  using same_voting_ok [of n n']
  by (auto simp: same_replica_def same_voting_def replica_ok_def plain_node_def log_ok_def votes_ok_def
      leads_ok_def applied_ok_def Let_def)

lemma safe_quietI:
  assumes same: "same_replica (node c) (node c')" and ms: "sends (out c') = sends (out c) @ ms"
    and "\<And>h d m. sound E i h c \<Longrightarrow> (d, m) \<in> set ms \<Longrightarrow> sound_msg E h i d m"
  shows "safe E i c c'"
  unfolding safe_def
proof (intro allI impI reachesI)
  fix h assume s: "sound E i h c"
  show "sound E i h c'"
    using same assms(3) [OF s] soundD(2,3) [OF s] replica_ok_same [OF same]
    by (intro soundI [OF s _ _ ms]) (auto simp: same_replica_def same_voting_def)
qed

lemma safe_emit: "(\<And>h. sound E i h c \<Longrightarrow> sound_msg E h i d m) \<Longrightarrow> safe E i c (emit d m c)"
  by (rule safe_quietI [where ms = "[(d, m)]"])
    (simp_all add: emit_def effect_simps same_replica_def same_voting_def)

lemma safe_arm_election_timer [intro]: "safe E i c (arm_election_timer c)"
  by (rule safe_quietI [where ms = "[]"]) (simp_all add: arm_election_timer_eq same_replica_def same_voting_def)

lemma safe_arm_election_timer_now [intro]: "safe E i c (arm_election_timer_now c)"
  by (rule safe_quietI [where ms = "[]"])
    (simp_all add: arm_election_timer_now_def effect_simps same_replica_def same_voting_def)

lemma safe_node_quiet:
  "same_replica (node c) n' \<Longrightarrow> sends o' = sends (out c) \<Longrightarrow> safe E i c (c\<lparr>node := n', rng := r, out := o'\<rparr>)"
  by (rule safe_quietI [where ms = "[]"]) simp_all

subsection \<open>Becoming a follower\<close>

lemma votes_okD:
  assumes "votes_ok h n"
  shows "cast h (node_id_of n, u) = Some (c, L) \<Longrightarrow> u \<le> term_of_node n"
    and "cast h (node_id_of n, term_of_node n) = Some (c, L) \<Longrightarrow> vote_of_node n = Some c"
    and "vote_of_node n = Some c \<Longrightarrow> \<exists>L. cast h (node_id_of n, term_of_node n) = Some (c, L)"
    and "role n = Candidate \<Longrightarrow> 0 < term_of_node n"
    and "role n = Candidate \<Longrightarrow> cast h (node_id_of n, term_of_node n) = Some (node_id_of n, log (storage n))"
    and "role n = Candidate \<Longrightarrow> led h (term_of_node n) \<noteq> Some (node_id_of n)"
    and "role n = Candidate \<Longrightarrow> v \<in> votes n \<Longrightarrow> \<exists>L. cast h (v, term_of_node n) = Some (node_id_of n, L)"
  using assms unfolding votes_ok_def Let_def by blast+

lemma replica_ok_yield:
  assumes ok: "replica_ok E h n" and plain: "plain_node E n'" and f: "role n' = Follower"
    and same: "node_id_of n' = node_id_of n" "log (storage n') = log (storage n)"
      "commit_index n' = commit_index n" "last_applied n' = last_applied n" "sm n' = sm n"
    and le: "term_of_node n \<le> term_of_node n'"
    and vote: "vote_of_node n' = (if term_of_node n' = term_of_node n then vote_of_node n else None)"
  shows "replica_ok E h n'"
proof -
  have "log_ok h n'"
    using ok le unfolding replica_ok_def log_ok_def same by (meson le_trans)
  moreover have "votes_ok h n'"
  proof -
    have v: "votes_ok h n" using ok by (simp add: replica_ok_def)
    have "u \<le> term_of_node n' \<and> (u = term_of_node n' \<longrightarrow> vote_of_node n' = Some c)"
      if b: "cast h (node_id_of n, u) = Some (c, L)" for u c L
      using votes_okD(1) [OF v b] votes_okD(2) [OF v] b le vote by auto
    moreover have "\<exists>L. cast h (node_id_of n, term_of_node n') = Some (c, L)" if "vote_of_node n' = Some c" for c
      using that votes_okD(3) [OF v] vote by (auto split: if_splits)
    ultimately show ?thesis
      using f unfolding votes_ok_def same Let_def by simp
  qed
  moreover have "applied_ok E h n'"
    using ok by (intro applied_ok_same [OF _ same(2-5) same(1) le]) (simp add: replica_ok_def)
  ultimately show ?thesis
    using plain f by (simp add: replica_ok_def)
qed

lemma evolves_plain:
  assumes "evolves (electorate E, {}) heard c c'" and "plain_node E (node c)"
    and "config (node c') = config (node c)" and "plain_storage (storage (node c'))"
  shows "plain_node E (node c')"
  using assms unfolding evolves_def plain_node_def Let_def by simp

lemma safe_observe_term: "safe E i c (snd (observe_term t c))"
proof (cases "term_of_node (node c) < t")
  case True
  let ?c = "snd (observe_term t c)"
  have fields: "role (node ?c) = Follower" "node_id_of (node ?c) = node_id_of (node c)"
      "log (storage (node ?c)) = log (storage (node c))" "commit_index (node ?c) = commit_index (node c)"
      "last_applied (node ?c) = last_applied (node c)" "sm (node ?c) = sm (node c)"
      "term_of_node (node ?c) = t" "vote_of_node (node ?c) = None" "config (node ?c) = config (node c)"
      "plain_storage (storage (node ?c)) = plain_storage (storage (node c))"
      "sends (out ?c) = sends (out c)"
    using True by (simp_all add: observe_term_def Let_def arm_election_timer_eq effect_simps)
  show ?thesis
    unfolding safe_def
  proof (intro allI impI reachesI)
    fix h assume s: "sound E i h c"
    have "plain_node E (node ?c)"
      using evolves_plain [OF evolves_observe_term soundD(5) [OF s]] soundD(6) [OF s] by (simp add: fields)
    then have "replica_ok E h (node ?c)"
      using True by (intro replica_ok_yield [OF soundD(3) [OF s]]) (simp_all add: fields)
    then show "sound E i h ?c"
      by (intro soundI [OF s, where ms = "[]"]) (simp_all add: fields soundD(2) [OF s])
  qed
qed (simp add: observe_term_def)

lemma safe_step_down [intro]: "safe E i c (step_down_to_follower c)"
proof -
  let ?c = "step_down_to_follower c"
  have fields: "role (node ?c) = Follower" "node_id_of (node ?c) = node_id_of (node c)"
      "storage (node ?c) = storage (node c)" "commit_index (node ?c) = commit_index (node c)"
      "last_applied (node ?c) = last_applied (node c)" "sm (node ?c) = sm (node c)"
      "config (node ?c) = config (node c)" "sends (out ?c) = sends (out c)"
    by (simp_all add: step_down_to_follower_def Let_def effect_simps)
  show ?thesis
    unfolding safe_def
  proof (intro allI impI reachesI)
    fix h assume s: "sound E i h c"
    have "plain_node E (node ?c)"
      using evolves_plain [OF evolves_step_down soundD(5) [OF s]] soundD(6) [OF s] by (simp add: fields)
    then have "replica_ok E h (node ?c)"
      by (intro replica_ok_yield [OF soundD(3) [OF s]]) (simp_all add: fields)
    then show "sound E i h ?c"
      by (intro soundI [OF s, where ms = "[]"]) (simp_all add: fields soundD(2) [OF s])
  qed
qed

subsection \<open>What a leader sends\<close>

lemma leader_slice:
  assumes ok: "hist_ok V h" and l: "leads_ok h n" and "prev \<le> length (log (storage n))"
  shows "sound_slice h (term_of_node n) prev
           (if prev = 0 then 0 else entry_term (log (storage n) ! (prev - 1))) (drop prev (log (storage n)))"
proof -
  let ?t = "term_of_node n" and ?L = "log (storage n)"
  from l have h: "led h ?t = Some (node_id_of n)" "llog h ?t = ?L"
    by (auto simp: leads_ok_def Let_def)
  obtain K where K: "strict_prefix K ?L" "\<forall>j < length ?L. entry_term (?L ! j) = ?t \<longleftrightarrow> length K \<le> j"
    by (rule leader_logE [OF ok h(1)]) (simp add: h(2))
  have "length K < length ?L" by (rule prefix_length_less [OF K(1)])
  then have "0 < length ?L" "length ?L - 1 < length ?L" "length K \<le> length ?L - 1" by linarith+
  with K(2) have "0 < length ?L" "entry_term (?L ! (length ?L - 1)) = ?t" by blast+
  with assms(3) show ?thesis
    unfolding sound_slice_def h by (intro exI [of _ "length ?L"]) auto
qed

lemma safe_send_append_entries:
  assumes "role (node c) = Leader" and "p \<noteq> node_id_of (node c)"
  shows "safe E i c (send_append_entries_to p c)"
proof -
  let ?n = "node c"
  let ?nxt = "default_at 1 (next_index ?n) p"
  let ?c1 = "c\<lparr>node := ?n\<lparr>snapshot_next_offset := (snapshot_next_offset ?n)(p := None)\<rparr>\<rparr>"
  let ?m = "AppendEntries (term_of_node ?n) (node_id_of ?n) (?nxt - 1) (term_at (storage ?n) (?nxt - 1))
      (entries_from (storage ?n) ?nxt) (commit_index ?n)"
  have "safe E i c ?c1"
    by (rule safe_quietI [where ms = "[]"]) (simp_all add: same_replica_def same_voting_def)
  also have "safe E i ?c1 (emit p ?m ?c1)"
  proof (rule safe_emit)
    fix h assume "sound E i h ?c1"
    note s = soundD [OF this, simplified]
    have l: "leads_ok h ?n" "log_ok h ?n"
      using s(7,10) assms by (simp_all add: leads_ok_def log_ok_def Let_def)
    have nxt: "0 < ?nxt" "?nxt \<le> Suc (length (log (storage ?n)))"
      using l(1) by (auto simp: leads_ok_def Let_def default_at_def split: option.splits)
    have slice: "sound_slice h (term_of_node ?n) (?nxt - 1) (term_at (storage ?n) (?nxt - 1))
        (entries_from (storage ?n) ?nxt)"
    proof -
      have "?nxt - 1 \<le> length (log (storage ?n))" using nxt by linarith
      then have "term_at (storage ?n) (?nxt - 1) =
          (if ?nxt - 1 = 0 then 0 else entry_term (log (storage ?n) ! (?nxt - 1 - 1)))"
        by (simp add: plain_term_at [OF s(6)])
      with leader_slice [OF s(1) l(1) \<open>?nxt - 1 \<le> _\<close>] show ?thesis
        unfolding plain_entries_from [OF s(6) nxt(1)] by (simp only:)
    qed
    have "static_log (entries_from (storage ?n) ?nxt)"
      using s(5) nxt by (simp add: plain_entries_from [OF s(6)] static_log_drop plain_node_def node_ok_def
          static_node_def static_storage_def)
    with slice s(9) l(1) assms(2) show "sound_msg E h i p ?m"
      by (simp add: applied_ok_def leads_ok_def Let_def)
  qed
  also have "emit p ?m ?c1 = send_append_entries_to p c" if "plain_storage (storage ?n)"
    using that by (simp add: send_append_entries_to_def Let_def)
  finally show ?thesis
    using soundD(6) [of E i _ c] unfolding safe_def by metis
qed

end
