(* ===== verification/Raft_Agreement.thy ===== *)
theory Raft_Agreement
  imports Raft_Replication
begin

text \<open>
  The engine's methods against the history, in the order of \<open>lib.rs\<close>: winning an election and appending as
  a leader extend the leader's log of the term, granting a vote records a ballot, accepting an
  \<open>AppendEntries\<close> records an acknowledgement, and the commit rules only commit what a majority
  has acknowledged.
\<close>

subsection \<open>Leaders\<close>

lemma safe_fold_while:
  "(\<And>x c. x \<in> set xs \<Longrightarrow> P c \<Longrightarrow> safe E i c (f x c) \<and> P (f x c)) \<Longrightarrow> P c \<Longrightarrow> safe E i c (fold f xs c)"
proof (induction xs arbitrary: c)
  case (Cons x xs)
  then have "safe E i c (f x c)" "safe E i (f x c) (fold f xs (f x c))" by simp_all
  then show ?case by (simp add: safe_trans)
qed simp

lemma send_snapshot_chunk_node: "\<exists>m. node (send_snapshot_chunk_to p off c) = (node c)\<lparr>snapshot_next_offset := m\<rparr>"
proof (cases "load_snapshot (storage (node c))")
  case None
  then show ?thesis by (auto simp: send_snapshot_chunk_to_def Let_def)
next
  case (Some md)
  then show ?thesis
    by (intro exI [of _ "snapshot_next_offset (node c)"])
      (simp add: send_snapshot_chunk_to_def Let_def split_beta)
qed

lemma send_append_entries_node: "\<exists>m. node (send_append_entries_to p c) = (node c)\<lparr>snapshot_next_offset := m\<rparr>"
proof -
  have "\<exists>m. node (send_snapshot_chunk_to p off (c\<lparr>node := (node c)\<lparr>snapshot_next_offset := k\<rparr>\<rparr>)) =
      (node c)\<lparr>snapshot_next_offset := m\<rparr>" for off k
    using send_snapshot_chunk_node [of p off "c\<lparr>node := (node c)\<lparr>snapshot_next_offset := k\<rparr>\<rparr>"] by auto
  then show ?thesis
    by (auto simp: send_append_entries_to_def Let_def split: option.splits)
qed

lemma send_append_entries_frame [simp]:
  "role (node (send_append_entries_to p c)) = role (node c)"
  "node_id_of (node (send_append_entries_to p c)) = node_id_of (node c)"
  "commit_index (node (send_append_entries_to p c)) = commit_index (node c)"
  "storage (node (send_append_entries_to p c)) = storage (node c)"
  using send_append_entries_node [of p c] by auto

lemma safe_broadcast_heartbeat: "role (node c) = Leader \<Longrightarrow> safe E i c (broadcast_heartbeat c)"
  unfolding broadcast_heartbeat_def
  by (rule safe_fold_while [where P = "\<lambda>c'. role (node c') = Leader \<and> node_id_of (node c') = node_id_of (node c)"])
    (auto simp: replication_peers_def intro: safe_send_append_entries)

text \<open>A log that extends another, with a last term no smaller, holds the same acknowledgements.\<close>

lemma holds_ack_extend:
  "holds_ack h L t k \<Longrightarrow> prefix L L' \<Longrightarrow> last_term L \<le> last_term L' \<Longrightarrow> holds_ack h L' t k"
  unfolding holds_ack_def using prefix_order.trans le_trans by blast

lemma last_term_snoc [simp]: "last_term (L @ [e]) = entry_term e"
  by (simp add: last_term_def)

lemma last_term_le: "log_ok h n \<Longrightarrow> last_term (log (storage n)) \<le> term_of_node n"
  by (auto simp: last_term_def log_ok_def)

text \<open>
  The effect of a leader's append on the node: \<open>n'\<close> is \<open>n\<close> leading its term with one more entry.
\<close>

lemma replica_ok_lead:
  assumes ok: "hist_ok (electorate E) h" and n: "replica_ok E h n"
    and h': "h' = lead (node_id_of n) (term_of_node n) (log (storage n) @ [e]) h"
    and ok': "hist_ok (electorate E) h'" and g: "grows (node_id_of n) h h'"
    and plain: "plain_node E n'" and r: "role n' = Leader"
    and st: "storage n' = append_entry e (storage n)" and e: "entry_term e = term_of_node n"
    and same: "node_id_of n' = node_id_of n" "commit_index n' = commit_index n"
      "last_applied n' = last_applied n" "sm n' = sm n"
    and peers: "match_index n' (node_id_of n) = None" "\<And>p m. match_index n' p = Some m \<Longrightarrow> m = 0 \<or> (p, term_of_node n, m) \<in> acks h"
      "\<And>p x. next_index n' p = Some x \<Longrightarrow> 0 < x \<and> x \<le> Suc (Suc (length (log (storage n))))"
  shows "replica_ok E h' n'"
proof -
  let ?i = "node_id_of n" and ?t = "term_of_node n" and ?L = "log (storage n)"
  have sel: "led h' ?t = Some ?i" "llog h' ?t = ?L @ [e]" "cast h' = cast h"
      "acks h' = acks h \<union> {(v, u, k). v = ?i \<and> u = ?t \<and> k \<le> Suc (length ?L)}"
    by (simp_all add: h' lead_def)
  have log: "log_ok h n" and vot: "votes_ok h n" and app: "applied_ok E h n"
    using n by (simp_all add: replica_ok_def)
  have fin: "finite (electorate E)" by (rule plain_node_finite [OF plain])
  have "coherent h' (?L @ [e])"
    using hist_okD(3) [OF ok', of ?t] by (simp add: sel)
  moreover have "u \<le> ?t \<and> holds_ack h' (?L @ [e]) u k" if "(?i, u, k) \<in> acks h'" for u k
  proof (cases "(?i, u, k) \<in> acks h")
    case True
    then have "u \<le> ?t" "holds_ack h ?L u k" using log by (simp_all add: log_ok_def)
    moreover have "holds_ack h' ?L u k"
      by (rule holds_ack_grows [OF g hist_okD(6) [OF ok True]]) fact
    ultimately show ?thesis
      using holds_ack_extend [of h' ?L u k "?L @ [e]"] last_term_le [OF log] e by simp
  next
    case False
    with that have "u = ?t" by (simp add: sel)
    then show ?thesis unfolding holds_ack_def by (simp only: sel take_is_prefix order_refl simp_thms)
  qed
  ultimately have "log_ok h' n'"
    using log e by (auto simp: log_ok_def st same)
  moreover have "votes_ok h' n'"
    using vot r by (simp add: votes_ok_def st same sel Let_def)
  moreover have "leads_ok h' n'"
    using peers by (auto simp: leads_ok_def st same sel Let_def)
  moreover have "applied_ok E h' n'"
    using app committed_prefix_grows [OF g fin] by (simp add: applied_ok_def st same)
  ultimately show ?thesis
    using plain by (simp add: replica_ok_def)
qed

lemma fold_upd_map: "fold (\<lambda>p m. m(p \<mapsto> v)) ps f q = (if q \<in> set ps then Some v else f q)"
  by (induction ps arbitrary: f) auto

lemma unled_term:
  assumes ok: "hist_ok V h" and fin: "finite V" and "led h t \<noteq> Some i"
    and maj: "majority V {v. \<exists>L. cast h (v, t) = Some (i, L)}"
  shows "led h t = None"
proof (rule ccontr)
  assume "led h t \<noteq> None"
  then obtain j where j: "led h t = Some j" by blast
  have "majority V {v. \<exists>L. cast h (v, t) = Some (j, L)}"
    using hist_okD(1) [OF ok j] by (simp add: leader_ok_def)
  then have "j = i"
    by (rule maj.unique_choice [OF fin _ maj, where ballot = "\<lambda>v. map_option fst (cast h (v, t))"]) auto
  with j assms(3) show False by simp
qed

lemma safe_maybe_become_leader [intro]: "safe E i c (maybe_become_leader now c)"
proof (cases "role (node c) = Candidate \<and> tally_wins (voters (node c)) (votes (node c))")
  case True
  let ?n = "node c"
  let ?i = "node_id_of ?n" and ?t = "term_of_node ?n" and ?L = "log (storage ?n)"
  define noop where "noop = \<lparr>entry_term = ?t, entry_index = last_log_index (storage ?n) + 1, payload = Noop\<rparr>"
  define n1 where "n1 = ?n\<lparr>role := Leader, leader_id := Some ?i,
      failed_pre_vote_rounds := 0, snapshot_next_offset := Map.empty,
      next_index := fold (\<lambda>p m. m(p \<mapsto> last_log_index (storage ?n) + 1)) (replication_peers ?n) Map.empty,
      match_index := fold (\<lambda>p m. m(p \<mapsto> 0)) (replication_peers ?n) Map.empty,
      quorum_contact := fold (\<lambda>p m. m(p \<mapsto> now)) (btree_iter (voters ?n)) Map.empty,
      storage := append_entry noop (storage ?n)\<rparr>"
  define c1 where "c1 = c\<lparr>node := n1, rng := rng c, out := cancel_timer ELECTION_TIMEOUT (out c)\<rparr>"
  define c2 where "c2 = broadcast_heartbeat c1"
  have eq: "maybe_become_leader now c =
      c2\<lparr>out := set_timer HEARTBEAT (heartbeat_interval (config ?n)) (out c2)\<rparr>"
    using True by (simp add: maybe_become_leader_def Let_def c2_def c1_def n1_def noop_def)
  have "safe E i c c1"
    unfolding safe_def
  proof (intro allI impI)
    fix h assume s: "sound E i h c"
    note sd = soundD [OF s]
    let ?h = "lead ?i ?t (?L @ [noop]) h"
    have idx: "last_log_index (storage ?n) = length ?L" by (rule plain_last_index [OF sd(6)])
    note v = votes_okD [OF sd(8)]
    have cand: "role ?n = Candidate" using True by simp
    have V: "voters ?n = electorate E" "finite (votes ?n)" "numbered_from 1 ?L" "node_ok (electorate E, {}) ?n"
      using sd(5) by (simp_all add: plain_node_def node_ok_def static_node_def plain_storage_def)
    then have "majority (electorate E) (votes ?n)"
      using True tally_wins_majority by metis
    then have maj: "majority (electorate E) {v. \<exists>L. cast h (v, ?t) = Some (?i, L)}"
      by (rule majority_mono [OF sd(4)]) (use v(7) [OF cand] in blast)
    have free: "led h ?t = None"
      by (rule unled_term [OF sd(1,4) v(6) [OF cand] maj])
    have ok': "hist_ok (electorate E) ?h"
      by (rule hist_lead [OF sd(1,4)])
        (use free v(1,4,5) cand maj V idx in \<open>auto simp: noop_def\<close>)
    have g: "grows ?i h ?h"
      using free by (intro grows_lead [OF sd(1)]) simp
    have "plain_storage (append_entry noop (storage ?n))"
      using sd(6) v(4) [OF cand] idx by (intro plain_append) (simp_all add: noop_def)
    moreover have "node_ok (electorate E, {}) n1"
      using V True tally_wins_majority [of "votes ?n" "voters ?n"]
      by (auto simp: n1_def node_ok_def static_node_def static_storage_append noop_def is_config_change_def)
    ultimately have "plain_node E n1"
      using sd(5) by (simp add: plain_node_def n1_def)
    then have "replica_ok E ?h n1"
      by (rule replica_ok_lead [OF sd(1,3) refl ok' g])
        (simp_all add: n1_def noop_def idx fold_upd_map replication_peers_def split: if_splits)
    then show "reaches E i h c1"
      using g ok' sd(2) unfolding c1_def
      by (intro sound_grows_node [OF s]) (simp_all add: n1_def effect_simps)
  qed
  also have "safe E i c1 c2"
    unfolding c2_def by (rule safe_broadcast_heartbeat) (simp add: c1_def n1_def)
  also have "safe E i c2 (maybe_become_leader now c)"
    unfolding eq by (rule safe_quietI [where ms = "[]"])
      (simp_all add: effect_simps same_replica_def same_voting_def)
  finally show ?thesis .
next
  case False
  then show ?thesis by (auto simp: maybe_become_leader_def Let_def)
qed

subsection \<open>Elections\<close>

lemma reaches_record_vote:
  assumes s: "sound E i h c" and heard: "\<exists>L. cast h (v, t) = Some (i, L)"
  shows "reaches E i h (record_vote now v t c)"
proof (cases "role (node c) = Candidate \<and> t = term_of_node (node c)")
  case True
  let ?n = "node c"
  let ?n1 = "?n\<lparr>votes := insert v (votes ?n)\<rparr>"
  note sd = soundD [OF s]
  have "plain_node E ?n1"
    using sd(5) True by (auto simp: plain_node_def node_ok_def static_node_def)
  moreover have "votes_ok h ?n1"
    using sd(2,8) heard True by (auto simp: votes_ok_def Let_def)
  ultimately have "replica_ok E h ?n1"
    using sd(3) True by (simp add: replica_ok_def log_ok_def applied_ok_def)
  then have "sound E i h (c\<lparr>node := ?n1\<rparr>)"
    by (intro soundI [OF s, where ms = "[]"]) (simp_all add: sd(2))
  then have "reaches E i h (maybe_become_leader now (c\<lparr>node := ?n1\<rparr>))"
    using safe_maybe_become_leader unfolding safe_def by blast
  with True show ?thesis by (simp add: record_vote_def Let_def)
next
  case False
  with s show ?thesis by (auto simp: record_vote_def Let_def)
qed

lemma safe_solicit:
  assumes "\<And>h c' d. node c' = node c \<Longrightarrow> sound E i h c' \<Longrightarrow> sound_msg E h i d m"
  shows "safe E i c (solicit m c)"
  unfolding solicit_def
  by (rule safe_fold_while [where P = "\<lambda>c'. node c' = node c"]) (use assms in \<open>auto intro: safe_emit\<close>)

lemma solicit_node [simp]: "node (solicit m c) = node c"
  unfolding solicit_def by (rule fold_invariant_set [where P = "\<lambda>c'. node c' = node c"]) auto

text \<open>Casting a ballot in a fresh term, with the log unchanged.\<close>

lemma log_ok_cast:
  assumes "hist_ok V h" "log_ok h n" "grows i h (cast_ballot i t c L h)"
    and "node_id_of n' = node_id_of n" "log (storage n') = log (storage n)" "term_of_node n \<le> term_of_node n'"
  shows "log_ok (cast_ballot i t c L h) n'"
proof -
  let ?h = "cast_ballot i t c L h"
  have acks: "acks ?h = acks h" by (simp add: cast_ballot_def)
  have "u \<le> term_of_node n' \<and> holds_ack ?h (log (storage n)) u k" if "(node_id_of n, u, k) \<in> acks h" for u k
    using assms(2,6) that holds_ack_grows [OF assms(3) hist_okD(6) [OF assms(1) that]]
    unfolding log_ok_def by (meson le_trans)
  moreover have "coherent ?h (log (storage n))"
    using assms(2) by (auto simp: log_ok_def intro: coherent_grows [OF assms(3)])
  moreover have "\<forall>e \<in> set (log (storage n)). entry_term e \<le> term_of_node n'"
    using assms(2,6) unfolding log_ok_def by (meson le_trans)
  ultimately show ?thesis
    unfolding log_ok_def acks assms(4,5) by blast
qed

lemma safe_start_real_election [intro]: "safe E i c (start_real_election now c)"
proof -
  let ?n = "node c"
  let ?i = "node_id_of ?n" and ?t = "term_of_node ?n + 1" and ?L = "log (storage ?n)"
  define st where "st = set_voted_for (Some ?i) (set_current_term ?t (storage ?n))"
  define n1 where "n1 = ?n\<lparr>storage := st, role := Candidate, votes := {?i}, pre_votes := None, leader_id := None\<rparr>"
  define c1 where "c1 = c\<lparr>node := n1, rng := rng c, out := out c\<rparr>"
  let ?m = "RequestVote ?t ?i (last_log_index st) (last_log_term st)"
  have eq: "start_real_election now c = maybe_become_leader now (solicit ?m c1)"
    by (simp add: start_real_election_def Let_def c1_def n1_def st_def)
  have n1: "term_of_node n1 = ?t" "vote_of_node n1 = Some ?i" "log (storage n1) = ?L" "node_id_of n1 = ?i"
      "plain_storage (storage n1) = plain_storage (storage ?n)"
    by (simp_all add: n1_def st_def)
  have "safe E i c c1"
    unfolding safe_def
  proof (intro allI impI)
    fix h assume s: "sound E i h c"
    note sd = soundD [OF s]
    let ?h = "cast_ballot ?i ?t ?i ?L h"
    have free: "cast h (?i, ?t) = None"
    proof (cases "cast h (?i, ?t)")
      case (Some b)
      then show ?thesis using votes_okD(1) [OF sd(8), of ?t "fst b" "snd b"] by simp
    qed
    have unled: "led h ?t \<noteq> Some ?i"
      using hist_okD(1) [OF sd(1), of ?t ?i] free by (auto simp: leader_ok_def)
    have g: "grows ?i h ?h" by (rule grows_cast [OF free])
    have ok': "hist_ok (electorate E) ?h"
      using sd(7) by (intro hist_cast [OF sd(1,4) free]) (auto simp: log_ok_def less_Suc_eq_le)
    have "plain_node E n1"
      using sd(5) by (simp add: plain_node_def node_ok_def static_node_def n1_def st_def)
    moreover have "log_ok ?h n1"
      by (rule log_ok_cast [OF sd(1,7) g]) (simp_all add: n1)
    moreover have "votes_ok ?h n1"
      using votes_okD(1) [OF sd(8)] unled
      by (auto simp: votes_ok_def Let_def n1 cast_ballot_def le_SucI) (simp_all add: n1_def)
    moreover have "applied_ok E ?h n1"
      by (rule applied_ok_same [OF applied_ok_grows [OF g sd(4,9)]]) (simp_all add: n1, simp_all add: n1_def)
    ultimately have "replica_ok E ?h n1" by (simp add: replica_ok_def n1_def)
    then show "reaches E i h c1"
      using g ok' sd(2) unfolding c1_def by (intro sound_grows_node [OF s]) (simp_all add: n1)
  qed
  also have "safe E i c1 (solicit ?m c1)"
  proof (rule safe_solicit)
    fix h c' d assume c': "node c' = node c1" and s: "sound E i h c'"
    have "role n1 = Candidate" by (simp add: n1_def)
    then have "cast h (?i, ?t) = Some (?i, ?L)"
      using votes_okD(5) [OF soundD(8) [OF s]] c' by (simp add: c1_def n1)
    moreover have "plain_storage st"
      using soundD(6) [OF s] c' by (simp add: c1_def n1_def)
    ultimately show "sound_msg E h i d ?m"
      by (simp add: plain_last_index plain_last_term) (simp add: st_def)
  qed
  also have "safe E i (solicit ?m c1) (start_real_election now c)"
    unfolding eq ..
  finally show ?thesis .
qed

lemma safe_maybe_promote [intro]: "safe E i c (maybe_promote_pre_candidate now c)"
proof (cases "pre_votes (node c)")
  case (Some tally)
  have "safe E i c (c\<lparr>node := (node c)\<lparr>failed_pre_vote_rounds := 0, pre_votes := None\<rparr>\<rparr>)"
    by (rule safe_quietI [where ms = "[]"]) (simp_all add: same_replica_def same_voting_def)
  from safe_trans [OF this safe_start_real_election] Some show ?thesis
    by (simp add: maybe_promote_pre_candidate_def Let_def)
qed (simp add: maybe_promote_pre_candidate_def)

lemma safe_start_pre_vote [intro]: "safe E i c (start_pre_vote now c)"
proof -
  let ?n = "node c"
  let ?t = "term_of_node ?n + 1"
  let ?c1 = "c\<lparr>node := ?n\<lparr>pre_vote_term := ?t, pre_votes := Some {node_id_of ?n},
      pre_vote_round_responded := False\<rparr>\<rparr>"
  let ?m = "PreVote ?t (node_id_of ?n) (last_log_index (storage ?n)) (last_log_term (storage ?n))"
  have "safe E i c ?c1"
    by (rule safe_quietI [where ms = "[]"]) (simp_all add: same_replica_def same_voting_def)
  also have "safe E i ?c1 (solicit ?m ?c1)"
    by (rule safe_solicit) simp
  also have "safe E i \<dots> (arm_election_timer (solicit ?m ?c1))" ..
  also have "safe E i \<dots> (start_pre_vote now c)"
    using safe_maybe_promote by (simp add: start_pre_vote_def Let_def)
  finally show ?thesis .
qed

lemma safe_on_election_timeout: "safe E i c (on_election_timeout now c)"
proof -
  have q: "safe E i c (c\<lparr>node := (node c)\<lparr>failed_pre_vote_rounds := k, pre_votes := pv\<rparr>\<rparr>)"
      "safe E i c (c\<lparr>node := (node c)\<lparr>failed_pre_vote_rounds := k\<rparr>\<rparr>)" for k pv
    by (rule safe_quietI [where ms = "[]"], simp_all add: same_replica_def same_voting_def)+
  have real: "safe E i c' (arm_election_timer (start_real_election now c'))" for c'
    by (rule safe_trans [OF safe_start_real_election safe_arm_election_timer])
  show ?thesis
    unfolding on_election_timeout_def Let_def
    using safe_trans [OF q(1) real] safe_trans [OF q(2) safe_start_pre_vote] real
    by (auto simp: if_split)
qed

lemma up_to_date_check:
  "plain_storage (storage n) \<Longrightarrow>
   candidate_log_up_to_date n (length K) (last_term K) \<longleftrightarrow> up_to_date K (log (storage n))"
  by (auto simp: candidate_log_up_to_date_def up_to_date_def plain_last_index plain_last_term Let_def)

text \<open>Granting the vote: either it is a new ballot, or the same one again.\<close>

lemma reaches_grant:
  assumes s: "sound E i h c"
    and K: "cast h (cand, term_of_node (node c)) = Some (cand, K)" "up_to_date K (log (storage (node c)))"
    and free: "vote_of_node (node c) = None \<or> vote_of_node (node c) = Some cand"
  shows "reaches E i h (c\<lparr>node := (node c)\<lparr>storage := set_voted_for (Some cand) (storage (node c))\<rparr>\<rparr>)"
proof (cases "vote_of_node (node c)")
  case (Some v)
  with free have "set_voted_for (Some cand) (storage (node c)) = storage (node c)"
    by (simp add: set_voted_for_def)
  with s show ?thesis by auto
next
  case None
  let ?n = "node c"
  let ?t = "term_of_node ?n" and ?L = "log (storage ?n)"
  let ?n1 = "?n\<lparr>storage := set_voted_for (Some cand) (storage ?n)\<rparr>"
  let ?h = "cast_ballot i ?t cand ?L h"
  note sd = soundD [OF s]
  have free: "cast h (i, ?t) = None"
    using votes_okD(2) [OF sd(8)] None sd(2) by (cases "cast h (i, ?t)") auto
  have follower: "role ?n = Follower"
    using None sd(5) by (auto simp: plain_node_def node_ok_def)
  have g: "grows i h ?h" by (rule grows_cast [OF free])
  have ok': "hist_ok (electorate E) ?h"
    using sd(2,7) K by (intro hist_cast [OF sd(1,4) free]) (auto simp: log_ok_def)
  have "plain_node E ?n1"
    using sd(5) follower by (simp add: plain_node_def node_ok_def static_node_def)
  moreover have "log_ok ?h ?n1"
    by (rule log_ok_cast [OF sd(1,7) g]) simp_all
  moreover have "votes_ok ?h ?n1"
    using votes_okD(1) [OF sd(8)] follower sd(2) by (auto simp: votes_ok_def Let_def cast_ballot_def)
  moreover have "applied_ok E ?h ?n1"
    by (rule applied_ok_same [OF applied_ok_grows [OF g sd(4,9)]]) simp_all
  ultimately have "replica_ok E ?h ?n1" using follower by (simp add: replica_ok_def)
  then have "reaches E i h (c\<lparr>node := ?n1, rng := rng c, out := out c\<rparr>)"
    using g ok' sd(2) by (intro sound_grows_node [OF s]) simp_all
  then show ?thesis by simp
qed

lemma safe_report_vote:
  "vote_of_node (node c) = Some cand \<Longrightarrow> safe E i c (emit cand (RequestVoteResp (term_of_node (node c)) g) c)"
  by (rule safe_emit) (use soundD(2,8) votes_okD(3) in fastforce)

lemma reaches_on_request_vote:
  assumes s: "sound E i h c" and m: "sound_msg E h src i (RequestVote t cand li lt)"
  shows "reaches E i h (on_request_vote now t cand li lt c)"
proof (cases "pre_vote (config (node c)) \<and> leader_is_fresh now (node c)")
  case True
  have "safe E i c (emit cand (RequestVoteResp (term_of_node (node c)) False) c)"
    by (rule safe_emit) simp
  with s True show ?thesis
    by (auto simp: on_request_vote_def intro: reaches_safe)
next
  case False
  let ?c1 = "snd (observe_term t c)"
  let ?n = "node ?c1"
  let ?grant = "\<not> t < term_of_node ?n \<and> (vote_of_node ?n = None \<or> vote_of_node ?n = Some cand) \<and>
      candidate_log_up_to_date ?n li lt"
  let ?c2 = "?c1\<lparr>node := ?n\<lparr>storage := set_voted_for (Some cand) (storage ?n)\<rparr>\<rparr>"
  let ?c3 = "arm_election_timer ?c2"
  have eq: "on_request_vote now t cand li lt c =
      (if ?grant then emit cand (RequestVoteResp (term_of_node (node ?c3)) True) ?c3
       else emit cand (RequestVoteResp (term_of_node ?n) False) ?c1)"
    using False by (auto simp: on_request_vote_def Let_def)
  have "reaches E i h ?c1"
    using safe_observe_term s unfolding safe_def by blast
  then show ?thesis
  proof (rule reaches_bind)
    fix h1 assume g: "grows i h h1" and s1: "sound E i h1 ?c1"
    show "reaches E i h1 (on_request_vote now t cand li lt c)"
    proof (cases ?grant)
      case True
      obtain K where K: "cast h (cand, t) = Some (cand, K)" "li = length K" "lt = last_term K"
        using m by auto
      have t: "term_of_node ?n = t" using True observe_term_ge [of t c] by simp
      have "reaches E i h1 ?c2"
        using True K(2,3) growsD(3) [OF g K(1)] up_to_date_check [OF soundD(6) [OF s1], of K]
        by (intro reaches_grant [OF s1, of cand K]) (simp_all add: t)
      then have "reaches E i h1 ?c3"
        using safe_arm_election_timer by (rule reaches_safe)
      moreover have "vote_of_node (node ?c3) = Some cand" by (simp add: arm_election_timer_eq)
      ultimately show ?thesis
        unfolding eq if_P [OF True] by (blast intro: reaches_safe safe_report_vote)
    next
      case False
      have "safe E i ?c1 (emit cand (RequestVoteResp (term_of_node ?n) False) ?c1)"
        by (rule safe_emit) simp
      with s1 show ?thesis
        unfolding eq if_not_P [OF False] by (blast intro: reaches_safe)
    qed
  qed
qed

lemma safe_on_pre_vote: "safe E i c (on_pre_vote now t cand li lt c)"
  by (simp add: on_pre_vote_def Let_def safe_emit)

lemma safe_on_pre_vote_resp: "safe E i c (on_pre_vote_resp now src t g c)"
proof -
  let ?n1 = "(node c)\<lparr>pre_vote_round_responded := True\<rparr>"
  have q: "safe E i c (c\<lparr>node := ?n1\<rparr>)" "safe E i c (c\<lparr>node := ?n1\<lparr>pre_votes := pv\<rparr>\<rparr>)" for pv
    by (rule safe_quietI [where ms = "[]"], simp_all add: same_replica_def same_voting_def)+
  then show ?thesis
    unfolding on_pre_vote_resp_def Let_def using safe_trans [OF q(2) safe_maybe_promote] by simp
qed

lemma reaches_on_request_vote_resp:
  assumes s: "sound E i h c" and m: "sound_msg E h src i (RequestVoteResp t g)"
  shows "reaches E i h (on_request_vote_resp now src t g c)"
proof (cases "fst (observe_term t c)")
  case True
  with s show ?thesis
    using safe_observe_term [of E i c t] unfolding safe_def on_request_vote_resp_def
    by (simp add: split_beta)
next
  case False
  with s m show ?thesis
    by (auto simp: on_request_vote_resp_def split_beta observe_term_same intro: reaches_record_vote)
qed

end
