(* ===== verification/Raft_Commit.thy ===== *)
theory Raft_Commit
  imports Raft_Agreement
begin

text \<open>
  The commit rules and the two replication handlers against the history.  A leader commits an
  index only when its own acknowledgement and the recorded ones form a majority for an entry of
  its term; a follower commits what the leader reports, capped at what the message vouched for.
\<close>

subsection \<open>Applying\<close>

lemma apply_loop_plain:
  assumes "plain_storage (storage n)" "last_applied n \<le> commit_index n"
    "commit_index n \<le> length (log (storage n))"
  shows "\<exists>k. apply_loop M n = Some (n\<lparr>last_applied := commit_index n,
      sm := fold (\<lambda>e m. sm_apply M m e)
              (take (commit_index n - last_applied n) (drop (last_applied n) (log (storage n)))) (sm n),
      applied_count := k\<rparr>)"
  using assms
proof (induction M n rule: apply_loop.induct)
  case (1 M n)
  let ?L = "log (storage n)"
  show ?case
  proof (cases "last_applied n < commit_index n")
    case True
    then have len: "last_applied n < length ?L" using "1.prems" by simp
    let ?e = "?L ! last_applied n"
    let ?n' = "n\<lparr>last_applied := last_applied n + 1, sm := sm_apply M (sm n) ?e,
        applied_count := applied_count n + 1\<rparr>"
    have e: "entry_at (storage n) (last_applied n + 1) = Some ?e"
      using len by (simp add: plain_entry_at [OF "1.prems"(1)])
    have "take (commit_index n - last_applied n) (drop (last_applied n) ?L) =
        ?e # take (commit_index n - Suc (last_applied n)) (drop (Suc (last_applied n)) ?L)"
      using True len by (simp add: Cons_nth_drop_Suc [symmetric] take_Cons')
    then show ?thesis
      using "1.IH" [OF True e] "1.prems" True e by (simp add: apply_loop.simps [of M n])
  next
    case False
    with "1.prems" have "last_applied n = commit_index n" by simp
    then show ?thesis
      by (intro exI [of _ "applied_count n"]) (simp add: apply_loop.simps [of M n])
  qed
qed

lemma sound_commit_to:
  assumes s: "sound E i h c" and idx: "commit_index (node c) \<le> idx" "idx \<le> length (log (storage (node c)))"
    and com: "committed_prefix (electorate E) h (term_of_node (node c)) (take idx (log (storage (node c))))"
  shows "\<exists>c'. commit_to (machine E) idx c = Some c' \<and> sound E i h c' \<and>
    (\<exists>m k. node c' = (node c)\<lparr>commit_index := idx, last_applied := idx, sm := m, applied_count := k\<rparr>)"
proof -
  let ?n = "node c"
  let ?L = "log (storage ?n)" and ?f = "\<lambda>e m. sm_apply (machine E) m e"
  let ?n1 = "?n\<lparr>commit_index := idx\<rparr>"
  note sd = soundD [OF s]
  have app: "last_applied ?n = commit_index ?n" "sm ?n = fold ?f (take (commit_index ?n) ?L) (initial_sm E (node_id_of ?n))"
    using sd(9) by (simp_all add: applied_ok_def)
  obtain k where k: "apply_loop (machine E) ?n1 = Some (?n1\<lparr>last_applied := idx,
      sm := fold ?f (take (idx - commit_index ?n) (drop (commit_index ?n) ?L)) (sm ?n), applied_count := k\<rparr>)"
    using apply_loop_plain [of ?n1 "machine E"] sd(6) idx app(1) by auto
  have "take idx ?L = take (commit_index ?n) ?L @ take (idx - commit_index ?n) (drop (commit_index ?n) ?L)"
    using idx(1) by (metis le_add_diff_inverse take_add)
  then have fold: "fold ?f (take (idx - commit_index ?n) (drop (commit_index ?n) ?L)) (sm ?n) =
      fold ?f (take idx ?L) (initial_sm E (node_id_of ?n))"
    by (simp add: app(2))
  define n2 where "n2 = ?n\<lparr>commit_index := idx, last_applied := idx,
      sm := fold ?f (take idx ?L) (initial_sm E (node_id_of ?n)), applied_count := k\<rparr>"
  let ?c' = "c\<lparr>node := n2, out := note_committed_through idx (out c)\<rparr>"
  have thr: "snapshot_threshold (config ?n) = 0"
    using sd(5) by (simp add: plain_node_def)
  have res: "commit_to (machine E) idx c = Some ?c'"
    using k thr by (simp add: commit_to_def apply_committed_def maybe_compact_def Let_def fold n2_def)
  have "plain_node E n2"
    using sd(5) by (simp add: plain_node_def n2_def node_ok_def static_node_def)
  moreover have "applied_ok E h n2"
    using idx com by (simp add: applied_ok_def n2_def)
  ultimately have "replica_ok E h n2"
    using sd(3) by (simp add: replica_ok_def n2_def log_ok_def votes_ok_def leads_ok_def Let_def)
  then have "sound E i h ?c'"
    using sd(2) by (intro soundI [OF s, where ms = "[]"]) (simp_all add: n2_def effect_simps)
  with res show ?thesis by (intro exI [of _ ?c']) (auto simp: n2_def)
qed

subsection \<open>The leader's commit rule\<close>

lemma commit_scan_spec:
  "commit_scan n k = commit_index n \<or>
   commit_index n < commit_scan n k \<and> commit_scan n k \<le> k \<and>
   term_at (storage n) (commit_scan n k) = current_term (storage n) \<and>
   card (voters n) div 2 + 1 \<le> replicated_on n (commit_scan n k)"
  by (induction k) auto

lemma replicated_majority:
  assumes fin: "finite (voters n)" and none: "match_index n (node_id_of n) = None"
    and "card (voters n) div 2 + 1 \<le> replicated_on n k"
    and self: "node_id_of n \<in> A" and peers: "\<And>p m. match_index n p = Some m \<Longrightarrow> k \<le> m \<Longrightarrow> p \<in> A"
  shows "majority (voters n) A"
proof -
  let ?P = "\<lambda>p. case match_index n p of Some mi \<Rightarrow> k \<le> mi | None \<Rightarrow> False"
  let ?S = "if node_id_of n \<in> voters n then {node_id_of n} else {}"
  let ?T = "{p \<in> voters n. ?P p}"
  have "replicated_on n k = card ?S + card ?T"
    using fin by (simp add: replicated_on_def length_filter_btree_iter)
  also have "\<dots> = card (?S \<union> ?T)"
    using fin none by (intro card_Un_disjoint [symmetric]) auto
  also have "\<dots> \<le> card (A \<inter> voters n)"
    using fin self peers by (intro card_mono) (auto split: if_splits option.splits)
  finally show ?thesis
    using assms(3) by (simp add: majority_def)
qed

lemma committed_prefixI:
  "committed V h t k \<Longrightarrow> t \<le> b \<Longrightarrow> prefix P (take k (llog h t)) \<Longrightarrow> committed_prefix V h b P"
  unfolding committed_prefix_def by blast

lemma leads_okD:
  assumes "leads_ok h n"
  shows "led h (term_of_node n) = Some (node_id_of n)" "llog h (term_of_node n) = log (storage n)"
    and "k \<le> length (log (storage n)) \<Longrightarrow> (node_id_of n, term_of_node n, k) \<in> acks h"
    and "match_index n (node_id_of n) = None"
    and "match_index n p = Some m \<Longrightarrow> m = 0 \<or> (p, term_of_node n, m) \<in> acks h"
    and "next_index n p = Some x \<Longrightarrow> 0 < x \<and> x \<le> Suc (length (log (storage n)))"
  using assms by (auto simp: leads_ok_def Let_def)

lemma leader_committed:
  assumes s: "sound E i h c" and lead: "role (node c) = Leader" and k: "0 < k"
    and trm: "term_at (storage (node c)) k = term_of_node (node c)"
    and rep: "card (voters (node c)) div 2 + 1 \<le> replicated_on (node c) k"
  shows "k \<le> length (log (storage (node c)))" "committed (electorate E) h (term_of_node (node c)) k"
proof -
  let ?n = "node c"
  let ?t = "term_of_node ?n" and ?L = "log (storage ?n)"
  note sd = soundD [OF s] and l = leads_okD [OF soundD(10) [OF s lead]]
  have V: "voters ?n = electorate E"
    using sd(5) by (simp add: plain_node_def node_ok_def static_node_def)
  have "0 < ?t" using hist_okD(1) [OF sd(1) l(1)] by (simp add: leader_ok_def)
  with trm k show len: "k \<le> length ?L"
    by (auto simp: plain_term_at [OF sd(6)] split: if_splits)
  with trm k have "entry_term (?L ! (k - 1)) = ?t"
    by (simp add: plain_term_at [OF sd(6)])
  moreover have "majority (electorate E) {v. (v, ?t, k) \<in> acks h}"
    unfolding V [symmetric]
  proof (rule replicated_majority [OF _ l(4) rep])
    show "finite (voters ?n)" using sd(4) V by simp
    show "node_id_of ?n \<in> {v. (v, ?t, k) \<in> acks h}" using l(3) len by simp
    show "p \<in> {v. (v, ?t, k) \<in> acks h}" if "match_index ?n p = Some m" "k \<le> m" for p m
      using l(5) [OF that(1)] that(2) k hist_okD(8) [OF sd(1)] by auto
  qed
  ultimately show "committed (electorate E) h ?t k"
    using k len by (simp add: committed_def l(2))
qed

lemma reaches_maybe_advance_commit:
  assumes s: "sound E i h c"
  shows "\<exists>c'. maybe_advance_commit (machine E) c = Some c' \<and> reaches E i h c'"
proof (cases "role (node c) = Leader")
  case False
  with s show ?thesis by (auto simp: maybe_advance_commit_def)
next
  case True
  let ?n = "node c"
  define k where "k = commit_scan ?n (last_log_index (storage ?n))"
  define r where "r = (if commit_index ?n < k then commit_to (machine E) k c else Some c)"
  have "\<exists>c2. r = Some c2 \<and> sound E i h c2"
  proof (cases "commit_index ?n < k")
    case adv: True
    then have k: "term_at (storage ?n) k = term_of_node ?n" "card (voters ?n) div 2 + 1 \<le> replicated_on ?n k" "0 < k"
      using commit_scan_spec [of ?n "last_log_index (storage ?n)"] by (auto simp: k_def)
    note com = leader_committed [OF s True k(3,1,2)]
    have "committed_prefix (electorate E) h (term_of_node ?n) (take k (log (storage ?n)))"
      using leads_okD(2) [OF soundD(10) [OF s True]]
      by (intro committed_prefixI [OF com(2)]) simp_all
    with adv sound_commit_to [OF s _ com(1)] show ?thesis by (auto simp: r_def)
  next
    case False
    with s show ?thesis by (simp add: r_def)
  qed
  then obtain c2 where c2: "r = Some c2" "sound E i h c2" by blast
  have "reaches E i h (arm_election_timer_now (step_down_to_follower c2))"
    by (rule reaches_safe [OF reachesI [OF c2(2)]])
      (rule safe_trans [OF safe_step_down safe_arm_election_timer_now])
  with c2 True show ?thesis
    by (auto simp: maybe_advance_commit_def Let_def k_def [symmetric] r_def [symmetric])
qed

subsection \<open>Answers from followers\<close>

lemma sound_leader_update:
  assumes s: "sound E i h c" and lead: "role (node c) = Leader"
    and same: "same_voting (node c) n'" "config n' = config (node c)" "commit_index n' = commit_index (node c)"
      "last_applied n' = last_applied (node c)" "sm n' = sm (node c)"
    and m: "match_index n' i = None"
      "\<And>p m. match_index n' p = Some m \<Longrightarrow> m = 0 \<or> (p, term_of_node (node c), m) \<in> acks h"
    and x: "\<And>p x. next_index n' p = Some x \<Longrightarrow> 0 < x \<and> x \<le> Suc (length (log (storage (node c))))"
  shows "sound E i h (c\<lparr>node := n'\<rparr>)"
proof -
  note sd = soundD [OF s]
  have f: "node_id_of n' = i" "storage n' = storage (node c)" "role n' = Leader"
    using same(1) lead sd(2) by (simp_all add: same_voting_def)
  have "leads_ok h n'"
    using sd(10) [OF lead] m x sd(2) unfolding leads_ok_def Let_def f by simp
  moreover have "plain_node E n'"
    using sd(5) same_voting_ok [OF same(1)] same(2) f by (simp add: plain_node_def)
  moreover have "log_ok h n'" "votes_ok h n'" "applied_ok E h n'"
    using sd(2,7,8,9) same lead
    by (simp_all add: log_ok_def votes_ok_def applied_ok_def f Let_def)
  ultimately have "replica_ok E h n'" by (simp add: replica_ok_def)
  then show ?thesis
    by (intro soundI [OF s, where ms = "[]"]) (simp_all add: f)
qed

lemma reaches_on_append_entries_resp:
  assumes s: "sound E i h c" and m: "sound_msg E h src i (AppendEntriesResp t ok mi)"
  shows "\<exists>c'. on_append_entries_resp (machine E) now src t ok mi c = Some c' \<and> reaches E i h c'"
proof (cases "fst (observe_term t c)")
  case True
  with s safe_observe_term [of E i c t] show ?thesis
    by (simp add: on_append_entries_resp_def split_beta Let_def safe_def)
next
  case False
  then have same: "snd (observe_term t c) = c" by (rule observe_term_same)
  let ?n = "node c"
  note sd = soundD [OF s]
  show ?thesis
  proof (cases "role ?n = Leader \<and> t = term_of_node ?n")
    case notme: False
    with False s show ?thesis
      by (auto simp: on_append_entries_resp_def split_beta Let_def same)
  next
    case True
    then have lead: "role ?n = Leader" and t: "t = term_of_node ?n" by simp_all
    note l = leads_okD [OF sd(10) [OF lead]]
    have src: "src \<noteq> i" using m by simp
    have obs: "observe_term (term_of_node ?n) c = (False, c)"
      by (simp add: observe_term_def)
    show ?thesis
    proof (cases ok)
      case ok: True
      let ?mi = "max (default_at 0 (match_index ?n) src) mi"
      let ?n' = "?n\<lparr>quorum_contact := (quorum_contact ?n)(src \<mapsto> now),
          match_index := (match_index ?n)(src \<mapsto> ?mi), next_index := (next_index ?n)(src \<mapsto> ?mi + 1)\<rparr>"
      have ack: "(src, term_of_node ?n, mi) \<in> acks h"
        using m ok t by simp
      have mi: "?mi = 0 \<or> (src, term_of_node ?n, ?mi) \<in> acks h"
        using ack l(5) [of src] by (auto simp: default_at_def max_def split: option.splits)
      then have "?mi \<le> length (log (storage ?n))"
        using hist_okD(6) [OF sd(1)] l(2) by fastforce
      then have "sound E i h (c\<lparr>node := ?n'\<rparr>)"
        using src l(4,5,6) mi sd(2)
        by (intro sound_leader_update [OF s lead]) (auto simp: same_voting_def split: if_splits)
      with ok True reaches_maybe_advance_commit [of E i h "c\<lparr>node := ?n'\<rparr>"] show ?thesis
        by (simp add: on_append_entries_resp_def obs Let_def)
    next
      case fail: False
      let ?ni = "default_at 1 (next_index ?n) src"
      let ?n' = "?n\<lparr>next_index := (next_index ?n)(src \<mapsto> (if 1 < ?ni then ?ni - 1 else ?ni))\<rparr>"
      have ni: "0 < ?ni" "?ni \<le> Suc (length (log (storage ?n)))"
        using l(6) [of src] by (auto simp: default_at_def split: option.splits)
      then have "sound E i h (c\<lparr>node := ?n'\<rparr>)"
        using l(4,5,6) sd(2)
        by (intro sound_leader_update [OF s lead]) (auto simp: same_voting_def split: if_splits)
      moreover have "safe E i (c\<lparr>node := ?n'\<rparr>) (send_append_entries_to src (c\<lparr>node := ?n'\<rparr>))"
        using lead src sd(2) by (intro safe_send_append_entries) simp_all
      ultimately have "reaches E i h (send_append_entries_to src (c\<lparr>node := ?n'\<rparr>))"
        by (blast intro: reaches_safe)
      with fail True show ?thesis
        by (simp add: on_append_entries_resp_def obs Let_def del: One_nat_def split del: if_split)
    qed
  qed
qed

lemma safe_on_heartbeat_timer: "safe E i c (on_heartbeat_timer now c)"
proof -
  let ?d = "step_down_to_follower c"
  have "safe E i ?d (?d\<lparr>node := (node ?d)\<lparr>leader_id := None\<rparr>\<rparr>)"
    by (rule safe_quietI [where ms = "[]"]) (simp_all add: same_replica_def same_voting_def)
  then have down: "safe E i c (arm_election_timer (?d\<lparr>node := (node ?d)\<lparr>leader_id := None\<rparr>\<rparr>))"
    by (rule safe_trans [OF safe_trans [OF safe_step_down] safe_arm_election_timer])
  have timer: "safe E i c1 (c1\<lparr>out := set_timer HEARTBEAT d (out c1)\<rparr>)" for d and c1 :: "'a ctx"
    by (rule safe_quietI [where ms = "[]"]) (simp_all add: effect_simps same_replica_def same_voting_def)
  show ?thesis
    using down safe_trans [OF safe_broadcast_heartbeat timer]
    by (simp add: on_heartbeat_timer_def Let_def)
qed

end
