(* ===== verification/Raft_Append.thy ===== *)
theory Raft_Append
  imports Raft_Commit
begin

text \<open>
  \<open>AppendEntries\<close> on the follower, proposals on the leader, and the dispatch: every message and timer
  keeps a node sound, and no handler panics.
\<close>

subsection \<open>What the repair leaves in the log\<close>

lemma match_len_terms: "j < match_len xs es \<Longrightarrow> entry_term (xs ! j) = entry_term (es ! j)"
  by (induction xs es arbitrary: j rule: match_len.induct) (auto simp: nth_Cons split: nat.splits if_splits)

lemma match_len_prefix: "prefix es xs \<Longrightarrow> match_len xs es = length es"
  by (induction xs es rule: match_len.induct) auto

text \<open>
  Against a leader's log \<open>T\<close>, the repair keeps a log that already holds \<open>T\<close> and otherwise installs
  exactly \<open>T\<close>.
\<close>

lemma merge_coherent:
  assumes F: "coherent h F" and T: "coherent h T" and prev: "prev \<le> length T"
    and pos: "\<And>e. e \<in> set T \<Longrightarrow> 0 < entry_term e"
    and match: "(if 0 < prev \<and> prev \<le> length F then entry_term (F ! (prev - 1)) else 0) =
      (if prev = 0 then 0 else entry_term (T ! (prev - 1)))"
  shows "prev \<le> length F"
    and "take prev F @ merge_suffix (drop prev F) (drop prev T) = (if prefix T F then F else T)"
proof -
  have agree: "take k F = take k T"
    if "0 < k" "k \<le> length F" "k \<le> length T" "entry_term (F ! (k - 1)) = entry_term (T ! (k - 1))" for k
    using coherent_matching [OF F T, of "k - 1"] that by simp
  show len: "prev \<le> length F"
  proof (cases "prev = 0")
    case False
    then have "0 < entry_term (T ! (prev - 1))" using prev by (intro pos) simp
    with match False show ?thesis by (auto split: if_splits)
  qed simp
  have pre: "take prev F = take prev T"
  proof (cases "prev = 0")
    case False
    with match len prev agree [of prev] show ?thesis by simp
  qed simp
  let ?m = "match_len (drop prev F) (drop prev T)"
  have m: "?m \<le> length F - prev" "?m \<le> length T - prev"
    using match_len_le [of "drop prev F" "drop prev T"] by simp_all
  have upto: "take (prev + ?m) F = take (prev + ?m) T"
  proof (cases "?m = 0")
    case False
    have "entry_term (drop prev F ! (?m - 1)) = entry_term (drop prev T ! (?m - 1))"
      using False by (intro match_len_terms) simp
    with False m len prev have "entry_term (F ! (prev + ?m - 1)) = entry_term (T ! (prev + ?m - 1))"
      by (simp add: add.commute)
    with False m len prev show ?thesis by (intro agree) linarith+
  qed (simp add: pre)
  show "take prev F @ merge_suffix (drop prev F) (drop prev T) = (if prefix T F then F else T)"
  proof (cases "?m = length (drop prev T)")
    case True
    then have "prev + ?m = length T" using prev by simp
    with upto have "take (length T) F = T" by simp
    then have "prefix T F" by (metis take_is_prefix)
    with True show ?thesis by (simp add: merge_suffix_match)
  next
    case False
    have "\<not> prefix T F"
    proof
      assume "prefix T F"
      then have "prefix (drop prev T) (drop prev F)"
        using prev by (auto simp: prefix_def)
      with False match_len_prefix show False by blast
    qed
    moreover have "take prev F @ take ?m (drop prev F) @ drop ?m (drop prev T) = T"
    proof -
      have "take prev F @ take ?m (drop prev F) = take (prev + ?m) F" by (simp add: take_add)
      then show ?thesis
        using upto by (metis append.assoc append_take_drop_id drop_drop add.commute)
    qed
    ultimately show ?thesis using False by (simp add: merge_suffix_match)
  qed
qed

lemma sound_sliceE:
  assumes "hist_ok V h" and "sound_slice h t prev pt es"
  obtains T where "prefix T (llog h t)" "coherent h T" "numbered_from 1 T" "prev \<le> length T"
    "es = drop prev T" "length T = prev + length es" "last_term T = t" "T \<noteq> []"
    "pt = (if prev = 0 then 0 else entry_term (T ! (prev - 1)))" "\<forall>e \<in> set T. 0 < entry_term e"
proof -
  from assms(2) obtain n where n: "prev \<le> n" "0 < n" "n \<le> length (llog h t)" "entry_term (llog h t ! (n - 1)) = t"
      "es = drop prev (take n (llog h t))" "pt = (if prev = 0 then 0 else entry_term (llog h t ! (prev - 1)))"
    by (auto simp: sound_slice_def)
  let ?T = "take n (llog h t)"
  have T: "prefix ?T (llog h t)" by (rule take_is_prefix)
  have coh: "coherent h ?T" by (rule coherent_prefix [OF hist_okD(3) [OF assms(1)] T])
  have len: "length ?T = n" using n(3) by simp
  have "?T \<noteq> []" using n(2) len by auto
  moreover have "last_term ?T = t"
    using n(2,3,4) \<open>?T \<noteq> []\<close> by (simp add: last_term_def last_conv_nth)
  ultimately show ?thesis
    using n T coh len coherent_term_pos [OF assms(1) coh] numbered_from_take [OF hist_okD(4) [OF assms(1)]]
    by (intro that [of ?T]) auto
qed

text \<open>A log that drops an acknowledged prefix does so for a later leader that never held it.\<close>

lemma holds_ack_adopt:
  assumes ok: "hist_ok V h" and F: "holds_ack h F u k" "last_term F \<le> t" "u \<le> t" and no: "\<not> prefix T F"
    and T: "prefix T (llog h t)" "last_term T = t" "T \<noteq> []"
  shows "holds_ack h T u k"
proof (cases "prefix (take k (llog h u)) F")
  case False
  with F T(2) show ?thesis unfolding holds_ack_def by force
next
  case P: True
  show ?thesis
  proof (cases "prefix (take k (llog h u)) T")
    case True
    then show ?thesis by (simp add: holds_ack_def)
  next
    case False
    obtain l where l: "led h t = Some l"
      using hist_okD(2) [OF ok, of t] T(1,3) by (cases "led h t") auto
    obtain L where L: "cast h (l, t) = Some (l, L)" "strict_prefix L (llog h t)"
        "\<forall>j < length (llog h t). entry_term (llog h t ! j) = t \<longleftrightarrow> length L \<le> j"
      by (rule leader_logE [OF ok l])
    have "u \<noteq> t"
    proof
      assume "u = t"
      then have "prefix T (take k (llog h u)) \<or> prefix (take k (llog h u)) T"
        using prefix_same_cases [OF T(1) take_is_prefix] by simp
      with False P no show False by (blast intro: prefix_order.trans)
    qed
    moreover have "lost_by h t (take k (llog h u))"
    proof -
      have "length L \<le> length T - 1"
      proof -
        have "length T - 1 < length T" using T(3) by simp
        moreover from this have "entry_term (llog h t ! (length T - 1)) = t"
          using prefix_nth [OF T(1), of "length T - 1"] T(2,3) by (simp add: last_term_def last_conv_nth)
        ultimately show ?thesis
          using L(3) prefix_length_le [OF T(1)] by (meson less_le_trans)
      qed
      then have "prefix L T"
        using L(2) by (intro prefix_same_length [OF _ T(1)]) (auto simp: strict_prefix_def)
      with False have "\<not> prefix (take k (llog h u)) L" by (blast intro: prefix_order.trans)
      with l L(1) show ?thesis unfolding lost_by_def by blast
    qed
    ultimately show ?thesis
      using F(3) T(2) unfolding holds_ack_def by (metis le_neq_implies_less le_refl)
  qed
qed

lemma committed_kept:
  assumes ok: "hist_ok V h" and fin: "finite V" and com: "committed_prefix V h t (take c F)" and c: "c \<le> length F"
    and no: "\<not> prefix T F" and T: "prefix T (llog h t)" "T \<noteq> []"
  shows "take c T = take c F" "c \<le> length T"
proof -
  obtain l where l: "led h t = Some l"
    using hist_okD(2) [OF ok, of t] T by (cases "led h t") auto
  have P: "prefix (take c F) (llog h t)"
    by (rule committed_prefix_in_leader [OF ok fin com l]) simp
  have "\<not> prefix T (take c F)"
    using no take_is_prefix by (blast intro: prefix_order.trans)
  then have "prefix (take c F) T"
    using prefix_same_cases [OF T(1) P] by blast
  with c show "take c T = take c F" "c \<le> length T"
    using take_prefix_eq [of c F T] prefix_length_le [of "take c F" T] by auto
qed

lemma sound_adopt:
  assumes s: "sound E i h c" and f: "role (node c) = Follower" and t: "term_of_node (node c) = t"
    and T: "prefix T (llog h t)" "coherent h T" "last_term T = t" "T \<noteq> []"
    and st: "plain_storage st" "static_storage (electorate E, {}) st" "current_term st = t"
      "voted_for st = vote_of_node (node c)"
      "log st = (if prefix T (log (storage (node c))) then log (storage (node c)) else T)"
  shows "grows i h (acknowledge i t (length T) h)"
    and "sound E i (acknowledge i t (length T) h) (c\<lparr>node := (node c)\<lparr>storage := st\<rparr>\<rparr>)"
proof -
  let ?n = "node c" and ?h = "acknowledge i t (length T) h"
  let ?n' = "?n\<lparr>storage := st\<rparr>" and ?F = "log (storage ?n)"
  note sd = soundD [OF s]
  show g: "grows i h ?h" by (rule grows_acknowledge)
  have newest: "u \<le> t" if "cast h (i, u) \<noteq> None" for u
    using that votes_okD(1) [OF sd(8)] sd(2) t by fastforce
  have ok': "hist_ok (electorate E) ?h"
    by (rule hist_acknowledge [OF sd(1) prefix_length_le [OF T(1)] newest])
  have log: "coherent h ?F" "\<And>e. e \<in> set ?F \<Longrightarrow> entry_term e \<le> t"
      "\<And>u k. (i, u, k) \<in> acks h \<Longrightarrow> u \<le> t \<and> holds_ack h ?F u k"
    using sd(2,7) t by (auto simp: log_ok_def)
  have TF: "prefix T (log st)" by (simp add: st(5))
  have "coherent ?h (log st)"
    using log(1) T(2) by (auto simp: st(5) intro: coherent_grows [OF g])
  moreover have "entry_term e \<le> t" if "e \<in> set (log st)" for e
    using that log(2) coherent_term_le_last [OF sd(1) T(2)] T(3) by (auto simp: st(5) split: if_splits)
  moreover have "u \<le> t \<and> holds_ack ?h (log st) u k" if a: "(i, u, k) \<in> acks ?h" for u k
  proof (cases "(i, u, k) \<in> acks h")
    case True
    have "holds_ack h (log st) u k"
      using log(3) [OF True] last_term_le [OF sd(7)] t
      by (auto simp: st(5) intro: holds_ack_adopt [OF sd(1) _ _ _ _ T(1,3,4)])
    with log(3) [OF True] holds_ack_grows [OF g hist_okD(6) [OF sd(1) True]] show ?thesis by blast
  next
    case False
    with a have "u = t" "k \<le> length T" by (auto simp: acknowledge_def)
    moreover have "prefix (take k (llog h t)) T"
      using \<open>k \<le> length T\<close> by (intro prefix_same_length [OF take_is_prefix T(1)]) simp
    ultimately show ?thesis
      using TF by (auto simp: holds_ack_def acknowledge_def intro: prefix_order.trans)
  qed
  ultimately have "log_ok ?h ?n'"
    by (simp add: log_ok_def st(3) sd(2))
  moreover have "votes_ok ?h ?n'"
    using sd(8) t by (simp add: votes_ok_def Let_def st(3,4) acknowledge_def f)
  moreover have "applied_ok E ?h ?n'"
  proof -
    have app: "applied_ok E h ?n" by (rule sd(9))
    then have "take (commit_index ?n) (log st) = take (commit_index ?n) ?F \<and> commit_index ?n \<le> length (log st)"
      using committed_kept [OF sd(1,4), of t "commit_index ?n" ?F T] T(1,4) t by (simp add: applied_ok_def st(5))
    with app t committed_prefix_grows [OF g sd(4)] show ?thesis
      by (simp add: applied_ok_def st(3))
  qed
  moreover have "plain_node E ?n'"
    using sd(5) st t by (simp add: plain_node_def node_ok_def static_node_def f)
  ultimately have "replica_ok E ?h ?n'" by (simp add: replica_ok_def f)
  moreover have "sound_msg E ?h i d m" if "(d, m) \<in> set (sends (out c))" for d m
    by (rule sound_msg_grows [OF g sd(4) sd(11) [OF that]])
  ultimately show "sound E i ?h (c\<lparr>node := ?n'\<rparr>)"
    using ok' sd(2) by (auto simp: sound_def)
qed

subsection \<open>AppendEntries\<close>

lemma safe_accept_leader: "safe E i c (accept_leader now l c)"
proof -
  let ?c1 = "if role (node c) \<noteq> Follower then step_down_to_follower c else c"
  let ?c2 = "arm_election_timer ?c1"
  have "safe E i c ?c1" by auto
  also have "safe E i ?c1 ?c2" ..
  also have "safe E i ?c2 (accept_leader now l c)"
    by (rule safe_quietI [where ms = "[]"]) (simp_all add: accept_leader_def Let_def same_replica_def same_voting_def)
  finally show ?thesis .
qed

lemma accept_leader_frame:
  "role (node (accept_leader now l c)) = Follower" "storage (node (accept_leader now l c)) = storage (node c)"
  by (simp_all add: accept_leader_def Let_def arm_election_timer_eq step_down_to_follower_def)

lemma reconcile_plain:
  assumes "reconcile_log term_at truncate_from append_entries prev es s = (s', tr, ap)" "plain_storage s"
    and "prev \<le> length (log s)" "numbered_from (Suc prev) es"
  shows "plain_storage s'" "log s' = take prev (log s) @ merge_suffix (drop prev (log s)) es"
proof -
  have r: "wf_storage s'" "mem_base s' = 0" "log s' = take prev (log s) @ merge_suffix (drop prev (log s)) es"
    using mem.reconcile_refines [OF plain_wf(1) [OF assms(2)] _ _ assms(4,1)] assms(3)
    by (simp_all add: plain_wf(2) [OF assms(2)] plain_last_index [OF assms(2)])
  have "snap_meta s' = None" "log_start s' = 0"
    using assms(1,2)
    by (auto simp: reconcile_log_def Let_def split_beta plain_storage_def truncate_from_def append_entries_def
        split: if_splits option.splits)
  with r show "plain_storage s'" "log s' = take prev (log s) @ merge_suffix (drop prev (log s)) es"
    by (auto simp: plain_storage_def wf_storage_def mem_start_def)
qed

lemma reply_safe: "l \<noteq> i \<Longrightarrow> safe E i c (emit l (AppendEntriesResp a False b) c)"
  by (rule safe_emit) simp

lemma reaches_on_append_entries:
  assumes s: "sound E i h c" and m: "sound_msg E h src i (AppendEntries t l prev pt es lc)"
  shows "\<exists>c'. on_append_entries (machine E) now t l prev pt es lc c = Some c' \<and> reaches E i h c'"
proof -
  define c1 where "c1 = snd (observe_term t c)"
  define c2 where "c2 = accept_leader now l c1"
  from m have l: "l \<noteq> i" and slice: "sound_slice h t prev pt es" and static: "static_log es" by auto
  have 1: "reaches E i h c1"
    using s safe_observe_term unfolding c1_def safe_def by blast
  have 2: "reaches E i h c2"
    unfolding c2_def using 1 safe_accept_leader by (rule reaches_safe)
  show ?thesis
  proof (cases "t < term_of_node (node c1) \<or> term_at (storage (node c2)) prev \<noteq> pt")
    case True
    then show ?thesis
      using reaches_safe [OF 1 reply_safe [OF l]] reaches_safe [OF 2 reply_safe [OF l]]
      by (auto simp: on_append_entries_def Let_def c1_def [symmetric] c2_def [symmetric])
  next
    case False
    obtain st tr ap where rec: "reconcile_log term_at truncate_from append_entries prev es (storage (node c2)) = (st, tr, ap)"
      by (metis prod_cases3)
    define n2 where "n2 = (if tr \<or> ap then recompute_config_from_log ((node c2)\<lparr>storage := st\<rparr>)
      else (node c2)\<lparr>storage := st\<rparr>)"
    define k where "k = min lc (prev + length es)"
    define r where "r = (if commit_index n2 < lc \<and> commit_index n2 < k
      then commit_to (machine E) k (c2\<lparr>node := n2\<rparr>) else Some (c2\<lparr>node := n2\<rparr>))"
    have t: "term_of_node (node c1) = t" "term_of_node (node c2) = t"
      using False observe_term_ge [of t c] by (simp_all add: c1_def c2_def accept_leader_frame)
    have eq: "on_append_entries (machine E) now t l prev pt es lc c =
        (case r of None \<Rightarrow> None | Some c5 \<Rightarrow> Some (emit l (AppendEntriesResp t True (prev + length es)) c5))"
    proof -
      have "\<not> t < term_of_node (node c1)" "term_at (storage (node c2)) prev = pt" using False by auto
      from on_append_entries_accept [OF c1_def c2_def this rec n2_def] show ?thesis
        unfolding r_def k_def t(1) .
    qed
    from 2 obtain h2 where g2: "grows i h h2" and s2: "sound E i h2 c2" by (auto simp: reaches_def)
    note sd = soundD [OF s2]
    have m2: "sound_msg E h2 src i (AppendEntries t l prev pt es lc)"
      by (rule sound_msg_grows [OF g2 sd(4) m])
    then have slice2: "sound_slice h2 t prev pt es" by simp
    obtain T where T: "prefix T (llog h2 t)" "coherent h2 T" "numbered_from 1 T" "prev \<le> length T"
        "es = drop prev T" "length T = prev + length es" "last_term T = t" "T \<noteq> []"
        "pt = (if prev = 0 then 0 else entry_term (T ! (prev - 1)))" "\<forall>e \<in> set T. 0 < entry_term e"
      by (rule sound_sliceE [OF sd(1) slice2])
    let ?F = "log (storage (node c2))"
    have merge: "prev \<le> length ?F"
        "take prev ?F @ merge_suffix (drop prev ?F) es = (if prefix T ?F then ?F else T)"
      using merge_coherent [OF _ T(2,4), of ?F] T(5,9,10) False sd(7)
      by (auto simp: log_ok_def plain_term_at [OF sd(6)])
    have num: "numbered_from (Suc prev) es"
      using numbered_from_drop [OF T(3), of prev] by (simp add: T(5))
    note st = reconcile_plain [OF rec sd(6) merge(1) num]
    have ok: "node_ok (electorate E, {}) (node c2)"
      using sd(5) by (simp add: plain_node_def)
    then have "static_storage (electorate E, {}) (storage (node c2))"
      by (simp add: node_ok_def static_node_def)
    then have static_st: "static_storage (electorate E, {}) st"
      using reconcile_frame(3) [OF rec] static by blast
    have frame: "current_term st = t" "voted_for st = vote_of_node (node c2)"
      using reconcile_frame(1,2) [OF rec] t by simp_all
    then have n2: "n2 = (node c2)\<lparr>storage := st\<rparr>"
      using node_ok_new_storage(2) [OF ok static_st] t by (simp add: n2_def)
    define h3 where "h3 = acknowledge i t (length T) h2"
    have g3: "grows i h2 h3" and s3: "sound E i h3 (c2\<lparr>node := n2\<rparr>)"
      unfolding h3_def n2
      using sound_adopt [OF s2 _ t(2) T(1,2,7,8) st(1) static_st frame] st(2) merge(2)
      by (simp_all add: c2_def accept_leader_frame)
    have ack: "(i, t, prev + length es) \<in> acks h3"
      by (simp add: h3_def acknowledge_def T(6))
    have "\<exists>c5. r = Some c5 \<and> sound E i h3 c5"
    proof (cases "commit_index n2 < lc \<and> commit_index n2 < k")
      case True
      have TF: "prefix T (log st)" using st(2) merge(2) by simp
      have k: "k \<le> length T" "k \<le> lc" by (simp_all add: k_def T(6))
      have "take k (log st) = take k (llog h2 t)"
        using TF T(1) k(1) by (metis prefix_def take_append append_Nil2 diff_is_0_eq take_0)
      moreover have "committed_prefix (electorate E) h2 t (take k (llog h2 t))"
      proof (rule committed_prefix_mono)
        show "committed_prefix (electorate E) h2 t (take lc (llog h2 t))" using m2 by simp
        show "prefix (take k (llog h2 t)) (take lc (llog h2 t))"
          using k(2) by (intro prefix_same_length [OF take_is_prefix take_is_prefix]) simp
      qed simp
      ultimately have "committed_prefix (electorate E) h3 t (take k (log st))"
        using committed_prefix_grows [OF g3 sd(4)] by simp
      moreover have "k \<le> length (log st)" using k(1) prefix_length_le [OF TF] by simp
      ultimately show ?thesis
        using True sound_commit_to [OF s3, of k] by (auto simp: r_def n2 frame)
    next
      case False
      with s3 show ?thesis by (auto simp: r_def)
    qed
    then obtain c5 where c5: "r = Some c5" "sound E i h3 c5" by blast
    have "sound E i h3 (emit l (AppendEntriesResp t True (prev + length es)) c5)"
      using soundD(2,3) [OF c5(2)] ack l
      by (intro soundI [OF c5(2), where ms = "[(l, AppendEntriesResp t True (prev + length es))]"])
        (simp_all add: emit_def effect_simps)
    then have "reaches E i h (emit l (AppendEntriesResp t True (prev + length es)) c5)"
      using grows_trans [OF g2 g3] unfolding reaches_def by blast
    then show ?thesis by (simp add: eq c5(1))
  qed
qed

subsection \<open>Proposals\<close>

lemma reaches_leader_append:
  assumes s: "sound E i h c" and lead: "role (node c) = Leader" and e: "entry_term e = term_of_node (node c)"
      "entry_index e = Suc (length (log (storage (node c))))" "\<not> is_config_change (payload e)"
  shows "reaches E i h (c\<lparr>node := (node c)\<lparr>storage := append_entry e (storage (node c))\<rparr>\<rparr>)"
proof -
  let ?n = "node c"
  let ?t = "term_of_node ?n" and ?L = "log (storage ?n)"
  let ?n1 = "?n\<lparr>storage := append_entry e (storage ?n)\<rparr>" and ?h = "lead i ?t (?L @ [e]) h"
  note sd = soundD [OF s] and l = leads_okD [OF soundD(10) [OF s lead]]
  have newest: "u \<le> ?t" if "cast h (i, u) \<noteq> None" for u
    using that votes_okD(1) [OF sd(8)] sd(2) by fastforce
  have ok': "hist_ok (electorate E) ?h"
    using l(1,2) sd(2) by (intro hist_lead [OF sd(1,4) _ e(1,2) newest]) simp_all
  have g: "grows i h ?h"
    using l(1,2) sd(2) by (intro grows_lead [OF sd(1)]) simp
  have "0 < ?t" using hist_okD(1) [OF sd(1) l(1)] by (simp add: leader_ok_def)
  then have "plain_storage (append_entry e (storage ?n))"
    using e by (intro plain_append [OF sd(6)]) simp_all
  then have "plain_node E ?n1"
    using sd(5) e(3) by (simp add: plain_node_def node_ok_def static_node_def static_storage_append)
  then have "replica_ok E ?h ?n1"
    using sd(2) lead l(4-6) e(1)
    by (intro replica_ok_lead [OF sd(1,3) _ ok']) (auto simp: g dest: l(6))
  then have "reaches E i h (c\<lparr>node := ?n1, rng := rng c, out := out c\<rparr>)"
    using sd(2) by (intro sound_grows_node [OF s g ok']) simp_all
  then show ?thesis by simp
qed

lemma reaches_propose:
  assumes s: "sound E i h c" and p: "\<not> is_config_change p"
  shows "\<exists>res c'. propose (machine E) p c = Some (res, c') \<and> reaches E i h c'"
proof (cases "role (node c) = Leader")
  case False
  with s show ?thesis by (auto simp: propose_def)
next
  case True
  let ?n = "node c"
  let ?e = "\<lparr>entry_term = term_of_node ?n, entry_index = last_log_index (storage ?n) + 1, payload = p\<rparr>"
  let ?c1 = "c\<lparr>node := ?n\<lparr>storage := append_entry ?e (storage ?n)\<rparr>\<rparr>"
  have "reaches E i h ?c1"
    using p by (intro reaches_leader_append [OF s True]) (simp_all add: plain_last_index [OF soundD(6) [OF s]])
  then have "reaches E i h (broadcast_heartbeat ?c1)"
    using True by (intro reaches_safe [OF _ safe_broadcast_heartbeat]) simp_all
  then obtain h1 where h1: "grows i h h1" "sound E i h1 (broadcast_heartbeat ?c1)"
    by (auto simp: reaches_def)
  obtain c' where c': "maybe_advance_commit (machine E) (broadcast_heartbeat ?c1) = Some c'" "reaches E i h1 c'"
    using reaches_maybe_advance_commit [OF h1(2)] by blast
  have "propose (machine E) p c = Some (Some (last_log_index (storage ?n) + 1), c')"
    using True p c'(1) by (simp add: propose_def Let_def)
  with reaches_grows [OF h1(1) c'(2)] show ?thesis by blast
qed

subsection \<open>Dispatch\<close>

lemma reaches_on_message:
  assumes s: "sound E i h c" and m: "sound_msg E h src i m"
  shows "\<exists>c'. on_message (machine E) now src m c = Some c' \<and> reaches E i h c'"
proof (cases m)
  case (RequestVote t cand li lt)
  with reaches_on_request_vote [OF s, of src t cand li lt now] m show ?thesis by simp
next
  case (RequestVoteResp t g)
  with reaches_on_request_vote_resp [OF s, of src t g now] m show ?thesis by simp
next
  case (PreVote t cand li lt)
  with s safe_on_pre_vote [of E i c now t cand li lt] show ?thesis by (auto simp: safe_def)
next
  case (PreVoteResp t g)
  with s safe_on_pre_vote_resp [of E i c now src t g] show ?thesis by (auto simp: safe_def)
next
  case (AppendEntries t l pi pt es lc)
  with reaches_on_append_entries [OF s, of src t l pi pt es lc now] m show ?thesis by simp
next
  case (AppendEntriesResp t ok mi)
  with reaches_on_append_entries_resp [OF s, of src t ok mi now] m show ?thesis by simp
next
  case (Propose p)
  then obtain res c' where "propose (machine E) p c = Some (res, c')" "reaches E i h c'"
    using m reaches_propose [OF s, of p] by auto
  with Propose show ?thesis by simp
qed (use s m in auto)

lemma safe_on_timer: "safe E i c (on_timer now token c)"
  by (simp add: on_timer_def safe_on_election_timeout safe_on_heartbeat_timer)

end
