(* ===== verification/Raft_Consensus.thy ===== *)
theory Raft_Consensus
  imports Raft_Cluster Raft_Append
begin

text \<open>
  Consensus for the cluster of \<open>Raft_Cluster\<close>, with static membership and compaction off: log matching,
  leader completeness, agreement on everything ever committed, equal state machines, and the
  absence of panics, under loss, duplication, reordering, delay and crash-restart.
\<close>

subsection \<open>The invariant of the network\<close>

definition agreed :: "'m cluster \<Rightarrow> history \<Rightarrow> 'm net \<Rightarrow> bool" where
  "agreed E h s \<longleftrightarrow>
     hist_ok (electorate E) h \<and>
     (\<forall>i. node_id_of (nodes s i) = i \<and> replica_ok E h (nodes s i)) \<and>
     (\<forall>v d m. (v, d, m) \<in> soup s \<longrightarrow> sound_msg E h v d m)"

abbreviation cluster_of :: "'m sm_ops \<Rightarrow> node_id set \<Rightarrow> (node_id \<Rightarrow> 'm) \<Rightarrow> 'm cluster" where
  "cluster_of M V m0 \<equiv> \<lparr>electorate = V, machine = M, initial_sm = m0\<rparr>"

definition history_new :: history where
  "history_new = \<lparr>led = Map.empty, llog = (\<lambda>_. []), cast = Map.empty, acks = {}\<rparr>"

lemma hist_ok_new: "hist_ok V history_new"
  by (rule hist_okI) (simp_all add: history_new_def)

lemma sound_run: "agreed E h s \<Longrightarrow> sound E i h (run_ctx (nodes s i) r)"
  by (simp add: agreed_def sound_def run_ctx_def effects_new_def)

lemma agreed_settle:
  assumes "agreed E h s" and "reaches E i h c"
  shows "\<exists>h'. agreed E h' (settle i c s) \<and> grows i h h'"
proof -
  from assms(2) obtain h' where g: "grows i h h'" and s': "sound E i h' c" by (auto simp: reaches_def)
  have ns: "nodes (settle i c s) = (nodes s)(i := node c)"
      "soup (settle i c s) = soup s \<union> (\<lambda>(d, m). (i, d, m)) ` set (sends (out c))"
    by (simp_all add: settle_def Let_def)
  have "replica_ok E h' (nodes s j)" if "j \<noteq> i" for j
    using assms(1) that by (intro replica_ok_grows [OF g, of "electorate E"]) (simp_all add: agreed_def)
  moreover have "sound_msg E h' v d m" if "(v, d, m) \<in> soup s" for v d m
    using assms(1) that by (intro sound_msg_grows [OF g soundD(4) [OF s']]) (simp add: agreed_def)
  ultimately have "agreed E h' (settle i c s)"
    using assms(1) s' by (auto simp: agreed_def ns sound_def)
  with g show ?thesis by blast
qed

lemma with_state_machine_fresh:
  assumes "plain_storage st" and "static_storage (V, {}) st"
  shows "commit_index (with_state_machine M i V st cfg m) = 0" "last_applied (with_state_machine M i V st cfg m) = 0"
    and "sm (with_state_machine M i V st cfg m) = m" "config (with_state_machine M i V st cfg m) = cfg"
  using assms
  by (simp_all add: with_state_machine_def Let_def split_beta recompute_static static_storage_def)

lemma replica_ok_restart:
  assumes "replica_ok E h n" and "snapshot_threshold cfg = 0"
  shows "replica_ok E h (with_state_machine (machine E) (node_id_of n) (electorate E) (storage n) cfg (initial_sm E (node_id_of n)))"
    (is "replica_ok E h ?n")
proof -
  have p: "plain_storage (storage n)" "static_storage (electorate E, {}) (storage n)" "finite (electorate E)"
    using assms(1) by (simp_all add: replica_ok_def plain_node_def node_ok_def static_node_def)
  note f = with_state_machine_fields [OF p(2) refl] with_state_machine_fresh [OF p(1,2)]
  have "plain_node E ?n"
    using with_state_machine_ok [OF p(3,2)] p(1) assms(2) by (simp add: plain_node_def f)
  moreover have "votes_ok h ?n" "log_ok h ?n" "applied_ok E h ?n"
    using assms(1) by (simp_all add: replica_ok_def votes_ok_def log_ok_def applied_ok_def f Let_def)
  ultimately show ?thesis by (simp add: replica_ok_def f)
qed

lemma agreed_init:
  assumes "finite V" and "\<And>i. snapshot_threshold (cfg i) = 0"
  shows "agreed (cluster_of M V m0) history_new (init_net M V cfg m0)"
proof -
  let ?E = "cluster_of M V m0"
  have p: "plain_storage mem_storage_new" "static_storage (V, {}) mem_storage_new"
    by (simp_all add: plain_storage_def mem_storage_new_def static_storage_def)
  note f = with_state_machine_fields [OF p(2) refl] with_state_machine_fresh [OF p]
  have "replica_ok ?E history_new (with_state_machine M i V mem_storage_new (cfg i) (m0 i))" for i
    using with_state_machine_ok [OF assms(1) p(2)] p(1) assms(2)
    by (simp add: replica_ok_def plain_node_def f votes_ok_def log_ok_def applied_ok_def Let_def)
      (simp add: mem_storage_new_def history_new_def)
  then show ?thesis
    by (simp add: agreed_def hist_ok_new init_net_def f)
qed

lemma agreed_step:
  assumes step: "net_step M V cfg m0 s s'" and inv: "agreed (cluster_of M V m0) h s"
    and thr: "\<And>i. snapshot_threshold (cfg i) = 0"
  shows "\<exists>i h'. agreed (cluster_of M V m0) h' s' \<and> grows i h h'"
  using step
proof cases
  case (deliver src i m now r c)
  have "sound_msg (cluster_of M V m0) h src i m"
    using inv deliver(2) by (simp add: agreed_def)
  with reaches_on_message [OF sound_run [OF inv], of src i m now r] deliver(3)
  have "reaches (cluster_of M V m0) i h c" by auto
  from agreed_settle [OF inv this] show ?thesis unfolding deliver(1) by blast
next
  case (client p i r res c)
  with reaches_propose [OF sound_run [OF inv], of p i r]
  have "reaches (cluster_of M V m0) i h c" by auto
  from agreed_settle [OF inv this] show ?thesis unfolding client(1) by blast
next
  case (timer i now token r)
  have "reaches (cluster_of M V m0) i h (on_timer now token (run_ctx (nodes s i) r))"
    using safe_on_timer sound_run [OF inv] unfolding safe_def by blast
  from agreed_settle [OF inv this] show ?thesis unfolding timer by blast
next
  case (restart i r)
  let ?n = "with_state_machine M i V (storage (nodes s i)) (cfg i) (m0 i)"
  have n: "node_id_of (nodes s i) = i" "replica_ok (cluster_of M V m0) h (nodes s i)"
    using inv by (simp_all add: agreed_def)
  have "replica_ok (cluster_of M V m0) h ?n"
    using replica_ok_restart [OF n(2) thr, of i] n(1) by simp
  moreover have "node_id_of ?n = i"
    using n(2) by (intro with_state_machine_fields [OF _ refl])
      (simp add: replica_ok_def plain_node_def node_ok_def static_node_def)
  ultimately have "sound (cluster_of M V m0) i h (run_ctx ?n r)"
    using inv by (simp add: sound_def agreed_def run_ctx_def effects_new_def)
  then have "reaches (cluster_of M V m0) i h (start_node (run_ctx ?n r))"
    using safe_arm_election_timer unfolding safe_def start_node_def by blast
  from agreed_settle [OF inv this] show ?thesis unfolding restart by blast
qed

lemma agreed_reachable:
  assumes "reachable M V cfg m0 s" and "finite V" and "\<And>i. snapshot_threshold (cfg i) = 0"
  shows "\<exists>h. agreed (cluster_of M V m0) h s"
  using assms
proof (induction rule: reachable.induct)
  case initial
  show ?case using agreed_init [of V cfg M m0] initial by blast
next
  case (step s s')
  from step.IH [OF step.prems] obtain h where h: "agreed (cluster_of M V m0) h s" by blast
  from agreed_step [OF step.hyps(2) h step.prems(2)] show ?case by blast
qed

text \<open>Along a run, what is committed stays committed.\<close>

lemma agreed_run:
  assumes "(net_step M V cfg m0)\<^sup>*\<^sup>* s s'" and "agreed (cluster_of M V m0) h s" and "finite V"
    and "\<And>i. snapshot_threshold (cfg i) = 0"
  shows "\<exists>h'. agreed (cluster_of M V m0) h' s' \<and> (\<forall>b P. committed_prefix V h b P \<longrightarrow> committed_prefix V h' b P)"
  using assms(1,2)
proof (induction rule: rtranclp_induct)
  case base
  then show ?case by blast
next
  case (step s1 s2)
  then obtain h1 where h1: "agreed (cluster_of M V m0) h1 s1"
      "\<forall>b P. committed_prefix V h b P \<longrightarrow> committed_prefix V h1 b P" by blast
  obtain i h2 where "agreed (cluster_of M V m0) h2 s2" "grows i h1 h2"
    using agreed_step [OF step.hyps(2) h1(1) assms(4)] by blast
  with h1(2) committed_prefix_grows [OF _ assms(3)] show ?case by blast
qed

subsection \<open>What two nodes agree on\<close>

lemma agreedD:
  assumes "agreed E h s"
  shows "hist_ok (electorate E) h" "finite (electorate E)" "coherent h (log (storage (nodes s i)))"
    and "plain_storage (storage (nodes s i))" "applied_ok E h (nodes s i)"
    and "role (nodes s i) = Leader \<Longrightarrow> leads_ok h (nodes s i)" and "node_id_of (nodes s i) = i"
  using assms plain_node_finite [of E "nodes s i"]
  by (auto simp: agreed_def replica_ok_def plain_node_def log_ok_def)

lemma entry_at_take:
  assumes "plain_storage a" "plain_storage b" "take k (log a) = take k (log b)" "k \<le> length (log a)" "k \<le> length (log b)"
    and "l \<le> k"
  shows "entry_at a l = entry_at b l"
proof (cases "0 < l")
  case True
  then have "l - 1 < k" using assms(6) by linarith
  then have "log a ! (l - 1) = log b ! (l - 1)"
    using nth_take [of "l - 1" k "log a"] nth_take [of "l - 1" k "log b"] assms(3) by simp
  with assms True show ?thesis by (simp add: plain_entry_at)
qed (simp add: entry_at_def)

lemma committed_take_eq:
  assumes ok: "hist_ok V h" and fin: "finite V" and P: "committed_prefix V h b (take m F)" "m \<le> length F"
    and Q: "committed_prefix V h d (take n G)" "n \<le> length G" and k: "k \<le> m" "k \<le> n"
  shows "take k F = take k G"
proof -
  have "prefix (take m F) (take n G) \<or> prefix (take n G) (take m F)"
    by (rule committed_prefixes_comparable [OF ok fin P(1) Q(1)])
  moreover have "take k A = take k B" if "prefix A B" "k \<le> length A" for A B :: "log_entry list"
    using that by (auto simp: prefix_def)
  ultimately have "take k (take m F) = take k (take n G)"
    using k P(2) Q(2) by (metis length_take min.absorb2)
  with k show ?thesis by (simp add: min_def)
qed

text \<open>
  C2: in a cluster with static membership and log compaction off, if two nodes of a reachable state hold entries with
  the same index and term, their logs are identical up to that index.
\<close>

theorem log_matching:
  assumes "finite V" and "\<And>i. snapshot_threshold (cfg i) = 0" and "reachable M V cfg m0 s"
    and "entry_at (storage (nodes s i)) k = Some e" "entry_at (storage (nodes s j)) k = Some e'"
    and "entry_term e = entry_term e'" and "l \<le> k"
  shows "entry_at (storage (nodes s i)) l = entry_at (storage (nodes s j)) l"
proof -
  obtain h where h: "agreed (cluster_of M V m0) h s"
    using agreed_reachable [OF assms(3,1,2)] by blast
  note d = agreedD [OF h]
  let ?F = "log (storage (nodes s i))" and ?G = "log (storage (nodes s j))"
  have k: "0 < k" "k \<le> length ?F" "k \<le> length ?G" "entry_term (?F ! (k - 1)) = entry_term (?G ! (k - 1))"
    using assms(4-6) by (auto simp: plain_entry_at [OF d(4)] split: if_splits)
  then have "take k ?F = take k ?G"
    using coherent_matching [OF d(3) d(3), of "k - 1" i j] by simp
  with k assms(7) show ?thesis
    by (intro entry_at_take [OF d(4) d(4), of k]) simp_all
qed

text \<open>
  C3: in a cluster with static membership and log compaction off (\<open>snapshot_threshold = 0\<close> at every node), a leader
  holds every entry that any node of no later term has committed.
\<close>

theorem leader_completeness:
  assumes "finite V" and "\<And>i. snapshot_threshold (cfg i) = 0" and "reachable M V cfg m0 s"
    and "role (nodes s j) = Leader" and "term_of_node (nodes s i) \<le> term_of_node (nodes s j)"
    and "0 < k" and "k \<le> commit_index (nodes s i)"
  shows "\<exists>e. entry_at (storage (nodes s i)) k = Some e \<and> entry_at (storage (nodes s j)) k = Some e"
proof -
  obtain h where h: "agreed (cluster_of M V m0) h s"
    using agreed_reachable [OF assms(3,1,2)] by blast
  note d = agreedD [OF h]
  let ?F = "log (storage (nodes s i))" and ?G = "log (storage (nodes s j))" and ?c = "commit_index (nodes s i)"
  note l = leads_okD [OF d(6) [OF assms(4)]]
  have c: "?c \<le> length ?F" "committed_prefix V h (term_of_node (nodes s i)) (take ?c ?F)"
    using d(5) [of i] by (simp_all add: applied_ok_def)
  have "prefix (take ?c ?F) ?G"
    using committed_prefix_in_leader [OF d(1,2) _ l(1) assms(5)] c(2) l(2) by simp
  then have "take ?c ?G = take ?c ?F" "?c \<le> length ?G"
    using take_prefix_eq [OF _ c(1)] prefix_length_le c(1) by fastforce+
  with c(1) assms(6,7) entry_at_take [OF d(4) d(4), of ?c i j k] show ?thesis
    by (simp add: plain_entry_at [OF d(4)])
qed

text \<open>
  C4: in a cluster with static membership and log compaction off, whatever a node has committed at one point of a
  run, every node that commits the same index then or at any later point holds the same entry there: commits are
  never lost or changed. With compaction on this fails, which is shown in \<open>Raft_Snapshots\<close>.
\<close>

theorem commit_agreement:
  assumes "finite V" and "\<And>i. snapshot_threshold (cfg i) = 0" and "reachable M V cfg m0 s"
    and "(net_step M V cfg m0)\<^sup>*\<^sup>* s s'"
    and "0 < k" and "k \<le> commit_index (nodes s i)" and "k \<le> commit_index (nodes s' j)"
  shows "\<exists>e. entry_at (storage (nodes s i)) k = Some e \<and> entry_at (storage (nodes s' j)) k = Some e"
proof -
  obtain h where h: "agreed (cluster_of M V m0) h s"
    using agreed_reachable [OF assms(3,1,2)] by blast
  obtain h' where h': "agreed (cluster_of M V m0) h' s'"
      "\<forall>b P. committed_prefix V h b P \<longrightarrow> committed_prefix V h' b P"
    using agreed_run [OF assms(4) h assms(1,2)] by blast
  note d = agreedD [OF h] and d' = agreedD [OF h'(1)]
  let ?F = "log (storage (nodes s i))" and ?G = "log (storage (nodes s' j))"
  have c: "commit_index (nodes s i) \<le> length ?F"
      "committed_prefix V h' (term_of_node (nodes s i)) (take (commit_index (nodes s i)) ?F)"
    using d(5) [of i] h'(2) by (simp_all add: applied_ok_def)
  have c': "commit_index (nodes s' j) \<le> length ?G"
      "committed_prefix V h' (term_of_node (nodes s' j)) (take (commit_index (nodes s' j)) ?G)"
    using d'(5) [of j] by (simp_all add: applied_ok_def)
  have "take k ?F = take k ?G"
    using d'(1) assms(1) by (intro committed_take_eq [OF _ _ c(2,1) c'(2,1) assms(6,7)]) simp_all
  with c(1) c'(1) assms(5-7) entry_at_take [OF d(4) d'(4), of k i j k] show ?thesis
    by (simp add: plain_entry_at [OF d(4)] plain_entry_at [OF d'(4)])
qed

lemma applied_same:
  assumes "finite V" and "\<And>i. snapshot_threshold (cfg i) = 0" and "reachable M V cfg m0 s"
    and "last_applied (nodes s i) = last_applied (nodes s j)"
  shows "sm (nodes s i) = fold (\<lambda>e m. sm_apply M m e)
      (take (last_applied (nodes s i)) (log (storage (nodes s i)))) (m0 i) \<and>
    sm (nodes s j) = fold (\<lambda>e m. sm_apply M m e)
      (take (last_applied (nodes s i)) (log (storage (nodes s i)))) (m0 j)"
proof -
  obtain h where h: "agreed (cluster_of M V m0) h s"
    using agreed_reachable [OF assms(3,1,2)] by blast
  note d = agreedD [OF h]
  let ?L = "\<lambda>i. log (storage (nodes s i))" and ?c = "\<lambda>i. commit_index (nodes s i)"
  have app: "last_applied (nodes s i) = ?c i" "?c i \<le> length (?L i)"
      "committed_prefix V h (term_of_node (nodes s i)) (take (?c i) (?L i))"
      "sm (nodes s i) = fold (\<lambda>e m. sm_apply M m e) (take (?c i) (?L i)) (m0 i)" for i
    using d(5,7) [of i] by (simp_all add: applied_ok_def)
  have eq: "?c i = ?c j" using assms(4) app(1) by simp
  have "take (?c i) (?L i) = take (?c i) (?L j)"
    using d(1) assms(1) app(2) [of i] app(2) [of j] app(3) [of i] app(3) [of j] eq
    by (intro committed_take_eq [of V h "term_of_node (nodes s i)" "?c i" "?L i" "term_of_node (nodes s j)" "?c j" "?L j"]) simp_all
  with app(4) [of i] app(4) [of j] app(1) [of i] eq show ?thesis by simp
qed

text \<open>
  C5: in a cluster with static membership and log compaction off, two nodes that have applied the same number of
  entries have applied the same entries: the state machine of each is the fold of that one sequence over the state
  that node started from. So the two state machines are equal when the nodes started from equal ones.
\<close>

theorem state_machine_safety:
  assumes "finite V" and "\<And>i. snapshot_threshold (cfg i) = 0" and "reachable M V cfg m0 s"
    and "last_applied (nodes s i) = last_applied (nodes s j)"
  shows "sm (nodes s i) = fold (\<lambda>e m. sm_apply M m e)
      (take (last_applied (nodes s i)) (log (storage (nodes s i)))) (m0 i) \<and>
    sm (nodes s j) = fold (\<lambda>e m. sm_apply M m e)
      (take (last_applied (nodes s i)) (log (storage (nodes s i)))) (m0 j) \<and>
    (m0 i = m0 j \<longrightarrow> sm (nodes s i) = sm (nodes s j))"
  using applied_same [OF assms] by simp

text \<open>
  C6: in a cluster with static membership and log compaction off, neither \<open>expect\<close> of the engine fails: on every message
  in flight and on every client proposal that is not a membership change, an index that is committed has its entry
  in the log to be applied, and a snapshot chunk finds its buffer. Terms, indexes and counters are unbounded here, so
  the theorem says nothing about the panic on an overflow of \<open>u64\<close>.
\<close>

theorem expects_hold:
  assumes "finite V" and "\<And>i. snapshot_threshold (cfg i) = 0" and "reachable M V cfg m0 s"
  shows "((src, i, m) \<in> soup s \<longrightarrow> on_message M now src m (run_ctx (nodes s i) r) \<noteq> None) \<and>
    (\<not> is_config_change p \<longrightarrow> propose M p (run_ctx (nodes s i) r) \<noteq> None)"
proof -
  obtain h where h: "agreed (cluster_of M V m0) h s"
    using agreed_reachable [OF assms(3,1,2)] by blast
  have msg: "sound_msg (cluster_of M V m0) h src i m" if "(src, i, m) \<in> soup s"
    using h that by (simp add: agreed_def)
  show ?thesis
    using reaches_on_message [OF sound_run [OF h, of i r] msg, where now = now]
      reaches_propose [OF sound_run [OF h, of i r], of p]
    by auto
qed

subsection \<open>A run that commits\<close>

text \<open>The run of \<open>demo_net\<close> continued: the leader's first entry is replicated, committed and learnt.\<close>

definition demo_entry :: log_entry where
  "demo_entry = \<lparr>entry_term = 1, entry_index = 1, payload = Noop\<rparr>"

definition demo_ack :: "counting_sm ctx option" where
  "demo_ack = on_message counting_ops monotonic_zero (NodeId 1) (AppendEntries 1 (NodeId 1) 0 0 [demo_entry] 0)
     (run_ctx (node (the demo_grant)) demo_seed)"

definition demo_commit :: "counting_sm ctx option" where
  "demo_commit = on_message counting_ops monotonic_zero (NodeId 2) (AppendEntriesResp 1 True 1)
     (run_ctx (node (the demo_win)) demo_seed)"

definition demo_beat :: "counting_sm ctx" where
  "demo_beat = on_timer monotonic_zero HEARTBEAT (run_ctx (node (the demo_commit)) demo_seed)"

definition demo_learn :: "counting_sm ctx option" where
  "demo_learn = on_message counting_ops monotonic_zero (NodeId 1) (AppendEntries 1 (NodeId 1) 1 1 [] 1)
     (run_ctx (node (the demo_ack)) demo_seed)"

definition demo_committed :: "counting_sm net" where
  "demo_committed = settle (NodeId 1) (the demo_commit) (settle (NodeId 2) (the demo_ack) demo_net)"

definition demo_agreed :: "counting_sm net" where
  "demo_agreed = settle (NodeId 2) (the demo_learn) (settle (NodeId 1) demo_beat demo_committed)"

lemma demo_win_sends:
  "map_option (\<lambda>c. sends (out c)) demo_win =
     Some [(NodeId 2, AppendEntries 1 (NodeId 1) 0 0 [demo_entry] 0),
           (NodeId 3, AppendEntries 1 (NodeId 1) 0 0 [demo_entry] 0)]"
  by code_simp

lemma demo_ack_sends: "map_option (\<lambda>c. sends (out c)) demo_ack = Some [(NodeId 1, AppendEntriesResp 1 True 1)]"
  by code_simp

lemma demo_commit_state:
  "map_option (\<lambda>c. (commit_index (node c), last_applied (node c), role (node c))) demo_commit = Some (1, 1, Leader)"
  by code_simp

lemma demo_beat_state:
  "(commit_index (node demo_beat), last_applied (node demo_beat), role (node demo_beat), term_of_node (node demo_beat),
    entry_at (storage (node demo_beat)) 1) = (1, 1, Leader, 1, Some demo_entry)"
  by code_simp

lemma demo_beat_sends: "(NodeId 2, AppendEntries 1 (NodeId 1) 1 1 [] 1) \<in> set (sends (out demo_beat))"
  by code_simp

lemma demo_learn_state:
  "map_option (\<lambda>c. (commit_index (node c), last_applied (node c), term_of_node (node c),
      entry_at (storage (node c)) 1)) demo_learn = Some (1, 1, 1, Some demo_entry)"
  by code_simp
abbreviation demo_step :: "counting_sm net \<Rightarrow> counting_sm net \<Rightarrow> bool" where
  "demo_step \<equiv> net_step counting_ops demo_voters demo_cfg (\<lambda>_. counting_sm_new)"

lemma demo_delivery:
  assumes "(src, i, m) \<in> soup s" and "on_message counting_ops monotonic_zero src m (run_ctx n demo_seed) = r"
    and "map_option f r = Some v" and "nodes s i = n"
  shows "demo_step s (settle i (the r) s)"
proof -
  from assms(3) obtain c where "r = Some c" by auto
  with assms net_step.deliver [of src i m s counting_ops monotonic_zero demo_seed c] show ?thesis by simp
qed

lemma settle_sel:
  "nodes (settle i c s) = (nodes s)(i := node c)"
  "soup (settle i c s) = soup s \<union> (\<lambda>(d, m). (i, d, m)) ` set (sends (out c))"
  by (simp_all add: settle_def Let_def)

lemma demo_net_nodes:
  "nodes demo_net (NodeId 1) = node (the demo_win)" "nodes demo_net (NodeId 2) = node (the demo_grant)"
  by (simp_all add: demo_net_def settle_sel)

lemma demo_net_soup: "(NodeId 1, NodeId 2, AppendEntries 1 (NodeId 1) 0 0 [demo_entry] 0) \<in> soup demo_net"
proof -
  obtain w where w: "demo_win = Some w" and "sends (out w) =
      [(NodeId 2, AppendEntries 1 (NodeId 1) 0 0 [demo_entry] 0), (NodeId 3, AppendEntries 1 (NodeId 1) 0 0 [demo_entry] 0)]"
    using demo_win_sends by auto
  then show ?thesis unfolding demo_net_def w by (simp add: settle_sel)
qed

lemma demo_run: "demo_step\<^sup>*\<^sup>* demo_net demo_committed" "demo_step\<^sup>*\<^sup>* demo_committed demo_agreed"
proof -
  let ?s1 = "settle (NodeId 2) (the demo_ack) demo_net" and ?s3 = "settle (NodeId 1) demo_beat demo_committed"
  obtain a where a: "demo_ack = Some a" "sends (out a) = [(NodeId 1, AppendEntriesResp 1 True 1)]"
    using demo_ack_sends by auto
  have "demo_step demo_net ?s1"
    by (rule demo_delivery [OF demo_net_soup demo_ack_def [symmetric] demo_ack_sends demo_net_nodes(2)])
  moreover have "demo_step ?s1 demo_committed"
    unfolding demo_committed_def
    by (rule demo_delivery [OF _ demo_commit_def [symmetric] demo_commit_state])
      (unfold a(1), simp_all add: settle_sel a(2) demo_net_nodes del: One_nat_def)
  ultimately show "demo_step\<^sup>*\<^sup>* demo_net demo_committed" by (meson r_into_rtranclp rtranclp_trans)
  have n1: "nodes demo_committed (NodeId 1) = node (the demo_commit)"
    by (simp add: demo_committed_def settle_sel)
  have "demo_step demo_committed ?s3"
    unfolding demo_beat_def n1 [symmetric] by (rule net_step.timer)
  moreover have "demo_step ?s3 demo_agreed"
    unfolding demo_agreed_def
  proof (rule demo_delivery [OF _ demo_learn_def [symmetric] demo_learn_state])
    show "(NodeId 1, NodeId 2, AppendEntries 1 (NodeId 1) 1 1 [] 1) \<in> soup ?s3"
      using demo_beat_sends by (force simp: settle_sel)
    show "nodes ?s3 (NodeId 2) = node (the demo_ack)"
      by (simp add: settle_sel demo_committed_def)
  qed
  ultimately show "demo_step\<^sup>*\<^sup>* demo_committed demo_agreed" by (meson r_into_rtranclp rtranclp_trans)
qed

lemma reachable_run:
  "(net_step M V cfg m0)\<^sup>*\<^sup>* s s' \<Longrightarrow> reachable M V cfg m0 s \<Longrightarrow> reachable M V cfg m0 s'"
  by (induction rule: rtranclp_induct) (auto intro: reachable.step)

lemma demo_agreed_reachable:
  "reachable counting_ops demo_voters demo_cfg (\<lambda>_. counting_sm_new) demo_committed"
  "reachable counting_ops demo_voters demo_cfg (\<lambda>_. counting_sm_new) demo_agreed"
  using reachable_run [OF demo_run(1) demo_reachable] reachable_run [OF demo_run(2)] by blast+

lemma demo_setting: "finite demo_voters" "snapshot_threshold (demo_cfg i) = 0"
  by (simp_all add: demo_voters_def demo_cfg_def raft_config_default_def DEFAULT_SNAPSHOT_THRESHOLD_def)

lemma demo_agreed_nodes:
  "nodes demo_agreed (NodeId 1) = node demo_beat" "nodes demo_agreed (NodeId 2) = node (the demo_learn)"
  "nodes demo_committed (NodeId 1) = node (the demo_commit)"
  by (simp_all add: demo_agreed_def demo_committed_def settle_sel)

lemma demo_learn_fields:
  "commit_index (node (the demo_learn)) = 1" "last_applied (node (the demo_learn)) = 1"
  "term_of_node (node (the demo_learn)) = 1" "entry_at (storage (node (the demo_learn))) 1 = Some demo_entry"
proof -
  obtain z where z: "demo_learn = Some z" and "commit_index (node z) = 1" "last_applied (node z) = 1"
      "term_of_node (node z) = 1" "entry_at (storage (node z)) 1 = Some demo_entry"
    using demo_learn_state by auto
  then show "commit_index (node (the demo_learn)) = 1" "last_applied (node (the demo_learn)) = 1"
    "term_of_node (node (the demo_learn)) = 1" "entry_at (storage (node (the demo_learn))) 1 = Some demo_entry"
    unfolding z by simp_all
qed

theorem log_matching_witness:
  "entry_at (storage (nodes demo_agreed (NodeId 1))) 1 = entry_at (storage (nodes demo_agreed (NodeId 2))) 1 \<and>
   entry_at (storage (nodes demo_agreed (NodeId 1))) 1 = Some demo_entry"
  using log_matching [OF demo_setting demo_agreed_reachable(2), of "NodeId 1" 1 demo_entry "NodeId 2" demo_entry 1]
    demo_beat_state demo_learn_fields
  by (simp add: demo_agreed_nodes del: One_nat_def)

theorem leader_completeness_witness:
  "role (nodes demo_agreed (NodeId 1)) = Leader \<and> 1 \<le> commit_index (nodes demo_agreed (NodeId 2)) \<and>
   (\<exists>e. entry_at (storage (nodes demo_agreed (NodeId 2))) 1 = Some e \<and>
        entry_at (storage (nodes demo_agreed (NodeId 1))) 1 = Some e)"
  using leader_completeness [OF demo_setting demo_agreed_reachable(2), of "NodeId 1" "NodeId 2" 1]
    demo_beat_state demo_learn_fields
  by (simp add: demo_agreed_nodes del: One_nat_def)

theorem commit_agreement_witness:
  "demo_step\<^sup>*\<^sup>* demo_committed demo_agreed \<and> 1 \<le> commit_index (nodes demo_committed (NodeId 1)) \<and>
   (\<exists>e. entry_at (storage (nodes demo_committed (NodeId 1))) 1 = Some e \<and>
        entry_at (storage (nodes demo_agreed (NodeId 2))) 1 = Some e)"
proof -
  obtain z where z: "demo_commit = Some z" and "commit_index (node z) = 1"
    using demo_commit_state by auto
  then have c: "commit_index (node (the demo_commit)) = 1" unfolding z by simp
  show ?thesis
    using commit_agreement [OF demo_setting demo_agreed_reachable(1) demo_run(2), of 1 "NodeId 1" "NodeId 2"]
      demo_run(2) c demo_learn_fields
    by (simp add: demo_agreed_nodes del: One_nat_def)
qed

theorem state_machine_safety_witness:
  "last_applied (nodes demo_agreed (NodeId 1)) = 1 \<and> last_applied (nodes demo_agreed (NodeId 2)) = 1 \<and>
   sm (nodes demo_agreed (NodeId 1)) = sm (nodes demo_agreed (NodeId 2))"
  using state_machine_safety [OF demo_setting demo_agreed_reachable(2), of "NodeId 1" "NodeId 2"]
    demo_beat_state demo_learn_fields
  by (simp add: demo_agreed_nodes del: One_nat_def)

theorem expects_hold_witness:
  "(NodeId 1, NodeId 2, AppendEntries 1 (NodeId 1) 0 0 [demo_entry] 0) \<in> soup demo_net \<and>
   on_message counting_ops monotonic_zero (NodeId 1) (AppendEntries 1 (NodeId 1) 0 0 [demo_entry] 0)
     (run_ctx (nodes demo_net (NodeId 2)) demo_seed) \<noteq> None"
  using expects_hold [OF demo_setting demo_reachable, of "NodeId 1" "NodeId 2"
      "AppendEntries 1 (NodeId 1) 0 0 [demo_entry] 0" monotonic_zero demo_seed] demo_net_soup
  by blast

end
