(* ===== verification/Raft_Handlers.thy ===== *)
theory Raft_Handlers
  imports Raft_Consensus
begin

text \<open>
  Properties of single handlers that hold for any membership and with compaction on: leader
  stickiness, check-quorum, membership changes, snapshot transfer and compaction; and the behaviour
  of \<open>AppendEntries\<close> on a compacted log.
\<close>

subsection \<open>Leader stickiness\<close>

lemma fresh_after_accept:
  "leader_is_fresh later (node (accept_leader now l c)) \<longleftrightarrow>
     saturating_duration_since later now < election_timeout_base (config (node c))"
  by (simp add: leader_is_fresh_def accept_leader_def Let_def arm_election_timer_eq step_down_to_follower_def
      min_election_timeout_def)

lemma vote_request_refused:
  assumes "leader_is_fresh now (node c)" and "pre_vote (config (node c))"
  shows "on_message M now src (RequestVote t cand li lt) c =
      Some (emit cand (RequestVoteResp (term_of_node (node c)) False) c)"
    and "on_message M now src (PreVote t cand li lt) c = Some (emit cand (PreVoteResp t False) c)"
  using assms by (simp_all add: on_request_vote_def on_pre_vote_def Let_def)

text \<open>The freshness mark survives everything an \<open>AppendEntries\<close> does after the leader is accepted.\<close>

lemma commit_to_frame:
  "commit_to M k c = Some c' \<Longrightarrow>
     last_leader_contact (node c') = last_leader_contact (node c) \<and> config (node c') = config (node c)"
  by (auto simp: commit_to_def apply_committed_def maybe_compact_def Let_def
      dest!: apply_loop_frame split: option.splits if_splits)

lemma on_append_entries_contact:
  assumes "on_append_entries M now t l pi pt es lc c = Some c'" and "term_of_node (node c) \<le> t"
  shows "last_leader_contact (node c') = Some now" "config (node c') = config (node c)"
proof -
  define c1 where "c1 = snd (observe_term t c)"
  define c2 where "c2 = accept_leader now l c1"
  have cfg: "config (node c1) = config (node c)"
    by (simp add: c1_def observe_term_def Let_def arm_election_timer_eq)
  have c2: "last_leader_contact (node c2) = Some now" "config (node c2) = config (node c)"
    using cfg by (simp_all add: c2_def accept_leader_def Let_def arm_election_timer_eq step_down_to_follower_def)
  have cur: "\<not> t < term_of_node (node c1)"
    using assms(2) by (simp add: c1_def observe_term_def Let_def arm_election_timer_eq storage_defs)
  obtain st tr ap where rec: "reconcile_log term_at truncate_from append_entries pi es (storage (node c2)) = (st, tr, ap)"
    by (metis prod_cases3)
  define n2 where "n2 = (if tr \<or> ap then recompute_config_from_log ((node c2)\<lparr>storage := st\<rparr>)
    else (node c2)\<lparr>storage := st\<rparr>)"
  have n2: "last_leader_contact n2 = Some now" "config n2 = config (node c)"
    using c2 by (simp_all add: n2_def recompute_config_from_log_def split_beta)
  have "last_leader_contact (node c') = Some now \<and> config (node c') = config (node c)"
  proof (cases "term_at (storage (node c2)) pi = pt")
    case True
    note acc = on_append_entries_accept [OF c1_def c2_def cur True rec n2_def, of M lc]
    show ?thesis
      using assms(1) n2 unfolding acc by (auto split: option.splits if_splits dest!: commit_to_frame)
  next
    case False
    then have "c' = emit l (AppendEntriesResp (term_of_node (node c1)) False (last_log_index (storage (node c2)))) c2"
      using assms(1) cur by (simp add: on_append_entries_def Let_def c1_def c2_def)
    with c2 show ?thesis by simp
  qed
  then show "last_leader_contact (node c') = Some now" "config (node c') = config (node c)" by simp_all
qed

text \<open>
  C7: a node with pre-vote on that has accepted an \<open>AppendEntries\<close> of its term or a later one refuses every vote and
  pre-vote request, whatever its term, for one election timeout, without any change to its term, ballot, role,
  log or timers.
\<close>

theorem leader_stickiness:
  assumes "on_message M now src (AppendEntries t l pi pt es lc) c = Some c1" and "term_of_node (node c) \<le> t"
    and "pre_vote (config (node c))"
    and "saturating_duration_since later now < election_timeout_base (config (node c))"
  shows "on_message M later v (RequestVote u cand li lt) (run_ctx (node c1) r) =
           Some (emit cand (RequestVoteResp (term_of_node (node c1)) False) (run_ctx (node c1) r)) \<and>
         on_message M later v (PreVote u cand li lt) (run_ctx (node c1) r) =
           Some (emit cand (PreVoteResp u False) (run_ctx (node c1) r))"
proof -
  have "on_append_entries M now t l pi pt es lc c = Some c1"
    using assms(1) by simp
  note f = on_append_entries_contact [OF this assms(2)]
  have "leader_is_fresh later (node (run_ctx (node c1) r))" "pre_vote (config (node (run_ctx (node c1) r)))"
    using assms(3,4) f by (simp_all add: leader_is_fresh_def min_election_timeout_def run_ctx_def)
  from vote_request_refused [OF this] show ?thesis
    by (simp add: run_ctx_def)
qed

definition sticky_accept :: "counting_sm ctx option" where
  "sticky_accept = on_message counting_ops monotonic_zero (NodeId 1) (AppendEntries 1 (NodeId 1) 0 0 [] 0)
     (run_ctx (with_state_machine counting_ops (NodeId 2) demo_voters mem_storage_new raft_config_default counting_sm_new)
        demo_seed)"

theorem leader_stickiness_witness:
  "\<exists>c1. sticky_accept = Some c1 \<and>
     on_message counting_ops monotonic_zero (NodeId 3) (RequestVote 5 (NodeId 3) 0 0) (run_ctx (node c1) demo_seed) =
       Some (emit (NodeId 3) (RequestVoteResp (term_of_node (node c1)) False) (run_ctx (node c1) demo_seed))"
proof -
  let ?n = "with_state_machine counting_ops (NodeId 2) demo_voters mem_storage_new raft_config_default counting_sm_new"
  have "sticky_accept \<noteq> None" by code_simp
  then obtain c1 where c1: "sticky_accept = Some c1" by blast
  have "term_of_node (node (run_ctx ?n demo_seed)) \<le> 1" "pre_vote (config (node (run_ctx ?n demo_seed)))"
    "saturating_duration_since monotonic_zero monotonic_zero < election_timeout_base (config (node (run_ctx ?n demo_seed)))"
    by code_simp+
  from leader_stickiness [OF c1 [unfolded sticky_accept_def] this] c1 show ?thesis by blast
qed

subsection \<open>Check-quorum\<close>

lemma has_quorum_contact_majority:
  assumes "finite (voters n)"
  shows "has_quorum_contact now n \<longleftrightarrow>
    majority (voters n) (insert (node_id_of n)
      {v. \<exists>t. quorum_contact n v = Some t \<and> saturating_duration_since now t < min_election_timeout n})"
proof -
  let ?i = "node_id_of n"
  let ?F = "{v. \<exists>t. quorum_contact n v = Some t \<and> saturating_duration_since now t < min_election_timeout n}"
  let ?S = "if ?i \<in> voters n then {?i} else {}" and ?T = "{v \<in> voters n. v \<noteq> ?i \<and> v \<in> ?F}"
  have "insert ?i ?F \<inter> voters n = ?S \<union> ?T" by auto
  moreover have "card (?S \<union> ?T) = card ?S + card ?T"
    using assms by (intro card_Un_disjoint) auto
  moreover have "length (filter (\<lambda>v. v \<noteq> ?i \<and> (case quorum_contact n v of
        Some t \<Rightarrow> saturating_duration_since now t < min_election_timeout n | None \<Rightarrow> False)) (btree_iter (voters n))) = card ?T"
    using assms by (subst length_filter_btree_iter) (auto intro!: arg_cong [of _ _ card] split: option.splits)
  ultimately show ?thesis
    by (simp add: has_quorum_contact_def Let_def majority_def)
qed

lemma broadcast_role [simp]: "role (node (broadcast_heartbeat c)) = role (node c)"
  unfolding broadcast_heartbeat_def
  by (rule fold_invariant_set [where P = "\<lambda>c'. role (node c') = role (node c)"]) simp_all

text \<open>
  C8: on its heartbeat tick a check-quorum leader stays leader exactly when it and the voters it heard from
  within one election timeout form a majority; otherwise it steps down without sending anything.
\<close>

theorem check_quorum_lease:
  assumes "role (node c) = Leader" and "check_quorum (config (node c))" and "finite (voters (node c))"
  shows "(role (node (on_timer now HEARTBEAT c)) = Leader \<longleftrightarrow>
      majority (voters (node c)) (insert (node_id_of (node c))
        {v. \<exists>t. quorum_contact (node c) v = Some t \<and>
               saturating_duration_since now t < election_timeout_base (config (node c))})) \<and>
    (role (node (on_timer now HEARTBEAT c)) \<noteq> Leader \<longrightarrow>
      role (node (on_timer now HEARTBEAT c)) = Follower \<and> sends (out (on_timer now HEARTBEAT c)) = sends (out c))"
  using assms has_quorum_contact_majority [OF assms(3), of now]
  by (auto simp: on_timer_def HEARTBEAT_def ELECTION_TIMEOUT_def on_heartbeat_timer_def Let_def arm_election_timer_eq
      step_down_to_follower_def effect_simps min_election_timeout_def)

theorem check_quorum_lease_witness:
  "role (node (the demo_win)) = Leader \<and>
   (role (node (on_timer monotonic_zero HEARTBEAT (run_ctx (node (the demo_win)) demo_seed))) = Leader \<longleftrightarrow>
      majority (voters (node (the demo_win))) (insert (NodeId 1)
        {v. \<exists>t. quorum_contact (node (the demo_win)) v = Some t \<and>
               saturating_duration_since monotonic_zero t < election_timeout_base (config (node (the demo_win)))}))"
proof -
  let ?c = "run_ctx (node (the demo_win)) demo_seed"
  have h: "role (node ?c) = Leader" "check_quorum (config (node ?c))" "node_id_of (node ?c) = NodeId 1"
    by code_simp+
  have "voters (node ?c) = demo_voters" by code_simp
  then have "finite (voters (node ?c))" by (simp add: demo_voters_def)
  from check_quorum_lease [OF h(1,2) this, of monotonic_zero] h show ?thesis
    by (simp add: run_ctx_def)
qed

subsection \<open>Membership changes\<close>

lemma delta_one_server_apart: "one_server_apart (fst B) (fst (apply_membership_delta ch B))"
  by (cases B; cases ch) (auto simp: one_server_apart_def)

lemma voters_send_append [simp]: "voters (node (send_append_entries_to p c)) = voters (node c)"
  using send_append_entries_node [of p c] by auto

lemma voters_broadcast [simp]: "voters (node (broadcast_heartbeat c)) = voters (node c)"
  unfolding broadcast_heartbeat_def
  by (rule fold_invariant_set [where P = "\<lambda>c'. voters (node c') = voters (node c)"]) simp_all

lemma voters_maybe_advance: "maybe_advance_commit M c = Some c' \<Longrightarrow> voters (node c') = voters (node c)"
  by (auto simp: maybe_advance_commit_def commit_to_def apply_committed_def maybe_compact_def Let_def
      arm_election_timer_now_def step_down_to_follower_def dest!: apply_loop_frame split: option.splits if_splits)

lemma seed_peer_frame [simp]: "voters (fold (seed_peer k) ps n) = voters n"
  by (induction ps arbitrary: n) (simp_all add: seed_peer_def)

text \<open>The configuration in force is the one the log implies.\<close>

definition config_current :: "'m raft_node \<Rightarrow> bool" where
  "config_current n \<longleftrightarrow>
     wf_storage (storage n) \<and> (voters n, learners n) = fold replay_entry (log (storage n)) (config_baseline n)"

lemma recompute_appended:
  assumes "config_current n" and "0 < term_of_node n"
    and e: "e = \<lparr>entry_term = term_of_node n, entry_index = last_log_index (storage n) + 1, payload = ConfigChange ch\<rparr>"
  shows "voters (recompute_config_from_log (n\<lparr>storage := append_entry e (storage n)\<rparr>)) =
    fst (apply_membership_delta ch (voters n, learners n))"
proof -
  have wf: "wf_storage (storage n)" using assms(1) by (simp add: config_current_def)
  have eq: "append_entry e (storage n) = append_entries [e] (storage n)"
    by (simp add: append_entry_def append_entries_def)
  have "wf_storage (append_entry e (storage n))"
    unfolding eq using wf assms(2) by (intro wf_append_entries) (simp_all add: e)
  from mem.replay_all [OF this, of "config_baseline n"] show ?thesis
    using assms(1)
    by (simp add: recompute_config_from_log_def split_beta config_current_def replay_entry_def e flip: log_start_index_def)
qed

text \<open>
  C9: a membership change is refused while another one is uncommitted in the leader's log, and an accepted
  one changes the voter set by at most one server, so every majority before and every majority after it share
  a voter.
\<close>

theorem membership_change_overlap:
  assumes "config_current (node c)" and "finite (voters (node c))" and "0 < term_of_node (node c)"
    and "mem_base (storage (node c)) \<le> commit_index (node c)"
    and "propose_membership_change M ch c = Some (Some idx, c')"
  shows "(\<forall>e \<in> set (drop (commit_index (node c) - mem_base (storage (node c))) (log (storage (node c)))).
           \<not> is_config_change (payload e)) \<and>
    (\<forall>P Q. majority (voters (node c)) P \<longrightarrow> majority (voters (node c')) Q \<longrightarrow> P \<inter> Q \<noteq> {})"
proof -
  let ?n = "node c"
  have wf: "wf_storage (storage ?n)" using assms(1) by (simp add: config_current_def)
  have cc: "is_config_change (ConfigChange ch)" by (simp add: is_config_change_def)
  have res: "propose M (ConfigChange ch) c = Some (Some idx, c')"
    using assms(5) by (simp add: propose_membership_change_def)
  then have lead: "role ?n = Leader" and free: "\<not> membership_change_in_flight ?n"
    using cc by (auto simp: propose_def Let_def split: if_splits)
  have quiet: "\<forall>e \<in> set (drop (commit_index ?n - mem_base (storage ?n)) (log (storage ?n))). \<not> is_config_change (payload e)"
    using free mem.change_in_range_iff [OF wf assms(4)] by (simp add: membership_change_in_flight_def)
  define e where "e = \<lparr>entry_term = term_of_node ?n, entry_index = last_log_index (storage ?n) + 1,
      payload = ConfigChange ch\<rparr>"
  define n' where "n' = recompute_config_from_log (?n\<lparr>storage := append_entry e (storage ?n)\<rparr>)"
  define n2 where "n2 = fold (seed_peer (last_log_index (storage n') + 1)) (replication_peers n') n'"
  have "maybe_advance_commit M (broadcast_heartbeat (c\<lparr>node := n2\<rparr>)) = Some c'"
    using res lead free cc
    by (auto simp: propose_def Let_def n2_def n'_def e_def split: if_splits)
  then have "voters (node c') = voters n'"
    by (simp add: voters_maybe_advance n2_def)
  also have "\<dots> = fst (apply_membership_delta ch (voters ?n, learners ?n))"
    unfolding n'_def by (rule recompute_appended [OF assms(1,3) e_def])
  finally have "one_server_apart (voters ?n) (voters (node c'))"
    using delta_one_server_apart [of "(voters ?n, learners ?n)" ch] by simp
  with maj.adjacent_intersect [OF assms(2)] quiet show ?thesis by blast
qed

definition demo_join :: "(nat option \<times> counting_sm ctx) option" where
  "demo_join = propose_membership_change counting_ops (AddVoter (NodeId 4)) (run_ctx (node (the demo_win)) demo_seed)"

theorem membership_change_overlap_witness:
  "\<exists>c'. demo_join = Some (Some 2, c') \<and> voters (node c') = {NodeId 1, NodeId 2, NodeId 3, NodeId 4} \<and>
     (\<forall>P Q. majority (voters (node (the demo_win))) P \<longrightarrow> majority (voters (node c')) Q \<longrightarrow> P \<inter> Q \<noteq> {})"
proof -
  let ?c = "run_ctx (node (the demo_win)) demo_seed"
  have "map_option (\<lambda>(i, c'). (i, voters (node c'))) demo_join = Some (Some 2, {NodeId 1, NodeId 2, NodeId 3, NodeId 4})"
    by code_simp
  then obtain c' where c': "demo_join = Some (Some 2, c')" "voters (node c') = {NodeId 1, NodeId 2, NodeId 3, NodeId 4}"
    by auto
  have v: "voters (node ?c) = demo_voters" by code_simp
  then have fin: "finite (voters (node ?c))" by (simp add: demo_voters_def)
  have "config_current (node ?c)" by code_simp
  moreover have "0 < term_of_node (node ?c)" "mem_base (storage (node ?c)) \<le> commit_index (node ?c)" by code_simp+
  ultimately have "\<forall>P Q. majority (voters (node ?c)) P \<longrightarrow> majority (voters (node c')) Q \<longrightarrow> P \<inter> Q \<noteq> {}"
    using membership_change_overlap [OF _ fin _ _ c'(1) [unfolded demo_join_def]] by blast
  with c' show ?thesis unfolding run_ctx_def by auto
qed

subsection \<open>Changes by successive leaders\<close>

definition four_voters :: "node_id set" where
  "four_voters = {NodeId 1, NodeId 2, NodeId 3, NodeId 4}"

definition four_node :: "node_id \<Rightarrow> counting_sm raft_node" where
  "four_node i = with_state_machine counting_ops i four_voters mem_storage_new (demo_cfg i) counting_sm_new"

definition hear :: "node_id \<Rightarrow> raft_msg \<Rightarrow> counting_sm raft_node \<Rightarrow> counting_sm raft_node option" where
  "hear i m n = map_option node (on_message counting_ops monotonic_zero i m (run_ctx n demo_seed))"

definition campaign_with :: "nat \<Rightarrow> node_id \<Rightarrow> node_id \<Rightarrow> counting_sm raft_node \<Rightarrow> counting_sm raft_node option" where
  "campaign_with t i j n =
     Option.bind (hear i (RequestVoteResp t True)
       (node (on_timer monotonic_zero ELECTION_TIMEOUT (run_ctx n demo_seed)))) (hear j (RequestVoteResp t True))"

definition change_by :: "membership_change \<Rightarrow> counting_sm raft_node \<Rightarrow> (nat option \<times> counting_sm raft_node) option" where
  "change_by ch n = map_option (map_prod id node) (propose_membership_change counting_ops ch (run_ctx n demo_seed))"

definition first_change :: "(nat option \<times> counting_sm raft_node) option" where
  "first_change = Option.bind (campaign_with 1 (NodeId 2) (NodeId 3) (four_node (NodeId 1))) (change_by (AddVoter (NodeId 5)))"

definition second_change :: "(nat option \<times> counting_sm raft_node) option" where
  "second_change =
     Option.bind (Option.bind (hear (NodeId 1) (RequestVote 1 (NodeId 1) 0 0) (four_node (NodeId 2)))
       (campaign_with 2 (NodeId 3) (NodeId 4))) (change_by (RemoveVoter (NodeId 1)))"

text \<open>
  C10: the two leaders of terms 1 and 2 of a four-voter cluster each have a membership change
  accepted on top of the same configuration, the second without the first in its log; the two configurations
  then in force have disjoint majorities. The one-change-in-flight guard looks at the leader's own log only and
  does not wait for an entry of the leader's term to commit.
\<close>

theorem successive_leaders_disjoint_majorities:
  "map_option (\<lambda>(i, n). (i, role n, term_of_node n, voters n)) first_change =
     Some (Some 2, Leader, 1, {NodeId 1, NodeId 2, NodeId 3, NodeId 4, NodeId 5}) \<and>
   map_option (\<lambda>(i, n). (i, role n, term_of_node n, voters n)) second_change =
     Some (Some 2, Leader, 2, {NodeId 2, NodeId 3, NodeId 4}) \<and>
   majority {NodeId 1, NodeId 2, NodeId 3, NodeId 4, NodeId 5} {NodeId 1, NodeId 4, NodeId 5} \<and>
   majority {NodeId 2, NodeId 3, NodeId 4} {NodeId 2, NodeId 3} \<and>
   {NodeId 1, NodeId 4, NodeId 5} \<inter> {NodeId 2, NodeId 3} = {}"
  by code_simp

end
