(* ===== verification/Raft_Snapshots.thy ===== *)
theory Raft_Snapshots
  imports Raft_Handlers
begin

text \<open>
  Snapshots: the chunked transfer from a leader to a follower, compaction on one node, and a
  restart from the compacted storage.  What the engine relies on of the replicated state machine is the
  locale \<open>snapshot_sm\<close>.
\<close>

subsection \<open>Chunked transfer\<close>

definition chunk_cap :: "'m raft_node \<Rightarrow> nat \<Rightarrow> nat" where
  "chunk_cap n len = (if snapshot_chunk_bytes (config n) = 0 then len else snapshot_chunk_bytes (config n))"

lemma send_chunk_message:
  assumes "load_snapshot (storage (node c)) = Some (meta, d)" and "off \<le> length d"
  shows "\<exists>vs ls. sends (out (send_snapshot_chunk_to p off c)) = sends (out c) @
    [(p, InstallSnapshot (term_of_node (node c)) (node_id_of (node c)) (last_included_index meta)
           (last_included_term meta) off (take (chunk_cap (node c) (length d)) (drop off d))
           (length d \<le> off + chunk_cap (node c) (length d)) vs ls)] \<and>
    (vs, ls) = (case load_config_baseline (storage (node c)) of Some b \<Rightarrow> b | None \<Rightarrow> ({}, {}))"
proof -
  obtain vs ls where b: "(case load_config_baseline (storage (node c)) of Some b \<Rightarrow> b | None \<Rightarrow> ({}, {})) = (vs, ls)"
    by fastforce
  have "take (min (off + chunk_cap (node c) (length d)) (length d) - off) (drop off d) =
      take (chunk_cap (node c) (length d)) (drop off d)"
    using assms(2) by (auto simp: min_def)
  then show ?thesis
    using assms b
    by (simp add: send_snapshot_chunk_to_def Let_def emit_def effect_simps chunk_cap_def [symmetric])
qed

text \<open>One round: the follower holds what came before and receives the chunk at its own offset.\<close>

lemma receive_chunk_step:
  assumes "off = 0 \<or> buf = Some rx \<and> rx_last_included_index rx = idx \<and> rx_last_included_term rx = trm \<and>
      rx_data rx = take off d" and "off \<le> length d"
  shows "\<exists>rx'. receive_chunk idx trm off (take cap (drop off d)) vs ls buf = (True, Some rx') \<and>
    rx_last_included_index rx' = idx \<and> rx_last_included_term rx' = trm \<and> rx_data rx' = take (off + cap) d"
  using assms by (auto simp: receive_chunk_def min_def take_add)

text \<open>The receiver's side of a transfer in chunks of \<open>cap\<close> bytes, as the accumulated buffer after \<open>k\<close> chunks.\<close>

primrec assemble :: "nat \<Rightarrow> nat \<Rightarrow> nat \<Rightarrow> bytes \<Rightarrow> node_id set \<Rightarrow> node_id set \<Rightarrow> snapshot_rx option \<Rightarrow> nat \<Rightarrow>
    bool \<times> snapshot_rx option" where
  "assemble idx trm cap d vs ls buf 0 = (True, buf)"
| "assemble idx trm cap d vs ls buf (Suc k) =
     (let (ok, b) = assemble idx trm cap d vs ls buf k;
          (ok', b') = receive_chunk idx trm (k * cap) (take cap (drop (k * cap) d)) vs ls b
      in (ok \<and> ok', b'))"

lemma assemble_prefix:
  assumes "k * cap \<le> length d"
  shows "\<exists>rx. assemble idx trm cap d vs ls buf (Suc k) = (True, Some rx) \<and>
    rx_last_included_index rx = idx \<and> rx_last_included_term rx = trm \<and> rx_data rx = take (Suc k * cap) d"
  using assms
proof (induction k)
  case 0
  then show ?case
    using receive_chunk_step [of 0 buf undefined idx trm d cap vs ls] by auto
next
  case (Suc k)
  then obtain rx where rx: "assemble idx trm cap d vs ls buf (Suc k) = (True, Some rx)"
      "rx_last_included_index rx = idx" "rx_last_included_term rx = trm" "rx_data rx = take (Suc k * cap) d"
    by auto
  obtain rx' where "receive_chunk idx trm (Suc k * cap) (take cap (drop (Suc k * cap) d)) vs ls (Some rx) = (True, Some rx')"
      "rx_last_included_index rx' = idx" "rx_last_included_term rx' = trm" "rx_data rx' = take (Suc k * cap + cap) d"
    using receive_chunk_step [of "Suc k * cap" "Some rx" rx idx trm d cap vs ls] rx(2-4) Suc.prems by auto
  with rx(1) show ?case
    by (simp only: assemble.simps(2) [of idx trm cap d vs ls buf "Suc k"]) (simp add: add.commute add.left_commute)
qed

text \<open>
  C11: the chunks a leader sends of a snapshot, received in order into any buffer, are all accepted
  and reassemble exactly the snapshot; the \<open>done\<close> mark is on the first chunk that reaches the end and on no
  earlier one.
\<close>

theorem snapshot_reassembly:
  assumes "load_snapshot (storage (node c)) = Some (meta, d)" and "0 < chunk_cap (node c) (length d)"
    and "k * chunk_cap (node c) (length d) \<le> length d"
  shows "(\<exists>vs ls. sends (out (send_snapshot_chunk_to p (k * chunk_cap (node c) (length d)) c)) =
      sends (out c) @ [(p, InstallSnapshot (term_of_node (node c)) (node_id_of (node c)) (last_included_index meta)
           (last_included_term meta) (k * chunk_cap (node c) (length d))
           (take (chunk_cap (node c) (length d)) (drop (k * chunk_cap (node c) (length d)) d))
           (length d \<le> Suc k * chunk_cap (node c) (length d)) vs ls)]) \<and>
    (\<exists>rx. assemble (last_included_index meta) (last_included_term meta) (chunk_cap (node c) (length d)) d vs' ls' buf (Suc k) =
        (True, Some rx) \<and>
      (length d \<le> Suc k * chunk_cap (node c) (length d) \<longleftrightarrow> rx_data rx = d))"
proof -
  let ?cap = "chunk_cap (node c) (length d)"
  obtain rx where rx: "assemble (last_included_index meta) (last_included_term meta) ?cap d vs' ls' buf (Suc k) = (True, Some rx)"
      "rx_data rx = take (Suc k * ?cap) d"
    using assemble_prefix [OF assms(3)] by blast
  have "length d \<le> Suc k * ?cap \<longleftrightarrow> rx_data rx = d"
    unfolding rx(2) by (metis length_take min.cobounded1 take_all min.absorb_iff2 min.commute)
  with rx(1) send_chunk_message [OF assms(1,3), of p] show ?thesis
    by (auto simp: add.commute)
qed

subsection \<open>Compaction\<close>

text \<open>The storage after a compaction at the applied index.\<close>

definition compacted :: "'m sm_ops \<Rightarrow> 'm raft_node \<Rightarrow> mem_storage" where
  "compacted M n =
     compact_to (last_applied n)
       (save_snapshot \<lparr>last_included_index = last_applied n, last_included_term = term_at (storage n) (last_applied n)\<rparr>
          (sm_snapshot M (sm n)) (save_config_baseline (config_at (last_applied n) n) (storage n)))"

lemma maybe_compact_cases:
  obtains (keep) "maybe_compact M n = n"
  | (compact) "maybe_compact M n = n\<lparr>config_baseline := config_at (last_applied n) n, storage := compacted M n\<rparr>"
      "(case load_snapshot (storage n) of None \<Rightarrow> 0 | Some (meta, _) \<Rightarrow> last_included_index meta) < last_applied n"
proof -
  let ?b = "case load_snapshot (storage n) of None \<Rightarrow> 0 | Some (meta, _) \<Rightarrow> last_included_index meta"
  show thesis
  proof (cases "snapshot_threshold (config n) = 0 \<or> last_applied n \<le> ?b \<or>
      last_applied n - ?b \<le> snapshot_threshold (config n)")
    case True
    then have "maybe_compact M n = n" unfolding maybe_compact_def Let_def by (elim disjE) simp_all
    then show thesis by (rule keep)
  next
    case False
    then have "maybe_compact M n = n\<lparr>config_baseline := config_at (last_applied n) n, storage := compacted M n\<rparr>"
      unfolding maybe_compact_def Let_def compacted_def by (simp del: not_le)
    with False show thesis by (intro compact) simp_all
  qed
qed

lemma snapshot_index_base:
  "wf_storage s \<Longrightarrow> (case load_snapshot s of None \<Rightarrow> 0 | Some (meta, _) \<Rightarrow> last_included_index meta) = mem_base s"
  by (auto simp: wf_storage_def load_snapshot_def mem_base_def split: option.splits)

lemma compacted_storage:
  assumes wf: "wf_storage (storage n)" and lo: "mem_base (storage n) < last_applied n"
    and hi: "last_applied n \<le> last_log_index (storage n)"
  shows "wf_storage (compacted M n)" "mem_base (compacted M n) = last_applied n"
    and "mem_base_term (compacted M n) = term_at (storage n) (last_applied n)"
    and "log (compacted M n) = drop (last_applied n - mem_base (storage n)) (log (storage n))"
proof -
  let ?s = "storage n" and ?a = "last_applied n"
  let ?m = "\<lparr>last_included_index = ?a, last_included_term = term_at ?s ?a\<rparr>"
  let ?b = "save_config_baseline (config_at ?a n) ?s"
  have start: "mem_start ?b = mem_start ?s" "mem_base ?b = mem_base ?s"
    by (simp_all add: save_config_baseline_def mem_base_def)
  have ge: "mem_start ?s \<le> ?a" using lo by (simp add: mem_start_eq)
  have last: "last_log_index ?b = last_log_index ?s"
    by (simp add: save_config_baseline_def last_log_index_def)
  have "wf_storage (compact_to (last_included_index ?m) (save_snapshot ?m (sm_snapshot M (sm n)) ?b))"
    using wf start ge hi last by (intro wf_snapshot_compact) (simp_all add: save_config_baseline_def)
  then show "wf_storage (compacted M n)" by (simp add: compacted_def)
  have st: "mem_start (save_snapshot ?m d ?b) = mem_start ?s" for d
    by (simp add: save_snapshot_def start(1))
  have "\<not> ?a < mem_start ?s" "?a \<noteq> 0" using ge mem_start_pos [of ?s] by linarith+
  then have c: "compacted M n = (save_snapshot ?m (sm_snapshot M (sm n)) ?b)
      \<lparr>log := drop (min (?a - mem_start ?s + 1) (length (log ?s))) (log ?s), log_start := ?a + 1\<rparr>"
    unfolding compacted_def compact_to_def st by (simp add: save_snapshot_def save_config_baseline_def)
  show "mem_base (compacted M n) = ?a"
    by (simp add: c mem_base_def mem_start_def)
  show "mem_base_term (compacted M n) = term_at ?s ?a"
    by (simp add: c mem_base_term_def save_snapshot_def)
  have "?a - mem_start ?s + 1 = ?a - mem_base ?s" "?a - mem_base ?s \<le> length (log ?s)"
    using ge hi last_log_index_wf [OF wf] by (auto simp: mem_start_eq)
  then show "log (compacted M n) = drop (?a - mem_base ?s) (log ?s)"
    by (simp add: c)
qed

lemma compacted_reads:
  assumes wf: "wf_storage (storage n)" and lo: "mem_base (storage n) < last_applied n"
    and hi: "last_applied n \<le> last_log_index (storage n)"
  shows "last_log_index (compacted M n) = last_log_index (storage n)"
    and "last_applied n < i \<Longrightarrow> entry_at (compacted M n) i = entry_at (storage n) i"
    and "last_applied n \<le> i \<Longrightarrow> term_at (compacted M n) i = term_at (storage n) i"
proof -
  note c = compacted_storage [OF assms, of M]
  have len: "last_log_index (storage n) = mem_base (storage n) + length (log (storage n))"
    by (rule last_log_index_wf [OF wf])
  show "last_log_index (compacted M n) = last_log_index (storage n)"
    using last_log_index_wf [OF c(1)] lo hi len by (simp add: c)
  show e: "entry_at (compacted M n) i = entry_at (storage n) i" if "last_applied n < i" for i
  proof -
    have "last_applied n - mem_base (storage n) + (i - Suc (last_applied n)) = i - Suc (mem_base (storage n))"
      using that lo by linarith
    moreover have "(mem_base (compacted M n) < i \<and> i \<le> mem_base (compacted M n) + length (log (compacted M n))) =
        (mem_base (storage n) < i \<and> i \<le> mem_base (storage n) + length (log (storage n)))"
      using that lo hi len by (auto simp: c)
    ultimately show ?thesis
      using that lo hi len by (simp add: mem_entry_at mem_start_eq c(2,4))
  qed
  show "term_at (compacted M n) i = term_at (storage n) i" if "last_applied n \<le> i"
  proof (cases "i = last_applied n")
    case True
    then show ?thesis by (simp add: mem_term_at [OF c(1)] c(2,3))
  next
    case False
    with that have "last_applied n < i" by simp
    with e lo show ?thesis by (simp add: mem_term_at [OF c(1)] mem_term_at [OF wf] c(2))
  qed
qed

lemma config_at_replay:
  assumes "wf_storage (storage n)" and "mem_base (storage n) \<le> i" and "i \<le> last_log_index (storage n)"
  shows "config_at i n = fold replay_entry (take (i - mem_base (storage n)) (log (storage n))) (config_baseline n)"
  using mem.replay_prefix [OF assms(1), of "i - mem_base (storage n)" "config_baseline n"] assms last_log_index_wf [OF assms(1)]
  by (simp add: config_at_def min_absorb2)

text \<open>
  C12: compaction is invisible: the last index and term, every entry above and every term from the
  applied index on, the configuration in force at any such index and the one recomputed from the log are what they
  were before, and the storage stays well formed.
\<close>

theorem compaction_transparent:
  assumes "wf_storage (storage n)" and "mem_base (storage n) \<le> last_applied n"
    and "last_applied n \<le> last_log_index (storage n)" and "config_current n"
  shows "wf_storage (storage (maybe_compact M n)) \<and>
    last_log_index (storage (maybe_compact M n)) = last_log_index (storage n) \<and>
    (\<forall>i > last_applied n. entry_at (storage (maybe_compact M n)) i = entry_at (storage n) i) \<and>
    (\<forall>i \<ge> last_applied n. term_at (storage (maybe_compact M n)) i = term_at (storage n) i) \<and>
    (\<forall>i. last_applied n \<le> i \<and> i \<le> last_log_index (storage n) \<longrightarrow> config_at i (maybe_compact M n) = config_at i n) \<and>
    config_current (maybe_compact M n)"
proof (cases M n rule: maybe_compact_cases)
  case keep
  with assms show ?thesis by simp
next
  case compact
  let ?n = "maybe_compact M n" and ?a = "last_applied n" and ?b = "mem_base (storage n)"
  have lo: "?b < ?a"
    using compact(2) snapshot_index_base [OF assms(1)] by simp
  note c = compacted_storage [OF assms(1) lo assms(3), of M] and r = compacted_reads [where M = M, OF assms(1) lo assms(3)]
  have f: "storage ?n = compacted M n" "config_baseline ?n = config_at ?a n" "voters ?n = voters n" "learners ?n = learners n"
    by (simp_all add: compact(1))
  have base: "config_at ?a n = fold replay_entry (take (?a - ?b) (log (storage n))) (config_baseline n)"
    using lo assms by (intro config_at_replay) simp_all
  have cfg: "config_at i ?n = config_at i n" if "?a \<le> i" "i \<le> last_log_index (storage n)" for i
  proof -
    have "config_at i ?n = fold replay_entry (take (i - ?a) (drop (?a - ?b) (log (storage n)))) (config_at ?a n)"
      using that c(1,2) r(1) by (subst config_at_replay) (simp_all add: f c)
    moreover have "take (i - ?b) (log (storage n)) =
        take (?a - ?b) (log (storage n)) @ take (i - ?a) (drop (?a - ?b) (log (storage n)))"
      using that lo by (subst take_add [symmetric]) simp
    ultimately show ?thesis
      using that lo assms(1) by (simp add: base config_at_replay)
  qed
  have "fold replay_entry (drop (?a - ?b) (log (storage n))) (config_at ?a n) =
      fold replay_entry (log (storage n)) (config_baseline n)"
    unfolding base by (metis append_take_drop_id comp_apply fold_append)
  then have "config_current ?n"
    using assms(4) c(1) by (simp add: config_current_def f c(4))
  with cfg c(1) r show ?thesis by (simp add: f)
qed

subsection \<open>Restart\<close>

text \<open>
  What the engine relies on when it restores a state machine: restoring a snapshot brings back what
  the snapshot shows of the machine. \<open>abs\<close> is the part of the state that all replicas share.
\<close>

locale snapshot_sm =
  fixes ops :: "'m sm_ops"
    and ok :: "'m \<Rightarrow> bool"
    and abs :: "'m \<Rightarrow> 'v"
  assumes restore_snapshot: "ok m \<Longrightarrow> ok m0 \<Longrightarrow> abs (sm_restore ops m0 (sm_snapshot ops m)) = abs m"
begin

text \<open>A node rebuilt from a compacted storage has the state machine the snapshot was taken of.\<close>

lemma restart_after_compaction:
  assumes wf: "wf_storage (storage n)" "mem_base (storage n) < last_applied n"
      "last_applied n \<le> last_log_index (storage n)" and cur: "config_current n"
    and ok: "ok (sm n)" "ok m0"
  shows "abs (sm (with_state_machine ops i V (compacted ops n) cfg m0)) = abs (sm n)"
    and "last_applied (with_state_machine ops i V (compacted ops n) cfg m0) = last_applied n"
    and "commit_index (with_state_machine ops i V (compacted ops n) cfg m0) = last_applied n"
    and "voters (with_state_machine ops i V (compacted ops n) cfg m0) = voters n"
    and "learners (with_state_machine ops i V (compacted ops n) cfg m0) = learners n"
proof -
  let ?s = "compacted ops n" and ?a = "last_applied n" and ?b = "mem_base (storage n)"
  note c = compacted_storage [OF wf, of ops]
  have load: "load_snapshot ?s = Some (\<lparr>last_included_index = ?a, last_included_term = term_at (storage n) ?a\<rparr>,
      sm_snapshot ops (sm n))" "load_config_baseline ?s = Some (config_at ?a n)"
    by (simp_all add: compacted_def load_snapshot_def load_config_baseline_def compact_to_def save_snapshot_def
        save_config_baseline_def)
  have base: "config_at ?a n = fold replay_entry (take (?a - ?b) (log (storage n))) (config_baseline n)"
    using wf by (intro config_at_replay) simp_all
  have "fold replay_entry (drop (?a - ?b) (log (storage n))) (config_at ?a n) = (voters n, learners n)"
    using cur unfolding base config_current_def by (metis append_take_drop_id comp_apply fold_append)
  then have rep: "replay_membership (entry_at ?s) (log_start_index ?s) (last_log_index ?s) (config_at ?a n) =
      (voters n, learners n)"
    using mem.replay_all [OF c(1), of "config_at ?a n"] by (simp add: c(4))
  show "abs (sm (with_state_machine ops i V ?s cfg m0)) = abs (sm n)"
    "last_applied (with_state_machine ops i V ?s cfg m0) = ?a"
    "commit_index (with_state_machine ops i V ?s cfg m0) = ?a"
    "voters (with_state_machine ops i V ?s cfg m0) = voters n"
    "learners (with_state_machine ops i V ?s cfg m0) = learners n"
    using restore_snapshot [OF ok]
    by (simp_all add: with_state_machine_def load Let_def recompute_config_from_log_def split_beta rep)
qed

end

definition counting_ok :: "counting_sm \<Rightarrow> bool" where
  "counting_ok m \<longleftrightarrow> applied m \<le> u64_max"

interpretation counting: snapshot_sm counting_ops counting_ok "\<lambda>m. m"
proof
  fix m m0 :: counting_sm
  assume ok: "counting_ok m"
  have "applied m < 256 ^ 8"
    using ok by (simp add: counting_ok_def u64_max_def)
  then show "sm_restore counting_ops m0 (sm_snapshot counting_ops m) = m"
    by (simp add: counting_ops_def counting_restore_def counting_snapshot_def le_value_le_bytes)
qed

subsection \<open>A compacting follower\<close>

definition noop_entry :: "nat \<Rightarrow> log_entry" where
  "noop_entry k = \<lparr>entry_term = 1, entry_index = k, payload = Noop\<rparr>"

definition demo_batch :: raft_msg where
  "demo_batch = AppendEntries 1 (NodeId 1) 0 0 [noop_entry 1, noop_entry 2] 2"

definition receive :: "raft_msg \<Rightarrow> counting_sm raft_node \<Rightarrow> counting_sm raft_node option" where
  "receive m n = map_option node (on_message counting_ops monotonic_zero (NodeId 1) m (run_ctx n demo_seed))"

text \<open>A follower with two applied entries whose compaction threshold is then lowered.\<close>

definition demo_full :: "counting_sm raft_node" where
  "demo_full = (the (receive demo_batch (demo_node (NodeId 2))))
     \<lparr>config := (demo_cfg (NodeId 2))\<lparr>snapshot_threshold := 1, snapshot_chunk_bytes := 3\<rparr>\<rparr>"

lemma demo_full_summary:
  "config_current demo_full \<and> mem_base (storage demo_full) = 0 \<and> last_applied demo_full = 2 \<and>
   last_log_index (storage demo_full) = 2 \<and> counting_ok (sm demo_full) \<and> voters demo_full = demo_voters \<and>
   applied (sm demo_full) = 2 \<and> load_snapshot (storage demo_full) = None"
  by code_simp

lemma demo_full_state:
  "config_current demo_full" "mem_base (storage demo_full) = 0" "last_applied demo_full = 2"
  "last_log_index (storage demo_full) = 2" "counting_ok (sm demo_full)" "voters demo_full = demo_voters"
  "applied (sm demo_full) = 2" "load_snapshot (storage demo_full) = None"
  using demo_full_summary by blast+

lemma demo_full_compacts:
  "load_snapshot (storage (maybe_compact counting_ops demo_full)) =
     Some (\<lparr>last_included_index = 2, last_included_term = 1\<rparr>, [2, 0, 0, 0, 0, 0, 0, 0])"
  by code_simp

theorem snapshot_reassembly_witness:
  "(\<exists>vs ls. sends (out (send_snapshot_chunk_to (NodeId 3) 6 (run_ctx (maybe_compact counting_ops demo_full) demo_seed))) =
      [(NodeId 3, InstallSnapshot 1 (NodeId 2) 2 1 6 [0, 0] True vs ls)]) \<and>
   (\<exists>rx. assemble 2 1 3 [2, 0, 0, 0, 0, 0, 0, 0] {} {} None 3 = (True, Some rx) \<and> rx_data rx = [2, 0, 0, 0, 0, 0, 0, 0])"
proof -
  let ?c = "run_ctx (maybe_compact counting_ops demo_full) demo_seed"
  have s: "load_snapshot (storage (node ?c)) =
      Some (\<lparr>last_included_index = 2, last_included_term = 1\<rparr>, [2, 0, 0, 0, 0, 0, 0, 0])"
    by (simp add: demo_full_compacts run_ctx_def)
  have k: "chunk_cap (node ?c) 8 = 3" "term_of_node (node ?c) = 1" "node_id_of (node ?c) = NodeId 2" by code_simp+
  show ?thesis
    using snapshot_reassembly [OF s, of 2 "NodeId 3" "{}" "{}" None] k
    by (simp add: run_ctx_def effects_new_def eval_nat_numeral del: assemble.simps)
qed

theorem compaction_transparent_witness:
  "maybe_compact counting_ops demo_full \<noteq> demo_full \<and>
   last_log_index (storage (maybe_compact counting_ops demo_full)) = 2 \<and>
   term_at (storage (maybe_compact counting_ops demo_full)) 2 = term_at (storage demo_full) 2 \<and>
   config_current (maybe_compact counting_ops demo_full)"
proof -
  have "wf_storage (storage demo_full)" using demo_full_state(1) by (simp add: config_current_def)
  moreover have "maybe_compact counting_ops demo_full \<noteq> demo_full"
    using demo_full_compacts demo_full_state(8) by auto
  ultimately show ?thesis
    using compaction_transparent [of demo_full counting_ops] demo_full_state by simp
qed

subsection \<open>A re-sent batch after compaction\<close>

definition demo_next :: raft_msg where
  "demo_next = AppendEntries 1 (NodeId 1) 2 1
     [\<lparr>entry_term = 1, entry_index = 3, payload = ConfigChange (AddLearner (NodeId 9))\<rparr>] 3"

definition demo_compacting :: "counting_sm raft_node" where
  "demo_compacting = with_state_machine counting_ops (NodeId 2) demo_voters mem_storage_new
     ((demo_cfg (NodeId 2))\<lparr>snapshot_threshold := 1\<rparr>) counting_sm_new"

text \<open>
  C13: a follower that compacts its log and then receives the same \<open>AppendEntries\<close> twice appends
  the batch a second time above its snapshot, and applies the batch's first entry as entry 3 instead of the
  leader's; without the repetition it applies the leader's entry.
\<close>

theorem resent_batch_after_compaction:
  "map_option (\<lambda>n. (last_applied n, entry_at (storage n) 3))
     (Option.bind (Option.bind (receive demo_batch demo_compacting) (receive demo_batch)) (receive demo_next)) =
     Some (3, Some (noop_entry 1)) \<and>
   map_option (\<lambda>n. (last_applied n, map_option payload (entry_at (storage n) 3)))
     (Option.bind (receive demo_batch demo_compacting) (receive demo_next)) =
     Some (3, Some (ConfigChange (AddLearner (NodeId 9))))"
  by code_simp

end
