(* ===== verification/Collections.thy ===== *)
theory Collections
  imports Prelude "HOL-Library.Monad_Syntax"
begin

text \<open>
  Slice and iterator operations of the Rust standard library as the sources use them, and the
  generic lemmas about them: checked indexing, searching for a position, removing an element, and
  order-preserving renumbering of indexes after a removal.
\<close>

definition get :: "'a list \<Rightarrow> nat \<Rightarrow> 'a option" where
  "get xs i = (if i < length xs then Some (xs ! i) else None)"

fun position :: "('a \<Rightarrow> bool) \<Rightarrow> 'a list \<Rightarrow> nat option" where
  "position P [] = None"
| "position P (x # xs) = (if P x then Some 0 else map_option Suc (position P xs))"

definition remove_at :: "nat \<Rightarrow> 'a list \<Rightarrow> 'a list" where
  "remove_at i xs = take i xs @ drop (Suc i) xs"

text \<open>The casts \<open>as u16\<close> and \<open>as u32\<close> of a larger unsigned integer, subtraction, which panics below zero, and
  division rounded up.\<close>

definition as_u16 :: "nat \<Rightarrow> nat" where
  "as_u16 n = n mod 65536"

definition as_u32 :: "nat \<Rightarrow> nat" where
  "as_u32 n = n mod 2 ^ 32"

definition checked_sub :: "nat \<Rightarrow> nat \<Rightarrow> nat option" where
  "checked_sub a b = (if b \<le> a then Some (a - b) else None)"

definition div_ceil :: "nat \<Rightarrow> nat \<Rightarrow> nat" where
  "div_ceil a b = a div b + (if a mod b > 0 then 1 else 0)"

lemma as_u16_small [simp]: "n < 65536 \<Longrightarrow> as_u16 n = n"
  by (simp add: as_u16_def)

lemma get_eq_Some [simp]: "get xs i = Some x \<longleftrightarrow> i < length xs \<and> xs ! i = x"
  by (auto simp: get_def)

lemma get_eq_None [simp]: "get xs i = None \<longleftrightarrow> length xs \<le> i"
  by (auto simp: get_def)

lemma get_nth: "i < length xs \<Longrightarrow> get xs i = Some (xs ! i)"
  by simp

lemma get_map: "get (map f xs) i = map_option f (get xs i)"
  by (simp add: get_def)

lemma position_Some:
  "position P xs = Some i \<longleftrightarrow> i < length xs \<and> P (xs ! i) \<and> (\<forall>j<i. \<not> P (xs ! j))"
proof (induction xs arbitrary: i)
  case (Cons x xs)
  show ?case
    by (cases i) (auto simp: Cons less_Suc_eq_0_disj nth_Cons')
qed simp

lemma position_None: "position P xs = None \<longleftrightarrow> (\<forall>x \<in> set xs. \<not> P x)"
  by (induction xs) auto

lemma position_bound: "position P xs = Some i \<Longrightarrow> i < length xs"
  by (simp add: position_Some)

text \<open>Positions of keys in a table whose keys are pairwise distinct.\<close>

lemma position_key:
  assumes "distinct (map f xs)" and "i < length xs"
  shows "position (\<lambda>x. f x = f (xs ! i)) xs = Some i"
  using assms by (auto simp: position_Some distinct_conv_nth)

lemma position_key_iff:
  assumes "distinct (map f xs)"
  shows "position (\<lambda>x. f x = k) xs = Some i \<longleftrightarrow> i < length xs \<and> f (xs ! i) = k"
  using assms position_key [of f xs i] by (auto simp: position_Some)

lemma list_ex_key: "list_ex (\<lambda>x. f x = k) xs \<longleftrightarrow> k \<in> f ` set xs"
  by (induction xs) auto

lemma position_map: "position P (map f xs) = position (P \<circ> f) xs"
  by (induction xs) auto

lemma length_remove_at [simp]: "i < length xs \<Longrightarrow> length (remove_at i xs) = length xs - 1"
  by (simp add: remove_at_def)

lemma nth_remove_at:
  "i < length xs \<Longrightarrow> j < length xs - 1 \<Longrightarrow> remove_at i xs ! j = (if j < i then xs ! j else xs ! Suc j)"
  by (auto simp: remove_at_def nth_append)

lemma map_remove_at: "map f (remove_at i xs) = remove_at i (map f xs)"
  by (simp add: remove_at_def take_map drop_map)

lemma set_remove_at: "distinct xs \<Longrightarrow> i < length xs \<Longrightarrow> set (remove_at i xs) = set xs - {xs ! i}"
proof -
  assume d: "distinct xs" and i: "i < length xs"
  have e: "xs = take i xs @ xs ! i # drop (Suc i) xs"
    by (rule id_take_nth_drop [OF i])
  have "distinct (take i xs @ xs ! i # drop (Suc i) xs)"
    using d e by simp
  moreover have "set xs = set (take i xs @ xs ! i # drop (Suc i) xs)"
    using e by simp
  ultimately show ?thesis
    by (auto simp: remove_at_def)
qed

lemma distinct_remove_at: "distinct xs \<Longrightarrow> distinct (remove_at i xs)"
  by (auto simp: remove_at_def dest: set_take_disj_set_drop_if_distinct [of xs i "Suc i"])

text \<open>The index of a surviving element after the removal of element \<open>r\<close>.\<close>

definition shift_down :: "nat \<Rightarrow> nat \<Rightarrow> nat" where
  "shift_down r i = (if r < i then i - 1 else i)"

lemma nth_shift_down:
  "r < length xs \<Longrightarrow> i < length xs \<Longrightarrow> i \<noteq> r \<Longrightarrow> remove_at r xs ! shift_down r i = xs ! i"
  by (auto simp: nth_remove_at shift_down_def)

lemma shift_down_less: "r < n \<Longrightarrow> i < n \<Longrightarrow> i \<noteq> r \<Longrightarrow> shift_down r i < n - 1"
  by (auto simp: shift_down_def)

lemma shift_down_eq: "i \<noteq> r \<Longrightarrow> j \<noteq> r \<Longrightarrow> shift_down r i = shift_down r j \<longleftrightarrow> i = j"
  by (auto simp: shift_down_def)

end
