(* ===== verification/Slot_Map.thy ===== *)
theory Slot_Map
  imports Collections "HOL-Library.Char_ord" "HOL-Library.List_Lexorder"
begin

text \<open>
  The slot map of \<open>ironcache-cluster/src/lib.rs\<close>: which node of the table owns, replicates or
  migrates each of the 16384 hash slots. The per-slot arrays of atomics are functions on slot numbers; an
  operation that indexes an array with a slot outside it panics, which is the result \<open>None\<close>, and an operation that
  returns a \<open>Result\<close> returns \<open>Inl\<close> the error or \<open>Inr\<close> the updated map. Array cells hold a node
  index or the sentinel \<open>UNASSIGNED\<close>, as in the source.
\<close>

definition CLUSTER_SLOTS :: nat where
  "CLUSTER_SLOTS = 16384"

definition UNASSIGNED :: nat where
  "UNASSIGNED = 65535"

datatype migration_kind = MigrationNone | Migrating | Importing

abbreviation (input) MIG_NONE :: u8 where "MIG_NONE \<equiv> 0"
abbreviation (input) MIG_MIGRATING :: u8 where "MIG_MIGRATING \<equiv> 1"
abbreviation (input) MIG_IMPORTING :: u8 where "MIG_IMPORTING \<equiv> 2"

record node_entry =
  ne_id :: string
  ne_host :: string
  ne_port :: u16

type_synonym 'a slot_array = "nat \<Rightarrow> 'a"

record slot_map =
  table_nodes :: "node_entry list"
  config_epochs :: "nat list"
  mine :: "bool slot_array"
  owner :: "nat slot_array"
  replicas :: "nat slot_array"
  mig_state :: "u8 slot_array"
  mig_peer :: "nat slot_array"
  self_idx :: nat
  my_epoch :: nat
  current_epoch :: nat

datatype slot_map_error =
    TopologyEmpty
  | BadId string
  | DuplicateId string
  | BadRange u16 u16
  | Overlap nat string string
  | Gap nat
  | SelfNotPresent string

datatype slot_mut_error =
    SlotBusy u16
  | SlotUnassigned u16
  | SlotDuplicate u16
  | UnknownNode string
  | ForgetSelf
  | NodeOwnsSlots string
  | EpochKnowsOthers
  | EpochAlreadySet

datatype bump_result = Bumped nat | Still nat

definition is_valid_node_id :: "string \<Rightarrow> bool" where
  "is_valid_node_id i \<longleftrightarrow>
     length i = 40 \<and> list_all (\<lambda>c. CHR ''0'' \<le> c \<and> c \<le> CHR ''9'' \<or> CHR ''a'' \<le> c \<and> c \<le> CHR ''f'') i"

text \<open>Two table entries advertise the same endpoint.\<close>

definition same_endpoint :: "node_entry \<Rightarrow> node_entry \<Rightarrow> bool" where
  "same_endpoint a b \<longleftrightarrow> ne_host a = ne_host b \<and> ne_port a = ne_port b"

definition in_range :: "u16 \<Rightarrow> bool" where
  "in_range slot \<longleftrightarrow> unat slot < CLUSTER_SLOTS"

text \<open>Reading an array cell; an index outside the array panics.\<close>

definition load :: "'a slot_array \<Rightarrow> u16 \<Rightarrow> 'a option" where
  "load a slot = (if in_range slot then Some (a (unat slot)) else None)"

subsection \<open>Construction\<close>

fun claim_slots ::
  "node_entry list \<Rightarrow> string \<Rightarrow> nat \<Rightarrow> nat list \<Rightarrow> nat slot_array \<Rightarrow> (slot_map_error + nat slot_array) option" where
  "claim_slots entries i idx [] ow = Some (Inr ow)"
| "claim_slots entries i idx (slot # slots) ow =
     (if ow slot \<noteq> UNASSIGNED
      then do { first \<leftarrow> get entries (ow slot); Some (Inl (Overlap slot (ne_id first) i)) }
      else claim_slots entries i idx slots (ow(slot := as_u16 idx)))"

fun claim_ranges ::
  "node_entry list \<Rightarrow> string \<Rightarrow> nat \<Rightarrow> (u16 \<times> u16) list \<Rightarrow> nat slot_array \<Rightarrow>
   (slot_map_error + nat slot_array) option" where
  "claim_ranges entries i idx [] ow = Some (Inr ow)"
| "claim_ranges entries i idx ((start, fin) # ranges) ow =
     (if start > fin \<or> unat fin \<ge> CLUSTER_SLOTS then Some (Inl (BadRange start fin))
      else do {
        r \<leftarrow> claim_slots entries i idx [unat start..<Suc (unat fin)] ow;
        (case r of Inl e \<Rightarrow> Some (Inl e) | Inr ow \<Rightarrow> claim_ranges entries i idx ranges ow) })"

fun claim_nodes ::
  "node_entry list \<Rightarrow> (node_entry \<times> (u16 \<times> u16) list) list \<Rightarrow> nat slot_array \<Rightarrow>
   (slot_map_error + node_entry list \<times> nat slot_array) option" where
  "claim_nodes entries [] ow = Some (Inr (entries, ow))"
| "claim_nodes entries ((entry, ranges) # ns) ow =
     (if \<not> is_valid_node_id (ne_id entry) then Some (Inl (BadId (ne_id entry)))
      else if list_ex (\<lambda>e. ne_id e = ne_id entry) entries then Some (Inl (DuplicateId (ne_id entry)))
      else do {
        r \<leftarrow> claim_ranges entries (ne_id entry) (length entries) ranges ow;
        (case r of Inl e \<Rightarrow> Some (Inl e) | Inr ow \<Rightarrow> claim_nodes (entries @ [entry]) ns ow) })"

definition build ::
  "(node_entry \<times> (u16 \<times> u16) list) list \<Rightarrow> string \<Rightarrow> (slot_map_error + slot_map) option" where
  "build ns self_id =
     (if ns = [] then Some (Inl TopologyEmpty)
      else do {
        r \<leftarrow> claim_nodes [] ns (\<lambda>_. UNASSIGNED);
        (case r of
           Inl e \<Rightarrow> Some (Inl e)
         | Inr (entries, ow) \<Rightarrow>
             (case List.find (\<lambda>slot. ow slot = UNASSIGNED) [0..<CLUSTER_SLOTS] of
                Some slot \<Rightarrow> Some (Inl (Gap slot))
              | None \<Rightarrow>
                  (case position (\<lambda>e. ne_id e = self_id) entries of
                     None \<Rightarrow> Some (Inl (SelfNotPresent self_id))
                   | Some idx \<Rightarrow>
                       Some (Inr
                         \<lparr>table_nodes = entries, config_epochs = replicate (length entries) 0,
                          mine = (\<lambda>slot. ow slot = as_u16 idx), owner = ow, replicas = (\<lambda>_. UNASSIGNED),
                          mig_state = (\<lambda>_. MIG_NONE), mig_peer = (\<lambda>_. UNASSIGNED),
                          self_idx = as_u16 idx, my_epoch = 0, current_epoch = 0\<rparr>)))) })"

definition empty_self :: "string \<Rightarrow> string \<Rightarrow> u16 \<Rightarrow> slot_map" where
  "empty_self i host port =
     \<lparr>table_nodes = [\<lparr>ne_id = i, ne_host = host, ne_port = port\<rparr>], config_epochs = [0],
      mine = (\<lambda>_. False), owner = (\<lambda>_. UNASSIGNED), replicas = (\<lambda>_. UNASSIGNED),
      mig_state = (\<lambda>_. MIG_NONE), mig_peer = (\<lambda>_. UNASSIGNED), self_idx = 0, my_epoch = 0, current_epoch = 0\<rparr>"

subsection \<open>Queries\<close>

definition owns :: "slot_map \<Rightarrow> u16 \<Rightarrow> bool option" where
  "owns m slot = load (mine m) slot"

text \<open>The table entry a cell names, if it names one.\<close>

definition entry_of_cell :: "slot_map \<Rightarrow> nat \<Rightarrow> node_entry option" where
  "entry_of_cell m idx = (if idx = UNASSIGNED then None else get (table_nodes m) idx)"

definition endpoint :: "node_entry \<Rightarrow> string \<times> u16" where
  "endpoint e = (ne_host e, ne_port e)"

definition moved_target :: "slot_map \<Rightarrow> u16 \<Rightarrow> (string \<times> u16) option option" where
  "moved_target m slot = do { idx \<leftarrow> load (owner m) slot; Some (map_option endpoint (entry_of_cell m idx)) }"

definition owner_id :: "slot_map \<Rightarrow> u16 \<Rightarrow> string option option" where
  "owner_id m slot = do { idx \<leftarrow> load (owner m) slot; Some (map_option ne_id (entry_of_cell m idx)) }"

definition replicas_of :: "slot_map \<Rightarrow> u16 \<Rightarrow> nat list option" where
  "replicas_of m slot = do { idx \<leftarrow> load (replicas m) slot; Some (if idx = UNASSIGNED then [] else [idx]) }"

definition is_replica_of :: "slot_map \<Rightarrow> u16 \<Rightarrow> string \<Rightarrow> bool option" where
  "is_replica_of m slot i = do {
     idx \<leftarrow> load (replicas m) slot;
     Some (case entry_of_cell m idx of None \<Rightarrow> False | Some n \<Rightarrow> ne_id n = i) }"

definition is_replica_of_self :: "slot_map \<Rightarrow> u16 \<Rightarrow> bool option" where
  "is_replica_of_self m slot = do {
     idx \<leftarrow> load (replicas m) slot;
     Some (case (entry_of_cell m idx, get (table_nodes m) (self_idx m)) of
             (Some rep, Some me) \<Rightarrow> same_endpoint rep me
           | _ \<Rightarrow> False) }"

definition migration_state :: "slot_map \<Rightarrow> u16 \<Rightarrow> migration_kind option" where
  "migration_state m slot = do {
     st \<leftarrow> load (mig_state m) slot;
     Some (if st = MIG_MIGRATING then Migrating else if st = MIG_IMPORTING then Importing else MigrationNone) }"

definition migration_peer_endpoint :: "slot_map \<Rightarrow> u16 \<Rightarrow> (string \<times> u16) option option" where
  "migration_peer_endpoint m slot = do {
     st \<leftarrow> load (mig_state m) slot;
     if st = MIG_NONE then Some None
     else do { idx \<leftarrow> load (mig_peer m) slot; Some (map_option endpoint (entry_of_cell m idx)) } }"

definition migration_peer_id :: "slot_map \<Rightarrow> u16 \<Rightarrow> string option option" where
  "migration_peer_id m slot = do {
     st \<leftarrow> load (mig_state m) slot;
     if st = MIG_NONE then Some None
     else do { idx \<leftarrow> load (mig_peer m) slot; Some (map_option ne_id (entry_of_cell m idx)) } }"

definition me :: "slot_map \<Rightarrow> node_entry option" where
  "me m = get (table_nodes m) (self_idx m)"

definition is_self :: "slot_map \<Rightarrow> string \<Rightarrow> bool" where
  "is_self m i =
     (case get (table_nodes m) (self_idx m) of
        None \<Rightarrow> False
      | Some my_entry \<Rightarrow>
          ne_id my_entry = i \<or>
          (case List.find (\<lambda>n. ne_id n = i) (table_nodes m) of None \<Rightarrow> False | Some n \<Rightarrow> same_endpoint n my_entry))"

definition known_nodes :: "slot_map \<Rightarrow> nat" where
  "known_nodes m = length (table_nodes m)"

definition is_fully_assigned :: "slot_map \<Rightarrow> bool" where
  "is_fully_assigned m = list_all (\<lambda>slot. owner m slot \<noteq> UNASSIGNED) [0..<CLUSTER_SLOTS]"

definition slots_assigned :: "slot_map \<Rightarrow> nat" where
  "slots_assigned m = length (filter (\<lambda>slot. owner m slot \<noteq> UNASSIGNED) [0..<CLUSTER_SLOTS])"

definition mark_owner :: "slot_map \<Rightarrow> nat \<Rightarrow> bool list \<Rightarrow> bool list" where
  "mark_owner m slot seen =
     (if owner m slot \<noteq> UNASSIGNED \<and> owner m slot < length seen then seen[owner m slot := True] else seen)"

definition cluster_size :: "slot_map \<Rightarrow> nat" where
  "cluster_size m =
     length (filter id (fold (mark_owner m) [0..<CLUSTER_SLOTS] (replicate (length (table_nodes m)) False)))"

subsection \<open>Mutations\<close>

definition set_committed_epoch :: "nat \<Rightarrow> slot_map \<Rightarrow> slot_map" where
  "set_committed_epoch e m = m\<lparr>current_epoch := e\<rparr>"

definition node_index :: "slot_map \<Rightarrow> string \<Rightarrow> nat option" where
  "node_index m i = position (\<lambda>n. ne_id n = i) (table_nodes m)"

definition begin_migration :: "u8 \<Rightarrow> u16 \<Rightarrow> string \<Rightarrow> slot_map \<Rightarrow> (slot_mut_error + slot_map) option" where
  "begin_migration st slot peer m =
     (case node_index m peer of
        None \<Rightarrow> Some (Inl (UnknownNode peer))
      | Some idx \<Rightarrow>
          if in_range slot
          then Some (Inr (m\<lparr>mig_peer := (mig_peer m)(unat slot := as_u16 idx), mig_state := (mig_state m)(unat slot := st)\<rparr>))
          else None)"

definition set_migrating :: "u16 \<Rightarrow> string \<Rightarrow> slot_map \<Rightarrow> (slot_mut_error + slot_map) option" where
  "set_migrating slot dest m = begin_migration MIG_MIGRATING slot dest m"

definition set_importing :: "u16 \<Rightarrow> string \<Rightarrow> slot_map \<Rightarrow> (slot_mut_error + slot_map) option" where
  "set_importing slot src m = begin_migration MIG_IMPORTING slot src m"

definition clear_migration :: "u16 \<Rightarrow> slot_map \<Rightarrow> slot_map option" where
  "clear_migration slot m =
     (if in_range slot
      then Some (m\<lparr>mig_state := (mig_state m)(unat slot := MIG_NONE), mig_peer := (mig_peer m)(unat slot := UNASSIGNED)\<rparr>)
      else None)"

fun check_slots ::
  "(nat \<Rightarrow> bool) \<Rightarrow> (u16 \<Rightarrow> slot_mut_error) \<Rightarrow> u16 list \<Rightarrow> u16 list \<Rightarrow> slot_mut_error option option" where
  "check_slots bad err seen [] = Some None"
| "check_slots bad err seen (slot # slots) =
     (if \<not> in_range slot then None
      else if slot \<in> set seen then Some (Some (SlotDuplicate slot))
      else if bad (unat slot) then Some (Some (err slot))
      else check_slots bad err (slot # seen) slots)"

definition assign_cells :: "'a \<Rightarrow> u16 list \<Rightarrow> 'a slot_array \<Rightarrow> 'a slot_array" where
  "assign_cells v slots a = fold (\<lambda>slot a. a(unat slot := v)) slots a"

definition add_slots :: "u16 list \<Rightarrow> slot_map \<Rightarrow> (slot_mut_error + slot_map) option" where
  "add_slots slots m = do {
     e \<leftarrow> check_slots (\<lambda>slot. owner m slot \<noteq> UNASSIGNED) SlotBusy [] slots;
     (case e of
        Some err \<Rightarrow> Some (Inl err)
      | None \<Rightarrow> Some (Inr (m\<lparr>owner := assign_cells (self_idx m) slots (owner m),
                               mine := assign_cells True slots (mine m)\<rparr>))) }"

definition del_slots :: "u16 list \<Rightarrow> slot_map \<Rightarrow> (slot_mut_error + slot_map) option" where
  "del_slots slots m = do {
     e \<leftarrow> check_slots (\<lambda>slot. owner m slot = UNASSIGNED) SlotUnassigned [] slots;
     (case e of
        Some err \<Rightarrow> Some (Inl err)
      | None \<Rightarrow> Some (Inr (m\<lparr>owner := assign_cells UNASSIGNED slots (owner m),
                               mine := assign_cells False slots (mine m)\<rparr>))) }"

definition set_slot_node :: "u16 \<Rightarrow> string \<Rightarrow> slot_map \<Rightarrow> (slot_mut_error + slot_map) option" where
  "set_slot_node slot i m =
     (case node_index m i of
        None \<Rightarrow> Some (Inl (UnknownNode i))
      | Some idx \<Rightarrow>
          if in_range slot
          then let is_self = (idx = self_idx m \<or>
                     (case (get (table_nodes m) idx, get (table_nodes m) (self_idx m)) of
                        (Some new_owner, Some my_entry) \<Rightarrow> same_endpoint new_owner my_entry
                      | _ \<Rightarrow> False))
               in Some (Inr (m\<lparr>owner := (owner m)(unat slot := as_u16 idx), mine := (mine m)(unat slot := is_self),
                               mig_state := (mig_state m)(unat slot := MIG_NONE),
                               mig_peer := (mig_peer m)(unat slot := UNASSIGNED)\<rparr>))
          else None)"

definition clear_slot_owner :: "u16 \<Rightarrow> slot_map \<Rightarrow> slot_map option" where
  "clear_slot_owner slot m =
     (if in_range slot
      then Some (m\<lparr>owner := (owner m)(unat slot := UNASSIGNED), mine := (mine m)(unat slot := False)\<rparr>)
      else None)"

definition set_slot_replica :: "u16 \<Rightarrow> string \<Rightarrow> slot_map \<Rightarrow> (slot_mut_error + slot_map) option" where
  "set_slot_replica slot i m =
     (case node_index m i of
        None \<Rightarrow> Some (Inl (UnknownNode i))
      | Some idx \<Rightarrow>
          if in_range slot then Some (Inr (m\<lparr>replicas := (replicas m)(unat slot := as_u16 idx)\<rparr>)) else None)"

definition clear_slot_replica :: "u16 \<Rightarrow> string \<Rightarrow> slot_map \<Rightarrow> slot_map option" where
  "clear_slot_replica slot i m = do {
     idx \<leftarrow> load (replicas m) slot;
     Some (if (case entry_of_cell m idx of None \<Rightarrow> False | Some n \<Rightarrow> ne_id n = i)
           then m\<lparr>replicas := (replicas m)(unat slot := UNASSIGNED)\<rparr> else m) }"

definition flush_slots :: "slot_map \<Rightarrow> slot_map" where
  "flush_slots m =
     m\<lparr>owner := (\<lambda>slot. if owner m slot = self_idx m then UNASSIGNED else owner m slot),
       mine := (\<lambda>slot. if owner m slot = self_idx m then False else mine m slot)\<rparr>"

definition meet :: "node_entry \<Rightarrow> slot_map \<Rightarrow> slot_map" where
  "meet entry m =
     (if list_ex (\<lambda>n. ne_id n = ne_id entry) (table_nodes m) then m
      else m\<lparr>table_nodes := table_nodes m @ [entry], config_epochs := config_epochs m @ [0]\<rparr>)"

definition forget :: "string \<Rightarrow> slot_map \<Rightarrow> slot_mut_error + slot_map" where
  "forget i m =
     (case node_index m i of
        None \<Rightarrow> Inl (UnknownNode i)
      | Some removed \<Rightarrow>
          if removed = self_idx m then Inl ForgetSelf
          else if list_ex (\<lambda>slot. owner m slot = as_u16 removed) [0..<CLUSTER_SLOTS] then Inl (NodeOwnsSlots i)
          else let r = as_u16 removed;
                   shift = (\<lambda>idx. if idx \<noteq> UNASSIGNED \<and> idx > r then idx - 1 else idx);
                   drop_or_shift = (\<lambda>idx. if idx = r then UNASSIGNED else shift idx)
               in Inr (m\<lparr>table_nodes := remove_at removed (table_nodes m),
                         config_epochs := remove_at removed (config_epochs m),
                         owner := (\<lambda>slot. shift (owner m slot)),
                         replicas := (\<lambda>slot. drop_or_shift (replicas m slot)),
                         mig_peer := (\<lambda>slot. drop_or_shift (mig_peer m slot)),
                         mig_state := (\<lambda>slot. if mig_peer m slot = r then MIG_NONE else mig_state m slot),
                         self_idx := (if self_idx m > removed then as_u16 (self_idx m - 1) else self_idx m)\<rparr>))"

definition set_config_epoch :: "nat \<Rightarrow> slot_map \<Rightarrow> slot_mut_error + slot_map" where
  "set_config_epoch e m =
     (if length (table_nodes m) > 1 then Inl EpochKnowsOthers
      else if my_epoch m \<noteq> 0 then Inl EpochAlreadySet
      else Inr (m\<lparr>my_epoch := e, current_epoch := (if current_epoch m < e then e else current_epoch m),
                  config_epochs := (config_epochs m)[self_idx m := e]\<rparr>))"

definition bump_epoch :: "slot_map \<Rightarrow> bump_result \<times> slot_map" where
  "bump_epoch m =
     (let max_epoch = fold max (config_epochs m) (current_epoch m)
      in if my_epoch m = 0 \<or> my_epoch m \<noteq> max_epoch
         then (Bumped (max_epoch + 1),
               m\<lparr>current_epoch := max_epoch + 1, my_epoch := max_epoch + 1,
                 config_epochs := (config_epochs m)[self_idx m := max_epoch + 1]\<rparr>)
         else (Still (my_epoch m), m))"

subsection \<open>Well-formed maps\<close>

definition cell_ok :: "slot_map \<Rightarrow> nat \<Rightarrow> bool" where
  "cell_ok m idx \<longleftrightarrow> idx = UNASSIGNED \<or> idx < length (table_nodes m)"

text \<open>The cell names this node, under its own entry or under another entry with its endpoint.\<close>

definition names_self :: "slot_map \<Rightarrow> nat \<Rightarrow> bool" where
  "names_self m idx \<longleftrightarrow>
     (case entry_of_cell m idx of None \<Rightarrow> False | Some e \<Rightarrow> same_endpoint e (table_nodes m ! self_idx m))"

definition table_ok :: "slot_map \<Rightarrow> bool" where
  "table_ok m \<longleftrightarrow>
     distinct (map ne_id (table_nodes m)) \<and> self_idx m < length (table_nodes m) \<and>
     length (config_epochs m) = length (table_nodes m) \<and> length (table_nodes m) \<le> UNASSIGNED"

definition slot_ok :: "slot_map \<Rightarrow> nat \<Rightarrow> bool" where
  "slot_ok m slot \<longleftrightarrow>
     cell_ok m (owner m slot) \<and> cell_ok m (replicas m slot) \<and> cell_ok m (mig_peer m slot) \<and>
     (mig_state m slot = MIG_NONE \<longleftrightarrow> mig_peer m slot = UNASSIGNED) \<and>
     mig_state m slot \<in> {MIG_NONE, MIG_MIGRATING, MIG_IMPORTING} \<and>
     (mine m slot \<longleftrightarrow> names_self m (owner m slot))"

definition wf_map :: "slot_map \<Rightarrow> bool" where
  "wf_map m \<longleftrightarrow> table_ok m \<and> (\<forall>slot < CLUSTER_SLOTS. slot_ok m slot)"

lemma same_endpoint_refl [simp]: "same_endpoint e e"
  by (simp add: same_endpoint_def)

lemma same_endpoint_iff: "same_endpoint a b \<longleftrightarrow> endpoint a = endpoint b"
  by (simp add: same_endpoint_def endpoint_def)

lemma wf_table [dest]: "wf_map m \<Longrightarrow> table_ok m"
  by (simp add: wf_map_def)

lemma wf_slot: "wf_map m \<Longrightarrow> slot < CLUSTER_SLOTS \<Longrightarrow> slot_ok m slot"
  by (simp add: wf_map_def)

lemma table_index [simp]:
  assumes "table_ok m" and "idx < length (table_nodes m)"
  shows "as_u16 idx = idx" "idx \<noteq> UNASSIGNED"
  using assms by (auto simp: table_ok_def UNASSIGNED_def)

lemma node_index_iff:
  "table_ok m \<Longrightarrow> node_index m i = Some idx \<longleftrightarrow> idx < length (table_nodes m) \<and> ne_id (table_nodes m ! idx) = i"
  by (simp add: node_index_def table_ok_def position_key_iff)

lemma node_index_None: "node_index m i = None \<longleftrightarrow> i \<notin> ne_id ` set (table_nodes m)"
  by (auto simp: node_index_def position_None)

lemma entry_of_cell_index [simp]:
  "table_ok m \<Longrightarrow> idx < length (table_nodes m) \<Longrightarrow> entry_of_cell m idx = Some (table_nodes m ! idx)"
  by (simp add: entry_of_cell_def get_nth)

lemma entry_of_cell_unassigned [simp]: "entry_of_cell m UNASSIGNED = None"
  by (simp add: entry_of_cell_def)

lemma names_self_cong:
  assumes "table_nodes m' = table_nodes m" "self_idx m' = self_idx m"
  shows "names_self m' = names_self m" and "cell_ok m' = cell_ok m"
  unfolding names_self_def [abs_def] entry_of_cell_def cell_ok_def [abs_def] assms by simp_all

lemma cell_frame [simp]:
  "names_self (m\<lparr>owner := a\<rparr>) = names_self m" "cell_ok (m\<lparr>owner := a\<rparr>) = cell_ok m"
  "names_self (m\<lparr>replicas := a\<rparr>) = names_self m" "cell_ok (m\<lparr>replicas := a\<rparr>) = cell_ok m"
  "names_self (m\<lparr>mig_peer := a\<rparr>) = names_self m" "cell_ok (m\<lparr>mig_peer := a\<rparr>) = cell_ok m"
  "names_self (m\<lparr>mig_state := b\<rparr>) = names_self m" "cell_ok (m\<lparr>mig_state := b\<rparr>) = cell_ok m"
  "names_self (m\<lparr>mine := c\<rparr>) = names_self m" "cell_ok (m\<lparr>mine := c\<rparr>) = cell_ok m"
  "names_self (m\<lparr>current_epoch := e\<rparr>) = names_self m" "cell_ok (m\<lparr>current_epoch := e\<rparr>) = cell_ok m"
  by (rule names_self_cong; simp)+

text \<open>An operation that leaves the table alone is judged slot by slot.\<close>

lemma wf_map_cells:
  assumes "wf_map m" and "table_nodes m' = table_nodes m" "config_epochs m' = config_epochs m" "self_idx m' = self_idx m"
    and "\<And>slot. slot < CLUSTER_SLOTS \<Longrightarrow> slot_ok m slot \<Longrightarrow> slot_ok m' slot"
  shows "wf_map m'"
  using assms by (auto simp: wf_map_def table_ok_def)

lemma slot_ok_frame:
  assumes "table_nodes m' = table_nodes m" "self_idx m' = self_idx m"
    and "owner m' slot = owner m slot" "replicas m' slot = replicas m slot" "mig_peer m' slot = mig_peer m slot"
      "mig_state m' slot = mig_state m slot" "mine m' slot = mine m slot"
  shows "slot_ok m' slot = slot_ok m slot"
  unfolding slot_ok_def names_self_cong [OF assms(1,2)] assms ..

lemma slot_ok_owner:
  assumes "slot_ok m slot" and "table_nodes m' = table_nodes m" "self_idx m' = self_idx m"
    and "replicas m' slot = replicas m slot" "mig_peer m' slot = mig_peer m slot" "mig_state m' slot = mig_state m slot"
    and "cell_ok m (owner m' slot)" "mine m' slot = names_self m (owner m' slot)"
  shows "slot_ok m' slot"
  using assms(1,4-) by (auto simp: slot_ok_def names_self_cong [OF assms(2,3)])

lemma names_self_index:
  "table_ok m \<Longrightarrow> idx < length (table_nodes m) \<Longrightarrow>
   names_self m idx = same_endpoint (table_nodes m ! idx) (table_nodes m ! self_idx m)"
  by (simp add: names_self_def)

lemma names_self_unassigned [simp]: "\<not> names_self m UNASSIGNED"
  by (simp add: names_self_def)

lemma cell_ok_unassigned [simp]: "cell_ok m UNASSIGNED"
  by (simp add: cell_ok_def)

lemma cell_ok_index: "idx < length (table_nodes m) \<Longrightarrow> cell_ok m idx"
  by (simp add: cell_ok_def)

lemma assign_cells_apply: "assign_cells v slots a s = (if s \<in> unat ` set slots then v else a s)"
  unfolding assign_cells_def by (induction slots arbitrary: a) auto

lemma wf_empty_self: "wf_map (empty_self i host port)"
  by (auto simp: wf_map_def table_ok_def slot_ok_def empty_self_def UNASSIGNED_def cell_ok_def names_self_def
      entry_of_cell_def)

lemma wf_set_committed_epoch: "wf_map m \<Longrightarrow> wf_map (set_committed_epoch e m)"
  by (erule wf_map_cells) (auto simp: set_committed_epoch_def slot_ok_def)

lemma wf_begin_migration:
  assumes "wf_map m" and "st \<in> {MIG_MIGRATING, MIG_IMPORTING}" and "begin_migration st slot peer m = Some (Inr m')"
  shows "wf_map m'"
proof -
  obtain idx where idx: "node_index m peer = Some idx"
    and m': "m' = m\<lparr>mig_peer := (mig_peer m)(unat slot := as_u16 idx), mig_state := (mig_state m)(unat slot := st)\<rparr>"
    using assms(3) by (auto simp: begin_migration_def split: option.splits if_splits)
  have "idx < length (table_nodes m)" "table_ok m"
    using idx assms(1) by (auto simp: node_index_iff)
  then show ?thesis
    using assms(1,2) unfolding m'
    by (elim wf_map_cells) (auto simp: slot_ok_def cell_ok_index)
qed

lemma wf_clear_migration: "wf_map m \<Longrightarrow> clear_migration slot m = Some m' \<Longrightarrow> wf_map m'"
  by (erule wf_map_cells)
    (auto simp: clear_migration_def slot_ok_def split: if_splits)

lemma wf_add_slots:
  assumes "wf_map m" and "add_slots slots m = Some (Inr m')"
  shows "wf_map m'"
proof -
  have m': "m' = m\<lparr>owner := assign_cells (self_idx m) slots (owner m), mine := assign_cells True slots (mine m)\<rparr>"
    using assms(2) by (auto simp: add_slots_def bind_eq_Some_conv split: option.splits)
  have self: "self_idx m < length (table_nodes m)" "table_ok m"
    using assms(1) by (auto simp: wf_map_def table_ok_def)
  show ?thesis
    unfolding m' using assms(1)
    by (rule wf_map_cells)
      (auto intro!: slot_ok_owner simp: assign_cells_apply self names_self_index cell_ok_index slot_ok_def)
qed

lemma wf_del_slots:
  assumes "wf_map m" and "del_slots slots m = Some (Inr m')"
  shows "wf_map m'"
proof -
  have m': "m' = m\<lparr>owner := assign_cells UNASSIGNED slots (owner m), mine := assign_cells False slots (mine m)\<rparr>"
    using assms(2) by (auto simp: del_slots_def bind_eq_Some_conv split: option.splits)
  show ?thesis
    unfolding m' using assms(1)
    by (rule wf_map_cells) (auto intro!: slot_ok_owner simp: assign_cells_apply slot_ok_def)
qed

lemma set_slot_node_eq:
  assumes "table_ok m" and "idx < length (table_nodes m)" and "ne_id (table_nodes m ! idx) = i" and "in_range slot"
  shows "set_slot_node slot i m =
    Some (Inr (m\<lparr>owner := (owner m)(unat slot := idx), mine := (mine m)(unat slot := names_self m idx),
                 mig_state := (mig_state m)(unat slot := MIG_NONE), mig_peer := (mig_peer m)(unat slot := UNASSIGNED)\<rparr>))"
proof -
  have "node_index m i = Some idx" using assms by (simp add: node_index_iff)
  moreover have "self_idx m < length (table_nodes m)" using assms(1) by (simp add: table_ok_def)
  moreover have "(idx = self_idx m \<or> same_endpoint (table_nodes m ! idx) (table_nodes m ! self_idx m)) = names_self m idx"
    using assms(1,2) by (auto simp: names_self_index)
  ultimately show ?thesis
    using assms(1,2,4) by (simp add: set_slot_node_def Let_def get_nth)
qed

lemma set_slot_node_ok:
  assumes "table_ok m" and "set_slot_node slot i m = Some (Inr m')"
  obtains idx where "idx < length (table_nodes m)" "ne_id (table_nodes m ! idx) = i" "in_range slot"
    "m' = m\<lparr>owner := (owner m)(unat slot := idx), mine := (mine m)(unat slot := names_self m idx),
             mig_state := (mig_state m)(unat slot := MIG_NONE), mig_peer := (mig_peer m)(unat slot := UNASSIGNED)\<rparr>"
proof -
  obtain idx where "node_index m i = Some idx" "in_range slot"
    using assms(2) by (auto simp: set_slot_node_def split: option.splits if_splits)
  then have "idx < length (table_nodes m)" "ne_id (table_nodes m ! idx) = i"
    using assms(1) by (auto simp: node_index_iff)
  with \<open>in_range slot\<close> show thesis
    using assms(2) set_slot_node_eq [OF assms(1), of idx i slot] that by auto
qed

lemma wf_set_slot_node:
  assumes "wf_map m" and "set_slot_node slot i m = Some (Inr m')"
  shows "wf_map m'"
proof -
  have t: "table_ok m" using assms(1) by blast
  from t assms(2) show ?thesis
  proof (rule set_slot_node_ok)
    fix idx
    assume idx: "idx < length (table_nodes m)"
      and m': "m' = m\<lparr>owner := (owner m)(unat slot := idx), mine := (mine m)(unat slot := names_self m idx),
             mig_state := (mig_state m)(unat slot := MIG_NONE), mig_peer := (mig_peer m)(unat slot := UNASSIGNED)\<rparr>"
    show ?thesis
      unfolding m' using assms(1)
      by (rule wf_map_cells) (auto simp: idx slot_ok_def cell_ok_index)
  qed
qed

lemma wf_clear_slot_owner: "wf_map m \<Longrightarrow> clear_slot_owner slot m = Some m' \<Longrightarrow> wf_map m'"
  by (erule wf_map_cells)
    (auto simp: clear_slot_owner_def slot_ok_def split: if_splits)

lemma wf_set_slot_replica:
  assumes "wf_map m" and "set_slot_replica slot i m = Some (Inr m')"
  shows "wf_map m'"
proof -
  obtain idx where "node_index m i = Some idx" and m': "m' = m\<lparr>replicas := (replicas m)(unat slot := as_u16 idx)\<rparr>"
    using assms(2) by (auto simp: set_slot_replica_def split: option.splits if_splits)
  then have "idx < length (table_nodes m)" "table_ok m"
    using assms(1) by (auto simp: node_index_iff)
  then show ?thesis
    using assms(1) unfolding m'
    by (elim wf_map_cells) (auto simp: slot_ok_def cell_ok_index)
qed

lemma wf_clear_slot_replica: "wf_map m \<Longrightarrow> clear_slot_replica slot i m = Some m' \<Longrightarrow> wf_map m'"
  by (erule wf_map_cells)
    (auto simp: clear_slot_replica_def slot_ok_def bind_eq_Some_conv
      split: if_splits option.splits)

lemma wf_flush_slots: "wf_map m \<Longrightarrow> wf_map (flush_slots m)"
  by (erule wf_map_cells)
    (auto simp: flush_slots_def slot_ok_def)

end
