(* ===== verification/Slot_Routing.thy ===== *)
theory Slot_Routing
  imports Slot_Map
begin

text \<open>
  The routing state a slot map stands for: the members with their endpoints and, per slot, the id
  of the owner and of the replica. The index-based operations of the map, which renumber cells when the node table
  changes, implement the id-based operations on this state.
\<close>

record routing =
  members :: "string \<rightharpoonup> string \<times> u16"
  slot_owner :: "nat \<rightharpoonup> string"
  slot_replica :: "nat \<rightharpoonup> string"

definition cell_id :: "slot_map \<Rightarrow> nat \<Rightarrow> string option" where
  "cell_id m idx = map_option ne_id (entry_of_cell m idx)"

definition member_of :: "node_entry list \<Rightarrow> string \<rightharpoonup> string \<times> u16" where
  "member_of ns = map_of (map (\<lambda>n. (ne_id n, endpoint n)) ns)"

definition view :: "slot_map \<Rightarrow> routing" where
  "view m =
     \<lparr>members = member_of (table_nodes m),
      slot_owner = (\<lambda>s. if s < CLUSTER_SLOTS then cell_id m (owner m s) else None),
      slot_replica = (\<lambda>s. if s < CLUSTER_SLOTS then cell_id m (replicas m s) else None)\<rparr>"

definition r_meet :: "string \<Rightarrow> string \<times> u16 \<Rightarrow> routing \<Rightarrow> routing" where
  "r_meet i ep r = (if i \<in> dom (members r) then r else r\<lparr>members := (members r)(i \<mapsto> ep)\<rparr>)"

definition r_forget :: "string \<Rightarrow> routing \<Rightarrow> routing" where
  "r_forget i r =
     (if i \<notin> dom (members r) \<or> i \<in> ran (slot_owner r) then r
      else r\<lparr>members := (members r)(i := None),
             slot_replica := (\<lambda>s. if slot_replica r s = Some i then None else slot_replica r s)\<rparr>)"

definition r_assign :: "u16 \<Rightarrow> string \<Rightarrow> routing \<Rightarrow> routing" where
  "r_assign slot i r = (if i \<in> dom (members r) then r\<lparr>slot_owner := (slot_owner r)(unat slot \<mapsto> i)\<rparr> else r)"

definition r_unassign :: "u16 \<Rightarrow> routing \<Rightarrow> routing" where
  "r_unassign slot r = r\<lparr>slot_owner := (slot_owner r)(unat slot := None)\<rparr>"

definition r_replicate :: "u16 \<Rightarrow> string \<Rightarrow> routing \<Rightarrow> routing" where
  "r_replicate slot i r = (if i \<in> dom (members r) then r\<lparr>slot_replica := (slot_replica r)(unat slot \<mapsto> i)\<rparr> else r)"

definition r_unreplicate :: "u16 \<Rightarrow> string \<Rightarrow> routing \<Rightarrow> routing" where
  "r_unreplicate slot i r =
     (if slot_replica r (unat slot) = Some i then r\<lparr>slot_replica := (slot_replica r)(unat slot := None)\<rparr> else r)"

subsection \<open>Reading cells\<close>

lemma dom_member_of: "dom (member_of ns) = ne_id ` set ns"
  by (simp add: member_of_def dom_map_of_conv_image_fst image_image)

lemma view_members [simp]: "dom (members (view m)) = ne_id ` set (table_nodes m)"
  by (simp add: view_def dom_member_of)

lemma cell_id_index [simp]: "table_ok m \<Longrightarrow> idx < length (table_nodes m) \<Longrightarrow> cell_id m idx = Some (ne_id (table_nodes m ! idx))"
  by (simp add: cell_id_def)

lemma cell_id_unassigned [simp]: "cell_id m UNASSIGNED = None"
  by (simp add: cell_id_def)

lemma cell_id_Some:
  "cell_id m idx = Some i \<longleftrightarrow> idx \<noteq> UNASSIGNED \<and> idx < length (table_nodes m) \<and> ne_id (table_nodes m ! idx) = i"
  by (auto simp: cell_id_def entry_of_cell_def)

lemma cell_id_frame: "table_nodes m' = table_nodes m \<Longrightarrow> cell_id m' = cell_id m"
  by (simp add: fun_eq_iff cell_id_def entry_of_cell_def)

lemma view_cong:
  assumes "table_nodes m' = table_nodes m" and "\<And>s. s < CLUSTER_SLOTS \<Longrightarrow> cell_id m (owner m' s) = cell_id m (owner m s)"
    and "\<And>s. s < CLUSTER_SLOTS \<Longrightarrow> cell_id m (replicas m' s) = cell_id m (replicas m s)"
  shows "view m' = view m"
  using assms by (simp add: view_def cell_id_frame [OF assms(1)] fun_eq_iff)

lemma view_frame [simp]:
  "view (m\<lparr>mine := a\<rparr>) = view m" "view (m\<lparr>mig_state := b\<rparr>) = view m" "view (m\<lparr>mig_peer := c\<rparr>) = view m"
  "view (m\<lparr>current_epoch := e\<rparr>) = view m" "view (m\<lparr>my_epoch := e\<rparr>) = view m"
  by (rule view_cong; simp)+

lemma view_set_owner:
  "unat slot < CLUSTER_SLOTS \<Longrightarrow>
   view (m\<lparr>owner := (owner m)(unat slot := idx)\<rparr>) = (view m)\<lparr>slot_owner := (slot_owner (view m))(unat slot := cell_id m idx)\<rparr>"
  by (simp add: view_def fun_eq_iff cell_id_def entry_of_cell_def)

lemma view_set_replica:
  "unat slot < CLUSTER_SLOTS \<Longrightarrow>
   view (m\<lparr>replicas := (replicas m)(unat slot := idx)\<rparr>) =
     (view m)\<lparr>slot_replica := (slot_replica (view m))(unat slot := cell_id m idx)\<rparr>"
  by (simp add: view_def fun_eq_iff cell_id_def entry_of_cell_def)

subsection \<open>The operations on the routing state\<close>

lemma view_set_slot_node:
  assumes "table_ok m"
  shows "in_range slot \<Longrightarrow> \<exists>r. set_slot_node slot i m = Some r"
    and "set_slot_node slot i m = Some (Inr m') \<Longrightarrow> view m' = r_assign slot i (view m)"
    and "set_slot_node slot i m = Some (Inl e) \<Longrightarrow> r_assign slot i (view m) = view m"
proof -
  show "in_range slot \<Longrightarrow> \<exists>r. set_slot_node slot i m = Some r"
    by (auto simp: set_slot_node_def Let_def split: option.splits)
  assume "set_slot_node slot i m = Some (Inr m')"
  with assms show "view m' = r_assign slot i (view m)"
  proof (rule set_slot_node_ok)
    fix idx
    assume i: "idx < length (table_nodes m)" "ne_id (table_nodes m ! idx) = i" "in_range slot"
      and m': "m' = m\<lparr>owner := (owner m)(unat slot := idx), mine := (mine m)(unat slot := names_self m idx),
             mig_state := (mig_state m)(unat slot := 0), mig_peer := (mig_peer m)(unat slot := UNASSIGNED)\<rparr>"
    then have "i \<in> dom (members (view m))" by auto
    with i assms show ?thesis
      by (auto simp: m' view_set_owner in_range_def r_assign_def)
  qed
next
  assume "set_slot_node slot i m = Some (Inl e)"
  then have "i \<notin> ne_id ` set (table_nodes m)"
    by (auto simp: set_slot_node_def Let_def node_index_None split: option.splits if_splits)
  then show "r_assign slot i (view m) = view m"
    by (simp add: r_assign_def)
qed

lemma view_clear_slot_owner:
  "clear_slot_owner slot m = Some m' \<Longrightarrow> view m' = r_unassign slot (view m)"
  by (auto simp: clear_slot_owner_def view_set_owner in_range_def r_unassign_def split: if_splits)

lemma view_set_slot_replica:
  assumes "table_ok m"
  shows "in_range slot \<Longrightarrow> \<exists>r. set_slot_replica slot i m = Some r"
    and "set_slot_replica slot i m = Some (Inr m') \<Longrightarrow> view m' = r_replicate slot i (view m)"
    and "set_slot_replica slot i m = Some (Inl e) \<Longrightarrow> r_replicate slot i (view m) = view m"
proof -
  show "in_range slot \<Longrightarrow> \<exists>r. set_slot_replica slot i m = Some r"
    by (auto simp: set_slot_replica_def split: option.splits)
  assume "set_slot_replica slot i m = Some (Inr m')"
  then obtain idx where idx: "node_index m i = Some idx" and r: "in_range slot"
    and m': "m' = m\<lparr>replicas := (replicas m)(unat slot := as_u16 idx)\<rparr>"
    by (auto simp: set_slot_replica_def split: option.splits if_splits)
  have "idx < length (table_nodes m)" "ne_id (table_nodes m ! idx) = i"
    using idx assms by (auto simp: node_index_iff)
  moreover from this have "i \<in> dom (members (view m))" by auto
  ultimately show "view m' = r_replicate slot i (view m)"
    using assms r by (simp add: m' view_set_replica in_range_def r_replicate_def)
next
  assume "set_slot_replica slot i m = Some (Inl e)"
  then have "i \<notin> ne_id ` set (table_nodes m)"
    by (auto simp: set_slot_replica_def node_index_None split: option.splits if_splits)
  then show "r_replicate slot i (view m) = view m"
    by (simp add: r_replicate_def)
qed

lemma view_clear_slot_replica:
  assumes "clear_slot_replica slot i m = Some m'"
  shows "view m' = r_unreplicate slot i (view m)"
proof -
  have r: "in_range slot" and m': "m' = (if cell_id m (replicas m (unat slot)) = Some i
      then m\<lparr>replicas := (replicas m)(unat slot := UNASSIGNED)\<rparr> else m)"
    using assms by (auto simp: clear_slot_replica_def load_def cell_id_def bind_eq_Some_conv split: if_splits option.splits)
  have "slot_replica (view m) (unat slot) = cell_id m (replicas m (unat slot))"
    using r by (simp add: view_def in_range_def)
  with r show ?thesis
    by (simp add: m' view_set_replica in_range_def r_unreplicate_def)
qed

subsection \<open>Changes to the node table\<close>

lemma names_self_iff:
  "names_self m idx \<longleftrightarrow> (\<exists>e. entry_of_cell m idx = Some e \<and> same_endpoint e (table_nodes m ! self_idx m))"
  by (simp add: names_self_def split: option.splits)

lemma meet_cells:
  assumes "table_ok m" and "cell_ok m idx" and "length (table_nodes m) < UNASSIGNED"
  shows "cell_ok (meet e m) idx" "names_self (meet e m) idx = names_self m idx" "cell_id (meet e m) idx = cell_id m idx"
proof -
  have self: "self_idx m < length (table_nodes m)" using assms(1) by (simp add: table_ok_def)
  have e: "entry_of_cell (meet e m) idx = entry_of_cell m idx"
    using assms by (auto simp: meet_def entry_of_cell_def cell_ok_def get_def nth_append)
  have s: "table_nodes (meet e m) ! self_idx (meet e m) = table_nodes m ! self_idx m"
    using self by (simp add: meet_def nth_append)
  show "cell_ok (meet e m) idx" using assms by (auto simp: meet_def cell_ok_def)
  show "names_self (meet e m) idx = names_self m idx"
    unfolding names_self_def e s ..
  show "cell_id (meet e m) idx = cell_id m idx"
    by (simp add: cell_id_def e)
qed

lemma meet_frame [simp]:
  "owner (meet e m) = owner m" "replicas (meet e m) = replicas m" "mig_peer (meet e m) = mig_peer m"
  "mig_state (meet e m) = mig_state m" "mine (meet e m) = mine m" "self_idx (meet e m) = self_idx m"
  by (simp_all add: meet_def)

lemma wf_meet:
  assumes "wf_map m" and "length (table_nodes m) < UNASSIGNED"
  shows "wf_map (meet e m)"
proof -
  have t: "table_ok m" using assms(1) by blast
  have "table_ok (meet e m)"
    using t assms(2) by (auto simp: table_ok_def meet_def list_ex_key)
  moreover have "slot_ok (meet e m) slot" if "slot < CLUSTER_SLOTS" for slot
    using wf_slot [OF assms(1) that] meet_cells [OF t _ assms(2)] by (auto simp: slot_ok_def)
  ultimately show ?thesis by (simp add: wf_map_def)
qed

lemma view_meet:
  assumes "wf_map m" and "length (table_nodes m) < UNASSIGNED"
  shows "view (meet e m) = r_meet (ne_id e) (endpoint e) (view m)"
proof (cases "ne_id e \<in> ne_id ` set (table_nodes m)")
  case True
  then have "meet e m = m" by (simp add: meet_def list_ex_key)
  with True show ?thesis by (simp add: r_meet_def)
next
  case False
  have t: "table_ok m" using assms(1) by blast
  have c: "cell_id (meet e m) (owner m s) = cell_id m (owner m s)" "cell_id (meet e m) (replicas m s) = cell_id m (replicas m s)"
    if "s < CLUSTER_SLOTS" for s
    using wf_slot [OF assms(1) that] meet_cells(3) [OF t _ assms(2)] by (simp_all add: slot_ok_def)
  have "member_of (table_nodes (meet e m)) = (member_of (table_nodes m))(ne_id e \<mapsto> endpoint e)"
  proof -
    have "table_nodes (meet e m) = table_nodes m @ [e]"
      using False by (simp add: meet_def list_ex_key)
    moreover have "member_of (table_nodes m) (ne_id e) = None"
      using False dom_member_of [of "table_nodes m"] by blast
    ultimately show ?thesis
      by (auto simp: member_of_def fun_eq_iff map_add_def split: option.splits)
  qed
  with False c show ?thesis
    by (simp add: view_def r_meet_def fun_eq_iff dom_member_of)
qed

text \<open>What a successful \<open>forget\<close> does, with the casts and the sentinel out of the way.\<close>

lemma forget_ok:
  assumes "wf_map m" and "forget i m = Inr m'"
  obtains r where "r < length (table_nodes m)" "ne_id (table_nodes m ! r) = i" "r \<noteq> self_idx m"
    "\<forall>slot < CLUSTER_SLOTS. owner m slot \<noteq> r"
    "table_nodes m' = remove_at r (table_nodes m)" "config_epochs m' = remove_at r (config_epochs m)"
    "self_idx m' = shift_down r (self_idx m)" "mine m' = mine m"
    "\<And>slot. owner m' slot = (if owner m slot = UNASSIGNED then UNASSIGNED else shift_down r (owner m slot))"
    "\<And>slot. replicas m' slot = (if replicas m slot = UNASSIGNED \<or> replicas m slot = r then UNASSIGNED
                                else shift_down r (replicas m slot))"
    "\<And>slot. mig_peer m' slot = (if mig_peer m slot = UNASSIGNED \<or> mig_peer m slot = r then UNASSIGNED
                                else shift_down r (mig_peer m slot))"
    "\<And>slot. mig_state m' slot = (if mig_peer m slot = r then 0 else mig_state m slot)"
proof -
  have t: "table_ok m" using assms(1) by blast
  then obtain r where r: "node_index m i = Some r" "r \<noteq> self_idx m" "\<forall>slot < CLUSTER_SLOTS. owner m slot \<noteq> as_u16 r"
    using assms(2) by (auto simp: forget_def list_ex_iff Let_def split: option.splits if_splits)
  then have b: "r < length (table_nodes m)" "ne_id (table_nodes m ! r) = i"
    using t by (auto simp: node_index_iff)
  have c: "as_u16 r = r" "r \<noteq> UNASSIGNED" "as_u16 (self_idx m - 1) = self_idx m - 1"
    using t b table_index [OF t, of "self_idx m - 1"] by (auto simp: table_ok_def)
  have nex: "\<not> list_ex (\<lambda>slot. owner m slot = r) [0..<CLUSTER_SLOTS]"
    using r(3) c(1) by (auto simp: list_ex_iff)
  have m': "m' = m\<lparr>table_nodes := remove_at r (table_nodes m), config_epochs := remove_at r (config_epochs m),
      owner := (\<lambda>slot. if owner m slot \<noteq> UNASSIGNED \<and> r < owner m slot then owner m slot - 1 else owner m slot),
      replicas := (\<lambda>slot. if replicas m slot = r then UNASSIGNED
        else if replicas m slot \<noteq> UNASSIGNED \<and> r < replicas m slot then replicas m slot - 1 else replicas m slot),
      mig_peer := (\<lambda>slot. if mig_peer m slot = r then UNASSIGNED
        else if mig_peer m slot \<noteq> UNASSIGNED \<and> r < mig_peer m slot then mig_peer m slot - 1 else mig_peer m slot),
      mig_state := (\<lambda>slot. if mig_peer m slot = r then 0 else mig_state m slot),
      self_idx := (if r < self_idx m then self_idx m - 1 else self_idx m)\<rparr>"
    using assms(2) r(1,2) nex unfolding forget_def Let_def
    by (simp add: c eq_commute [of m'] del: One_nat_def split del: if_split cong: if_cong)
  have r4: "\<forall>slot < CLUSTER_SLOTS. owner m slot \<noteq> r" using r(3) c(1) by simp
  show thesis
    by (rule that [OF b r(2) r4]) (use c(2) in \<open>simp_all add: m' shift_down_def\<close>)
qed

lemma remove_cell:
  assumes t: "table_ok m" and n: "table_nodes m' = remove_at r (table_nodes m)" and r: "r < length (table_nodes m)"
    and i: "idx < length (table_nodes m)" "idx \<noteq> r"
  shows "entry_of_cell m' (shift_down r idx) = entry_of_cell m idx" and "cell_ok m' (shift_down r idx)"
    and "shift_down r idx \<noteq> UNASSIGNED"
proof -
  have s: "shift_down r idx < length (remove_at r (table_nodes m))"
    using shift_down_less [OF r i] r by simp
  then show "shift_down r idx \<noteq> UNASSIGNED"
    using t r by (auto simp: table_ok_def)
  with s show "entry_of_cell m' (shift_down r idx) = entry_of_cell m idx" "cell_ok m' (shift_down r idx)"
    using t i nth_shift_down [OF r i] by (simp_all add: entry_of_cell_def cell_ok_def n get_nth)
qed

lemma forget_table:
  assumes t: "table_ok m" and r: "r < length (table_nodes m)" "r \<noteq> self_idx m"
    and m': "table_nodes m' = remove_at r (table_nodes m)" "config_epochs m' = remove_at r (config_epochs m)"
      "self_idx m' = shift_down r (self_idx m)"
  shows "table_ok m'" and "table_nodes m' ! self_idx m' = table_nodes m ! self_idx m"
proof -
  have s: "self_idx m < length (table_nodes m)" using t by (simp add: table_ok_def)
  show "table_nodes m' ! self_idx m' = table_nodes m ! self_idx m"
    unfolding m' using nth_shift_down [OF r(1) s] r(2) by simp
  have "shift_down r (self_idx m) < length (table_nodes m) - 1"
    using shift_down_less [OF r(1) s] r(2) by simp
  then show "table_ok m'"
    using t r by (auto simp: table_ok_def m' map_remove_at distinct_remove_at)
qed

lemma wf_forget:
  assumes "wf_map m" and "forget i m = Inr m'"
  shows "wf_map m'"
  using assms
proof (rule forget_ok)
  fix r
  assume r: "r < length (table_nodes m)" "ne_id (table_nodes m ! r) = i" "r \<noteq> self_idx m"
      "\<forall>slot < CLUSTER_SLOTS. owner m slot \<noteq> r"
    and tab: "table_nodes m' = remove_at r (table_nodes m)" "config_epochs m' = remove_at r (config_epochs m)"
      "self_idx m' = shift_down r (self_idx m)" and mine: "mine m' = mine m"
    and own: "\<And>slot. owner m' slot = (if owner m slot = UNASSIGNED then UNASSIGNED else shift_down r (owner m slot))"
    and rep: "\<And>slot. replicas m' slot = (if replicas m slot = UNASSIGNED \<or> replicas m slot = r then UNASSIGNED
                                else shift_down r (replicas m slot))"
    and peer: "\<And>slot. mig_peer m' slot = (if mig_peer m slot = UNASSIGNED \<or> mig_peer m slot = r then UNASSIGNED
                                else shift_down r (mig_peer m slot))"
    and st: "\<And>slot. mig_state m' slot = (if mig_peer m slot = r then 0 else mig_state m slot)"
  have t: "table_ok m" using assms(1) by blast
  note tab' = forget_table [OF t r(1,3) tab]
  note cell = remove_cell [OF t tab(1) r(1)]
  have "slot_ok m' slot" if "slot < CLUSTER_SLOTS" for slot
  proof -
    have ok: "slot_ok m slot" by (rule wf_slot [OF assms(1) that])
    have "cell_ok m' (owner m' slot)" "names_self m' (owner m' slot) = names_self m (owner m slot)"
      using ok cell [of "owner m slot"] r(4) that tab'(2)
      by (auto simp: own slot_ok_def cell_ok_def [of m] names_self_iff)
    moreover have "cell_ok m' (replicas m' slot)" "cell_ok m' (mig_peer m' slot)"
      using ok cell by (auto simp: rep peer slot_ok_def cell_ok_def [of m])
    moreover have "mig_peer m' slot = UNASSIGNED \<longleftrightarrow> mig_peer m slot = UNASSIGNED \<or> mig_peer m slot = r"
      using ok cell(3) [of "mig_peer m slot"] by (auto simp: peer slot_ok_def cell_ok_def)
    ultimately show ?thesis
      using ok t r(1) by (auto simp: slot_ok_def mine st)
  qed
  with tab'(1) show ?thesis by (simp add: wf_map_def)
qed

lemma map_of_remove_at:
  assumes "distinct (map f xs)" and "r < length xs"
  shows "map_of (map (\<lambda>x. (f x, g x)) (remove_at r xs)) = (map_of (map (\<lambda>x. (f x, g x)) xs))(f (xs ! r) := None)"
proof -
  let ?a = "take r xs" and ?b = "drop (Suc r) xs"
  have x: "xs = ?a @ xs ! r # ?b" by (rule id_take_nth_drop [OF assms(2)])
  then have "distinct (map f (?a @ xs ! r # ?b))" using assms(1) by simp
  then have "f (xs ! r) \<notin> f ` set ?a" "f (xs ! r) \<notin> f ` set ?b" by auto
  then have n: "map_of (map (\<lambda>x. (f x, g x)) ?a) (f (xs ! r)) = None" "map_of (map (\<lambda>x. (f x, g x)) ?b) (f (xs ! r)) = None"
    by (auto simp: map_of_eq_None_iff image_image)
  have e: "map_of (map (\<lambda>x. (f x, g x)) xs) = map_of (map (\<lambda>x. (f x, g x)) (?a @ xs ! r # ?b))"
    using x by simp
  show ?thesis
    unfolding e remove_at_def using n by (auto simp: fun_eq_iff map_add_def split: option.splits)
qed

lemma view_forget:
  assumes "wf_map m" and "forget i m = Inr m'"
  shows "view m' = r_forget i (view m)"
  using assms
proof (rule forget_ok)
  fix r
  assume r: "r < length (table_nodes m)" "ne_id (table_nodes m ! r) = i" "r \<noteq> self_idx m"
      "\<forall>slot < CLUSTER_SLOTS. owner m slot \<noteq> r"
    and tab: "table_nodes m' = remove_at r (table_nodes m)"
    and own: "\<And>slot. owner m' slot = (if owner m slot = UNASSIGNED then UNASSIGNED else shift_down r (owner m slot))"
    and rep: "\<And>slot. replicas m' slot = (if replicas m slot = UNASSIGNED \<or> replicas m slot = r then UNASSIGNED
                                else shift_down r (replicas m slot))"
  have t: "table_ok m" using assms(1) by blast
  note cell = remove_cell [OF t tab r(1)]
  have at_r: "idx = r" if "idx < length (table_nodes m)" "ne_id (table_nodes m ! idx) = i" for idx
    using that r(1,2) t by (auto simp: table_ok_def distinct_conv_nth)
  have o: "cell_id m' (owner m' s) = cell_id m (owner m s)" "cell_id m (owner m s) \<noteq> Some i"
    and p: "cell_id m' (replicas m' s) = (if cell_id m (replicas m s) = Some i then None else cell_id m (replicas m s))"
    if s: "s < CLUSTER_SLOTS" for s
  proof -
    have ok: "slot_ok m s" by (rule wf_slot [OF assms(1) s])
    show "cell_id m' (owner m' s) = cell_id m (owner m s)"
      using ok cell(1) [of "owner m s"] r(4) s by (auto simp: own slot_ok_def cell_ok_def cell_id_def)
    show "cell_id m (owner m s) \<noteq> Some i"
      using r(4) s at_r by (auto simp: cell_id_Some)
    show "cell_id m' (replicas m' s) = (if cell_id m (replicas m s) = Some i then None else cell_id m (replicas m s))"
    proof (cases "replicas m s = UNASSIGNED \<or> replicas m s = r")
      case True
      with t r(1,2) show ?thesis by (auto simp: rep)
    next
      case False
      then have b: "replicas m s < length (table_nodes m)" "replicas m s \<noteq> r"
        using ok by (auto simp: slot_ok_def cell_ok_def)
      then have "cell_id m (replicas m s) \<noteq> Some i" using at_r by (auto simp: cell_id_Some)
      moreover have "cell_id m' (shift_down r (replicas m s)) = cell_id m (replicas m s)"
        by (simp add: cell_id_def cell(1) [OF b])
      ultimately show ?thesis using False by (simp add: rep)
    qed
  qed
  have "member_of (table_nodes m') = (member_of (table_nodes m))(i := None)"
  proof
    fix k
    have d: "distinct (map ne_id (table_nodes m))" using t by (simp add: table_ok_def)
    have "map_of (map (\<lambda>n. (ne_id n, endpoint n)) (remove_at r (table_nodes m))) k =
        ((map_of (map (\<lambda>n. (ne_id n, endpoint n)) (table_nodes m)))(i := None)) k"
      using d r(1,2) by (simp add: map_of_remove_at)
    then show "member_of (table_nodes m') k = ((member_of (table_nodes m))(i := None)) k"
      by (simp add: member_of_def tab)
  qed
  moreover have "i \<in> dom (members (view m))" using r(1,2) by auto
  moreover have "i \<notin> ran (slot_owner (view m))"
    using o(2) by (auto simp: view_def ran_def split: if_splits)
  ultimately show ?thesis
    using o p by (simp add: view_def r_forget_def fun_eq_iff)
qed

lemma forget_error:
  assumes "wf_map m" and "forget i m = Inl e"
  shows "(e = UnknownNode i \<and> i \<notin> dom (members (view m))) \<or>
    (e = ForgetSelf \<and> i = ne_id (table_nodes m ! self_idx m)) \<or>
    (e = NodeOwnsSlots i \<and> i \<in> ran (slot_owner (view m)))"
proof -
  have t: "table_ok m" using assms(1) by blast
  show ?thesis
  proof (cases "node_index m i")
    case None
    then have "e = UnknownNode i" using assms(2) by (simp add: forget_def)
    with None show ?thesis by (simp add: node_index_None)
  next
    case (Some r)
    then have r: "r < length (table_nodes m)" "ne_id (table_nodes m ! r) = i" using t by (simp_all add: node_index_iff)
    have "as_u16 r = r" using t r(1) by simp
    with Some assms(2) have "e = ForgetSelf \<and> r = self_idx m \<or> e = NodeOwnsSlots i \<and> (\<exists>s < CLUSTER_SLOTS. owner m s = r)"
      by (auto simp: forget_def Let_def list_ex_iff split: if_splits)
    then show ?thesis
    proof
      assume "e = ForgetSelf \<and> r = self_idx m"
      with r(2) show ?thesis by blast
    next
      assume a: "e = NodeOwnsSlots i \<and> (\<exists>s < CLUSTER_SLOTS. owner m s = r)"
      then obtain s where "s < CLUSTER_SLOTS" "owner m s = r" by blast
      then have "slot_owner (view m) s = Some i" using r t by (simp add: view_def)
      with a show ?thesis by (auto simp: ran_def)
    qed
  qed
qed

end
