(* ===== verification/Raft_Codec.thy ===== *)
theory Raft_Codec
  imports Bytes Raft_Types "HOL-Library.Monad_Syntax"
begin

text \<open>
  The wire codec of the consensus messages (\<open>ironcache-raft-net/src/codec.rs\<close>). An encoder returns
  the bytes the source appends to its buffer; a decoder takes the bytes from the cursor on and returns the value
  with the bytes that are left, or \<open>None\<close> where the source's \<open>?\<close> gives up. Every encoder and decoder pair
  is an instance of the \<open>codec\<close> contract of \<open>Bytes\<close>.
\<close>

abbreviation (input) MSG_REQUEST_VOTE :: u8 where "MSG_REQUEST_VOTE \<equiv> 1"
abbreviation (input) MSG_REQUEST_VOTE_RESP :: u8 where "MSG_REQUEST_VOTE_RESP \<equiv> 2"
abbreviation (input) MSG_APPEND_ENTRIES :: u8 where "MSG_APPEND_ENTRIES \<equiv> 3"
abbreviation (input) MSG_APPEND_ENTRIES_RESP :: u8 where "MSG_APPEND_ENTRIES_RESP \<equiv> 4"
abbreviation (input) MSG_PROPOSE :: u8 where "MSG_PROPOSE \<equiv> 5"
abbreviation (input) MSG_FORWARD_PROPOSE :: u8 where "MSG_FORWARD_PROPOSE \<equiv> 6"
abbreviation (input) MSG_FORWARD_PROPOSE_RESULT :: u8 where "MSG_FORWARD_PROPOSE_RESULT \<equiv> 7"
abbreviation (input) MSG_INSTALL_SNAPSHOT :: u8 where "MSG_INSTALL_SNAPSHOT \<equiv> 8"
abbreviation (input) MSG_INSTALL_SNAPSHOT_RESP :: u8 where "MSG_INSTALL_SNAPSHOT_RESP \<equiv> 9"
abbreviation (input) MSG_PRE_VOTE :: u8 where "MSG_PRE_VOTE \<equiv> 10"
abbreviation (input) MSG_PRE_VOTE_RESP :: u8 where "MSG_PRE_VOTE_RESP \<equiv> 11"

abbreviation (input) PAYLOAD_NOOP :: u8 where "PAYLOAD_NOOP \<equiv> 0"
abbreviation (input) PAYLOAD_BYTES :: u8 where "PAYLOAD_BYTES \<equiv> 1"
abbreviation (input) PAYLOAD_CONFIG :: u8 where "PAYLOAD_CONFIG \<equiv> 2"
abbreviation (input) PAYLOAD_CONFIG_CHANGE :: u8 where "PAYLOAD_CONFIG_CHANGE \<equiv> 3"

abbreviation (input) MEMBER_ADD_VOTER :: u8 where "MEMBER_ADD_VOTER \<equiv> 0"
abbreviation (input) MEMBER_REMOVE_VOTER :: u8 where "MEMBER_REMOVE_VOTER \<equiv> 1"
abbreviation (input) MEMBER_ADD_LEARNER :: u8 where "MEMBER_ADD_LEARNER \<equiv> 2"
abbreviation (input) MEMBER_PROMOTE_LEARNER :: u8 where "MEMBER_PROMOTE_LEARNER \<equiv> 3"
abbreviation (input) MEMBER_REMOVE_LEARNER :: u8 where "MEMBER_REMOVE_LEARNER \<equiv> 4"

abbreviation (input) CFG_ADD_NODE :: u8 where "CFG_ADD_NODE \<equiv> 0"
abbreviation (input) CFG_REMOVE_NODE :: u8 where "CFG_REMOVE_NODE \<equiv> 1"
abbreviation (input) CFG_SET_SLOT_OWNER :: u8 where "CFG_SET_SLOT_OWNER \<equiv> 2"
abbreviation (input) CFG_ASSIGN_SLOTS :: u8 where "CFG_ASSIGN_SLOTS \<equiv> 3"
abbreviation (input) CFG_SET_CONFIG_EPOCH :: u8 where "CFG_SET_CONFIG_EPOCH \<equiv> 4"
abbreviation (input) CFG_ASSIGN_REPLICA :: u8 where "CFG_ASSIGN_REPLICA \<equiv> 5"
abbreviation (input) CFG_PROMOTE_REPLICA :: u8 where "CFG_PROMOTE_REPLICA \<equiv> 6"
abbreviation (input) CFG_SET_SLOT_MIGRATING :: u8 where "CFG_SET_SLOT_MIGRATING \<equiv> 7"
abbreviation (input) CFG_SET_SLOT_IMPORTING :: u8 where "CFG_SET_SLOT_IMPORTING \<equiv> 8"
abbreviation (input) CFG_SET_SLOT_STABLE :: u8 where "CFG_SET_SLOT_STABLE \<equiv> 9"
abbreviation (input) CFG_UNASSIGN_SLOTS :: u8 where "CFG_UNASSIGN_SLOTS \<equiv> 10"

subsection \<open>Encoding\<close>

definition put_u64 :: "nat \<Rightarrow> bytes" where
  "put_u64 v = le_bytes 8 v"

definition put_u16 :: "u16 \<Rightarrow> bytes" where
  "put_u16 v = le_bytes 2 (unat v)"

definition put_node :: "node_id \<Rightarrow> bytes" where
  "put_node i = put_u64 (node_num i)"

definition put_bool :: "bool \<Rightarrow> bytes" where
  "put_bool b = [if b then 1 else 0]"

definition put_blob :: "bytes \<Rightarrow> bytes" where
  "put_blob bs = put_u64 (length bs) @ bs"

definition put_str :: "string \<Rightarrow> bytes" where
  "put_str s = put_blob (str_bytes s)"

definition put_slots :: "u16 list \<Rightarrow> bytes" where
  "put_slots slots = put_u64 (length slots) @ concat (map put_u16 slots)"

fun put_config :: "config_cmd \<Rightarrow> bytes" where
  "put_config (AddNode i host port) = CFG_ADD_NODE # put_str i @ put_str host @ put_u16 port"
| "put_config (RemoveNode i) = CFG_REMOVE_NODE # put_str i"
| "put_config (SetSlotOwner slot n) = CFG_SET_SLOT_OWNER # put_u16 slot @ put_str n"
| "put_config (AssignSlots n slots) = CFG_ASSIGN_SLOTS # put_str n @ put_slots slots"
| "put_config (UnassignSlots slots) = CFG_UNASSIGN_SLOTS # put_slots slots"
| "put_config (SetConfigEpoch epoch) = CFG_SET_CONFIG_EPOCH # put_u64 (unat epoch)"
| "put_config (AssignReplica n slots) = CFG_ASSIGN_REPLICA # put_str n @ put_slots slots"
| "put_config (PromoteReplica slots new_primary) = CFG_PROMOTE_REPLICA # put_slots slots @ put_str new_primary"
| "put_config (SetSlotMigrating slot dest) = CFG_SET_SLOT_MIGRATING # put_u16 slot @ put_str dest"
| "put_config (SetSlotImporting slot src dest) = CFG_SET_SLOT_IMPORTING # put_u16 slot @ put_str src @ put_str dest"
| "put_config (SetSlotStable slot) = CFG_SET_SLOT_STABLE # put_u16 slot"

definition put_node_set :: "node_id set \<Rightarrow> bytes" where
  "put_node_set A = put_u64 (card A) @ concat (map put_node (btree_iter A))"

fun put_membership :: "membership_change \<Rightarrow> bytes" where
  "put_membership (AddVoter i) = MEMBER_ADD_VOTER # put_node i"
| "put_membership (RemoveVoter i) = MEMBER_REMOVE_VOTER # put_node i"
| "put_membership (AddLearner i) = MEMBER_ADD_LEARNER # put_node i"
| "put_membership (PromoteLearner i) = MEMBER_PROMOTE_LEARNER # put_node i"
| "put_membership (RemoveLearner i) = MEMBER_REMOVE_LEARNER # put_node i"

fun put_payload :: "entry_payload \<Rightarrow> bytes" where
  "put_payload Noop = [PAYLOAD_NOOP]"
| "put_payload (Bytes bs) = PAYLOAD_BYTES # put_blob bs"
| "put_payload (Config cmd) = PAYLOAD_CONFIG # put_config cmd"
| "put_payload (ConfigChange ch) = PAYLOAD_CONFIG_CHANGE # put_membership ch"

definition put_entry :: "log_entry \<Rightarrow> bytes" where
  "put_entry e = put_u64 (entry_term e) @ put_u64 (entry_index e) @ put_payload (payload e)"

fun encode_raft_msg :: "raft_msg \<Rightarrow> bytes" where
  "encode_raft_msg (RequestVote t cand li lt) =
     MSG_REQUEST_VOTE # put_u64 t @ put_node cand @ put_u64 li @ put_u64 lt"
| "encode_raft_msg (RequestVoteResp t granted) = MSG_REQUEST_VOTE_RESP # put_u64 t @ put_bool granted"
| "encode_raft_msg (PreVote t cand li lt) =
     MSG_PRE_VOTE # put_u64 t @ put_node cand @ put_u64 li @ put_u64 lt"
| "encode_raft_msg (PreVoteResp t granted) = MSG_PRE_VOTE_RESP # put_u64 t @ put_bool granted"
| "encode_raft_msg (AppendEntries t leader pi pt es lc) =
     MSG_APPEND_ENTRIES # put_u64 t @ put_node leader @ put_u64 pi @ put_u64 pt @ put_u64 lc @
       put_u64 (length es) @ concat (map put_entry es)"
| "encode_raft_msg (AppendEntriesResp t success match_index) =
     MSG_APPEND_ENTRIES_RESP # put_u64 t @ put_bool success @ put_u64 match_index"
| "encode_raft_msg (Propose p) = MSG_PROPOSE # put_payload p"
| "encode_raft_msg (ForwardPropose corr p) = MSG_FORWARD_PROPOSE # put_u64 corr @ put_payload p"
| "encode_raft_msg (ForwardProposeResult corr outcome) =
     MSG_FORWARD_PROPOSE_RESULT # put_u64 corr @
       (case outcome of Some index \<Rightarrow> 1 # put_u64 index | None \<Rightarrow> 0 # put_u64 0)"
| "encode_raft_msg (InstallSnapshot t leader li lt offset data fin vs ls) =
     MSG_INSTALL_SNAPSHOT # put_u64 t @ put_node leader @ put_u64 li @ put_u64 lt @ put_u64 offset @ put_blob data @
       put_bool fin @ put_node_set vs @ put_node_set ls"
| "encode_raft_msg (InstallSnapshotResp t li installed next_offset) =
     MSG_INSTALL_SNAPSHOT_RESP # put_u64 t @ put_u64 li @ put_bool installed @ put_u64 next_offset"

subsection \<open>Decoding\<close>

fun get_u8 :: "bytes \<Rightarrow> (u8 \<times> bytes) option" where
  "get_u8 [] = None"
| "get_u8 (b # bs) = Some (b, bs)"

definition get_fixed :: "nat \<Rightarrow> bytes \<Rightarrow> (bytes \<times> bytes) option" where
  "get_fixed n bs = (if n \<le> length bs then Some (take n bs, drop n bs) else None)"

definition get_u16 :: "bytes \<Rightarrow> (u16 \<times> bytes) option" where
  "get_u16 bs = do { (s, bs) \<leftarrow> get_fixed 2 bs; Some (of_nat (le_value s), bs) }"

definition get_u64 :: "bytes \<Rightarrow> (nat \<times> bytes) option" where
  "get_u64 bs = do { (s, bs) \<leftarrow> get_fixed 8 bs; Some (le_value s, bs) }"

definition get_node :: "bytes \<Rightarrow> (node_id \<times> bytes) option" where
  "get_node bs = do { (n, bs) \<leftarrow> get_u64 bs; Some (NodeId n, bs) }"

definition get_bool :: "bytes \<Rightarrow> (bool \<times> bytes) option" where
  "get_bool bs = do { (b, bs) \<leftarrow> get_u8 bs; Some (b \<noteq> 0, bs) }"

definition get_blob :: "bytes \<Rightarrow> (bytes \<times> bytes) option" where
  "get_blob bs = do { (len, bs) \<leftarrow> get_u64 bs; get_fixed len bs }"

definition get_string :: "bytes \<Rightarrow> (string \<times> bytes) option" where
  "get_string bs = do { (b, bs) \<leftarrow> get_blob bs; s \<leftarrow> from_utf8 b; Some (s, bs) }"

definition get_slots :: "bytes \<Rightarrow> (u16 list \<times> bytes) option" where
  "get_slots bs = do { (count, bs) \<leftarrow> get_u64 bs; dec_count get_u16 count bs }"

definition get_config :: "bytes \<Rightarrow> (config_cmd \<times> bytes) option" where
  "get_config bs = do {
     (tag, bs) \<leftarrow> get_u8 bs;
     if tag = CFG_ADD_NODE then do {
       (i, bs) \<leftarrow> get_string bs; (host, bs) \<leftarrow> get_string bs; (port, bs) \<leftarrow> get_u16 bs;
       Some (AddNode i host port, bs) }
     else if tag = CFG_REMOVE_NODE then do { (i, bs) \<leftarrow> get_string bs; Some (RemoveNode i, bs) }
     else if tag = CFG_SET_SLOT_OWNER then do {
       (slot, bs) \<leftarrow> get_u16 bs; (n, bs) \<leftarrow> get_string bs; Some (SetSlotOwner slot n, bs) }
     else if tag = CFG_ASSIGN_SLOTS then do {
       (n, bs) \<leftarrow> get_string bs; (slots, bs) \<leftarrow> get_slots bs; Some (AssignSlots n slots, bs) }
     else if tag = CFG_SET_CONFIG_EPOCH then do {
       (epoch, bs) \<leftarrow> get_u64 bs; Some (SetConfigEpoch (of_nat epoch), bs) }
     else if tag = CFG_UNASSIGN_SLOTS then do { (slots, bs) \<leftarrow> get_slots bs; Some (UnassignSlots slots, bs) }
     else if tag = CFG_ASSIGN_REPLICA then do {
       (n, bs) \<leftarrow> get_string bs; (slots, bs) \<leftarrow> get_slots bs; Some (AssignReplica n slots, bs) }
     else if tag = CFG_PROMOTE_REPLICA then do {
       (slots, bs) \<leftarrow> get_slots bs; (new_primary, bs) \<leftarrow> get_string bs; Some (PromoteReplica slots new_primary, bs) }
     else if tag = CFG_SET_SLOT_MIGRATING then do {
       (slot, bs) \<leftarrow> get_u16 bs; (dest, bs) \<leftarrow> get_string bs; Some (SetSlotMigrating slot dest, bs) }
     else if tag = CFG_SET_SLOT_IMPORTING then do {
       (slot, bs) \<leftarrow> get_u16 bs; (src, bs) \<leftarrow> get_string bs; (dest, bs) \<leftarrow> get_string bs;
       Some (SetSlotImporting slot src dest, bs) }
     else if tag = CFG_SET_SLOT_STABLE then do { (slot, bs) \<leftarrow> get_u16 bs; Some (SetSlotStable slot, bs) }
     else None }"

definition get_node_set :: "bytes \<Rightarrow> (node_id set \<times> bytes) option" where
  "get_node_set bs = do {
     (count, bs) \<leftarrow> get_u64 bs; (ids, bs) \<leftarrow> dec_count get_node count bs; Some (set ids, bs) }"

definition get_membership :: "bytes \<Rightarrow> (membership_change \<times> bytes) option" where
  "get_membership bs = do {
     (tag, bs) \<leftarrow> get_u8 bs;
     if tag = MEMBER_ADD_VOTER then do { (i, bs) \<leftarrow> get_node bs; Some (AddVoter i, bs) }
     else if tag = MEMBER_REMOVE_VOTER then do { (i, bs) \<leftarrow> get_node bs; Some (RemoveVoter i, bs) }
     else if tag = MEMBER_ADD_LEARNER then do { (i, bs) \<leftarrow> get_node bs; Some (AddLearner i, bs) }
     else if tag = MEMBER_PROMOTE_LEARNER then do { (i, bs) \<leftarrow> get_node bs; Some (PromoteLearner i, bs) }
     else if tag = MEMBER_REMOVE_LEARNER then do { (i, bs) \<leftarrow> get_node bs; Some (RemoveLearner i, bs) }
     else None }"

definition get_payload :: "bytes \<Rightarrow> (entry_payload \<times> bytes) option" where
  "get_payload bs = do {
     (tag, bs) \<leftarrow> get_u8 bs;
     if tag = PAYLOAD_NOOP then Some (Noop, bs)
     else if tag = PAYLOAD_BYTES then do { (b, bs) \<leftarrow> get_blob bs; Some (Bytes b, bs) }
     else if tag = PAYLOAD_CONFIG then do { (cmd, bs) \<leftarrow> get_config bs; Some (Config cmd, bs) }
     else if tag = PAYLOAD_CONFIG_CHANGE then do { (ch, bs) \<leftarrow> get_membership bs; Some (ConfigChange ch, bs) }
     else None }"

definition get_entry :: "bytes \<Rightarrow> (log_entry \<times> bytes) option" where
  "get_entry bs = do {
     (t, bs) \<leftarrow> get_u64 bs; (i, bs) \<leftarrow> get_u64 bs; (p, bs) \<leftarrow> get_payload bs;
     Some (\<lparr>entry_term = t, entry_index = i, payload = p\<rparr>, bs) }"

text \<open>The body of \<open>decode_raft_msg\<close> before its trailing-bytes check.\<close>

definition get_raft_msg :: "bytes \<Rightarrow> (raft_msg \<times> bytes) option" where
  "get_raft_msg bs = do {
     (tag, bs) \<leftarrow> get_u8 bs;
     if tag = MSG_REQUEST_VOTE then do {
       (t, bs) \<leftarrow> get_u64 bs; (cand, bs) \<leftarrow> get_node bs; (li, bs) \<leftarrow> get_u64 bs; (lt, bs) \<leftarrow> get_u64 bs;
       Some (RequestVote t cand li lt, bs) }
     else if tag = MSG_REQUEST_VOTE_RESP then do {
       (t, bs) \<leftarrow> get_u64 bs; (granted, bs) \<leftarrow> get_bool bs; Some (RequestVoteResp t granted, bs) }
     else if tag = MSG_PRE_VOTE then do {
       (t, bs) \<leftarrow> get_u64 bs; (cand, bs) \<leftarrow> get_node bs; (li, bs) \<leftarrow> get_u64 bs; (lt, bs) \<leftarrow> get_u64 bs;
       Some (PreVote t cand li lt, bs) }
     else if tag = MSG_PRE_VOTE_RESP then do {
       (t, bs) \<leftarrow> get_u64 bs; (granted, bs) \<leftarrow> get_bool bs; Some (PreVoteResp t granted, bs) }
     else if tag = MSG_APPEND_ENTRIES then do {
       (t, bs) \<leftarrow> get_u64 bs; (leader, bs) \<leftarrow> get_node bs; (pi, bs) \<leftarrow> get_u64 bs; (pt, bs) \<leftarrow> get_u64 bs;
       (lc, bs) \<leftarrow> get_u64 bs; (count, bs) \<leftarrow> get_u64 bs; (es, bs) \<leftarrow> dec_count get_entry count bs;
       Some (AppendEntries t leader pi pt es lc, bs) }
     else if tag = MSG_APPEND_ENTRIES_RESP then do {
       (t, bs) \<leftarrow> get_u64 bs; (success, bs) \<leftarrow> get_bool bs; (match_index, bs) \<leftarrow> get_u64 bs;
       Some (AppendEntriesResp t success match_index, bs) }
     else if tag = MSG_PROPOSE then do { (p, bs) \<leftarrow> get_payload bs; Some (Propose p, bs) }
     else if tag = MSG_FORWARD_PROPOSE then do {
       (corr, bs) \<leftarrow> get_u64 bs; (p, bs) \<leftarrow> get_payload bs; Some (ForwardPropose corr p, bs) }
     else if tag = MSG_FORWARD_PROPOSE_RESULT then do {
       (corr, bs) \<leftarrow> get_u64 bs; (present, bs) \<leftarrow> get_bool bs; (index, bs) \<leftarrow> get_u64 bs;
       Some (ForwardProposeResult corr (if present then Some index else None), bs) }
     else if tag = MSG_INSTALL_SNAPSHOT then do {
       (t, bs) \<leftarrow> get_u64 bs; (leader, bs) \<leftarrow> get_node bs; (li, bs) \<leftarrow> get_u64 bs; (lt, bs) \<leftarrow> get_u64 bs;
       (offset, bs) \<leftarrow> get_u64 bs; (data, bs) \<leftarrow> get_blob bs; (fin, bs) \<leftarrow> get_bool bs;
       (vs, bs) \<leftarrow> get_node_set bs; (ls, bs) \<leftarrow> get_node_set bs;
       Some (InstallSnapshot t leader li lt offset data fin vs ls, bs) }
     else if tag = MSG_INSTALL_SNAPSHOT_RESP then do {
       (t, bs) \<leftarrow> get_u64 bs; (li, bs) \<leftarrow> get_u64 bs; (installed, bs) \<leftarrow> get_bool bs; (next_offset, bs) \<leftarrow> get_u64 bs;
       Some (InstallSnapshotResp t li installed next_offset, bs) }
     else None }"

definition decode_raft_msg :: "bytes \<Rightarrow> raft_msg option" where
  "decode_raft_msg buf = do { (msg, rest) \<leftarrow> get_raft_msg buf; if rest = [] then Some msg else None }"

subsection \<open>What can be sent\<close>

abbreviation is_u64 :: "nat \<Rightarrow> bool" where
  "is_u64 n \<equiv> n < 256 ^ 8"

definition blob_ok :: "bytes \<Rightarrow> bool" where
  "blob_ok bs \<longleftrightarrow> is_u64 (length bs)"

definition str_ok :: "string \<Rightarrow> bool" where
  "str_ok s \<longleftrightarrow> is_u64 (length s) \<and> utf8_string s"

definition slots_ok :: "u16 list \<Rightarrow> bool" where
  "slots_ok slots \<longleftrightarrow> is_u64 (length slots)"

definition node_ok_u64 :: "node_id \<Rightarrow> bool" where
  "node_ok_u64 i \<longleftrightarrow> is_u64 (node_num i)"

definition node_set_ok :: "node_id set \<Rightarrow> bool" where
  "node_set_ok A \<longleftrightarrow> finite A \<and> is_u64 (card A) \<and> (\<forall>i \<in> A. node_ok_u64 i)"

fun config_ok :: "config_cmd \<Rightarrow> bool" where
  "config_ok (AddNode i host port) \<longleftrightarrow> str_ok i \<and> str_ok host"
| "config_ok (RemoveNode i) \<longleftrightarrow> str_ok i"
| "config_ok (SetSlotOwner slot n) \<longleftrightarrow> str_ok n"
| "config_ok (AssignSlots n slots) \<longleftrightarrow> str_ok n \<and> slots_ok slots"
| "config_ok (UnassignSlots slots) \<longleftrightarrow> slots_ok slots"
| "config_ok (SetConfigEpoch epoch) \<longleftrightarrow> True"
| "config_ok (AssignReplica n slots) \<longleftrightarrow> str_ok n \<and> slots_ok slots"
| "config_ok (PromoteReplica slots p) \<longleftrightarrow> slots_ok slots \<and> str_ok p"
| "config_ok (SetSlotMigrating slot dest) \<longleftrightarrow> str_ok dest"
| "config_ok (SetSlotImporting slot src dest) \<longleftrightarrow> str_ok src \<and> str_ok dest"
| "config_ok (SetSlotStable slot) \<longleftrightarrow> True"

fun membership_ok :: "membership_change \<Rightarrow> bool" where
  "membership_ok (AddVoter i) = node_ok_u64 i"
| "membership_ok (RemoveVoter i) = node_ok_u64 i"
| "membership_ok (AddLearner i) = node_ok_u64 i"
| "membership_ok (PromoteLearner i) = node_ok_u64 i"
| "membership_ok (RemoveLearner i) = node_ok_u64 i"

fun payload_ok :: "entry_payload \<Rightarrow> bool" where
  "payload_ok Noop = True"
| "payload_ok (Bytes bs) = blob_ok bs"
| "payload_ok (Config cmd) = config_ok cmd"
| "payload_ok (ConfigChange ch) = membership_ok ch"

definition entry_ok :: "log_entry \<Rightarrow> bool" where
  "entry_ok e \<longleftrightarrow> is_u64 (entry_term e) \<and> is_u64 (entry_index e) \<and> payload_ok (payload e)"

fun msg_ok :: "raft_msg \<Rightarrow> bool" where
  "msg_ok (RequestVote t cand li lt) \<longleftrightarrow> is_u64 t \<and> node_ok_u64 cand \<and> is_u64 li \<and> is_u64 lt"
| "msg_ok (RequestVoteResp t granted) \<longleftrightarrow> is_u64 t"
| "msg_ok (PreVote t cand li lt) \<longleftrightarrow> is_u64 t \<and> node_ok_u64 cand \<and> is_u64 li \<and> is_u64 lt"
| "msg_ok (PreVoteResp t granted) \<longleftrightarrow> is_u64 t"
| "msg_ok (AppendEntries t l pi pt es lc) \<longleftrightarrow>
     is_u64 t \<and> node_ok_u64 l \<and> is_u64 pi \<and> is_u64 pt \<and> is_u64 lc \<and> is_u64 (length es) \<and> (\<forall>e \<in> set es. entry_ok e)"
| "msg_ok (AppendEntriesResp t s m) \<longleftrightarrow> is_u64 t \<and> is_u64 m"
| "msg_ok (Propose p) \<longleftrightarrow> payload_ok p"
| "msg_ok (ForwardPropose corr p) \<longleftrightarrow> is_u64 corr \<and> payload_ok p"
| "msg_ok (ForwardProposeResult corr outcome) \<longleftrightarrow> is_u64 corr \<and> (case outcome of None \<Rightarrow> True | Some i \<Rightarrow> is_u64 i)"
| "msg_ok (InstallSnapshot t l li lt off d fin vs ls) \<longleftrightarrow>
     is_u64 t \<and> node_ok_u64 l \<and> is_u64 li \<and> is_u64 lt \<and> is_u64 off \<and> blob_ok d \<and> node_set_ok vs \<and> node_set_ok ls"
| "msg_ok (InstallSnapshotResp t li inst off) \<longleftrightarrow> is_u64 t \<and> is_u64 li \<and> is_u64 off"

subsection \<open>Every field is a codec\<close>

lemma get_fixed_append [codec_simps]: "length bs = n \<Longrightarrow> get_fixed n (bs @ rest) = Some (bs, rest)"
  by (auto simp: get_fixed_def)

lemma streaming_fixed [streaming_intros]: "streaming (get_fixed n)"
  by (auto simp: streaming_def get_fixed_def split: if_splits)

lemma streaming_u8 [streaming_intros]: "streaming get_u8"
  unfolding streaming_def by (intro allI, case_tac bs) auto

interpretation u64: codec put_u64 get_u64 "\<lambda>n. is_u64 n"
  by unfold_locales
    (auto simp: put_u64_def get_u64_def [abs_def] get_fixed_append le_value_le_bytes intro!: streaming_intros)

interpretation u16: codec put_u16 get_u16 "\<lambda>_. True"
proof
  fix w :: u16 and rest
  have "unat w < 256 ^ 2" using unsigned_less [of w] by simp
  from le_value_word [OF this] show "get_u16 (put_u16 w @ rest) = Some (w, rest)"
    by (simp add: put_u16_def get_u16_def get_fixed_append)
qed (unfold get_u16_def [abs_def], intro streaming_intros)

lemma u64_word: "get_u64 (put_u64 (unat (w :: u64)) @ rest) = Some (unat w, rest)"
  using unsigned_less [of w] by (intro u64.dec_enc) simp

lemmas field_streaming [streaming_intros] = u64.dec_streaming u16.dec_streaming
lemmas field_dec_enc [codec_simps] = u64.dec_enc u16.dec_enc [simplified]

interpretation node: codec put_node get_node node_ok_u64
  by unfold_locales (auto simp: put_node_def get_node_def [abs_def] node_ok_u64_def codec_simps intro!: streaming_intros)

interpretation bool: codec put_bool get_bool "\<lambda>_. True"
  by unfold_locales (auto simp: put_bool_def get_bool_def [abs_def] intro!: streaming_intros)

interpretation blob: codec put_blob get_blob blob_ok
  by unfold_locales (auto simp: put_blob_def get_blob_def [abs_def] blob_ok_def codec_simps intro!: streaming_intros)

lemmas value_streaming [streaming_intros] = node.dec_streaming bool.dec_streaming blob.dec_streaming
lemmas value_dec_enc [codec_simps] = node.dec_enc bool.dec_enc [simplified] blob.dec_enc

interpretation str: codec put_str get_string str_ok
  by unfold_locales
    (auto simp: put_str_def get_string_def [abs_def] str_ok_def blob_ok_def codec_simps intro!: streaming_intros)

interpretation slots: codec put_slots get_slots slots_ok
  by unfold_locales
    (auto simp: put_slots_def get_slots_def [abs_def] slots_ok_def u16.dec_count_concat codec_simps intro!: streaming_intros)

lemma node_set_concat:
  "node_set_ok A \<Longrightarrow> dec_count get_node (card A) (concat (map put_node (btree_iter A)) @ rest) = Some (btree_iter A, rest)"
  using node.dec_count_concat [of "btree_iter A" rest] by (simp add: node_set_ok_def btree_iter_def)

interpretation node_set: codec put_node_set get_node_set node_set_ok
  by unfold_locales
    (auto simp: put_node_set_def get_node_set_def [abs_def] node_set_concat node_set_ok_def codec_simps
      intro!: streaming_intros)

lemmas list_streaming [streaming_intros] = str.dec_streaming slots.dec_streaming node_set.dec_streaming
lemmas list_dec_enc [codec_simps] = str.dec_enc slots.dec_enc node_set.dec_enc

interpretation config: codec put_config get_config config_ok
proof
  fix cmd rest
  assume "config_ok cmd"
  then show "get_config (put_config cmd @ rest) = Some (cmd, rest)"
    by (cases cmd) (simp_all add: get_config_def u64_word codec_simps)
qed (unfold get_config_def [abs_def], intro streaming_intros)

interpretation membership: codec put_membership get_membership membership_ok
proof
  fix ch rest
  assume "membership_ok ch"
  then show "get_membership (put_membership ch @ rest) = Some (ch, rest)"
    by (cases ch) (simp_all add: get_membership_def codec_simps)
qed (unfold get_membership_def [abs_def], intro streaming_intros)

lemmas command_streaming [streaming_intros] = config.dec_streaming membership.dec_streaming
lemmas command_dec_enc [codec_simps] = config.dec_enc membership.dec_enc

interpretation payload: codec put_payload get_payload payload_ok
proof
  fix p rest
  assume "payload_ok p"
  then show "get_payload (put_payload p @ rest) = Some (p, rest)"
    by (cases p) (simp_all add: get_payload_def codec_simps)
qed (unfold get_payload_def [abs_def], intro streaming_intros)

lemmas payload_streaming [streaming_intros] = payload.dec_streaming
lemmas payload_dec_enc [codec_simps] = payload.dec_enc

interpretation entry: codec put_entry get_entry entry_ok
  by unfold_locales (auto simp: put_entry_def get_entry_def [abs_def] entry_ok_def codec_simps intro!: streaming_intros)

lemmas entry_streaming [streaming_intros] = entry.dec_streaming
lemmas entry_dec_enc [codec_simps] = entry.dec_enc entry.dec_count_concat

interpretation msg: codec encode_raft_msg get_raft_msg msg_ok
proof
  fix m rest
  assume "msg_ok m"
  then show "get_raft_msg (encode_raft_msg m @ rest) = Some (m, rest)"
    by (cases m) (simp_all add: get_raft_msg_def get_bool_def [of "_ # _"] codec_simps split: option.splits)
qed (unfold get_raft_msg_def [abs_def], intro streaming_intros)

text \<open>
  C21: every message with in-range fields survives the wire, and no truncation of its encoding and
  no trailing bytes are accepted.
\<close>

theorem raft_wire_roundtrip:
  assumes "msg_ok m"
  shows "decode_raft_msg (encode_raft_msg m) = Some m \<and>
    (\<forall>bs tail. encode_raft_msg m = bs @ tail \<and> tail \<noteq> [] \<longrightarrow> decode_raft_msg bs = None) \<and>
    (\<forall>junk. junk \<noteq> [] \<longrightarrow> decode_raft_msg (encode_raft_msg m @ junk) = None)"
proof (intro conjI allI impI)
  show "decode_raft_msg (encode_raft_msg m) = Some m"
    using msg.dec_enc [OF assms, of "[]"] by (simp add: decode_raft_msg_def)
next
  fix bs tail
  assume "encode_raft_msg m = bs @ tail \<and> tail \<noteq> []"
  then have "get_raft_msg bs \<noteq> Some (x, [])" for x
    using msg.truncated_undecoded [OF assms] by blast
  then show "decode_raft_msg bs = None"
    by (cases "get_raft_msg bs") (auto simp: decode_raft_msg_def)
next
  fix junk :: bytes
  assume "junk \<noteq> []"
  then show "decode_raft_msg (encode_raft_msg m @ junk) = None"
    using msg.dec_enc [OF assms] by (simp add: decode_raft_msg_def)
qed

definition demo_wire :: raft_msg where
  "demo_wire = AppendEntries 3 (NodeId 1) 4 2
     [\<lparr>entry_term = 3, entry_index = 5, payload = Config (SetSlotOwner 7 ''abc'')\<rparr>,
      \<lparr>entry_term = 3, entry_index = 6, payload = ConfigChange (AddLearner (NodeId 300))\<rparr>] 4"

theorem raft_wire_roundtrip_witness:
  "msg_ok demo_wire \<and> decode_raft_msg (encode_raft_msg demo_wire) = Some demo_wire \<and>
   decode_raft_msg (encode_raft_msg demo_wire @ [0]) = None"
proof -
  have "msg_ok demo_wire"
    by (simp add: demo_wire_def entry_ok_def node_ok_u64_def str_ok_def str_bytes_def)
  with raft_wire_roundtrip [OF this] show ?thesis by simp
qed

end
