(* ===== verification/Slot_Snapshot.thy ===== *)
theory Slot_Snapshot
  imports Slot_Routing Raft_Codec "HOL-Library.Multiset"
begin

text \<open>
  Serialization of the committed part of a slot map and its restoration
  (\<open>serialize_committed\<close>, \<open>decode_committed_snapshot\<close> and \<open>restore_committed\<close> of
  \<open>ironcache-cluster/src/lib.rs\<close>), with the proof that restoring what was serialized gives the same routing state.
\<close>

definition ser_u64 :: "nat \<Rightarrow> bytes" where
  "ser_u64 v = le_bytes 8 v"

definition ser_u16 :: "u16 \<Rightarrow> bytes" where
  "ser_u16 v = le_bytes 2 (unat v)"

definition ser_str :: "string \<Rightarrow> bytes" where
  "ser_str s = ser_u64 (length s) @ str_bytes s"

fun de_u8 :: "bytes \<Rightarrow> (u8 \<times> bytes) option" where
  "de_u8 [] = None"
| "de_u8 (b # bs) = Some (b, bs)"

definition de_take :: "nat \<Rightarrow> bytes \<Rightarrow> (bytes \<times> bytes) option" where
  "de_take n bs = (if n \<le> length bs then Some (take n bs, drop n bs) else None)"

definition de_u16 :: "bytes \<Rightarrow> (u16 \<times> bytes) option" where
  "de_u16 bs = do { (s, bs) \<leftarrow> de_take 2 bs; Some (of_nat (le_value s), bs) }"

definition de_u64 :: "bytes \<Rightarrow> (nat \<times> bytes) option" where
  "de_u64 bs = do { (s, bs) \<leftarrow> de_take 8 bs; Some (le_value s, bs) }"

definition de_string :: "bytes \<Rightarrow> (string \<times> bytes) option" where
  "de_string bs = do {
     (len, bs) \<leftarrow> de_u64 bs; (b, bs) \<leftarrow> de_take len bs; s \<leftarrow> from_utf8 b; Some (s, bs) }"

record committed_snapshot =
  cs_epoch :: nat
  snap_nodes :: "node_entry list"
  snap_owners :: "(u16 \<times> string) list"
  snap_reps :: "(u16 \<times> string) list"
  snap_migs :: "(u16 \<times> u8 \<times> string) list"

definition ser_node :: "node_entry \<Rightarrow> bytes" where
  "ser_node n = ser_str (ne_id n) @ ser_str (ne_host n) @ ser_u16 (ne_port n)"

definition ser_slot_id :: "u16 \<times> string \<Rightarrow> bytes" where
  "ser_slot_id = (\<lambda>(slot, i). ser_u16 slot @ ser_str i)"

definition ser_slot_mig :: "u16 \<times> u8 \<times> string \<Rightarrow> bytes" where
  "ser_slot_mig = (\<lambda>(slot, st, i). ser_u16 slot @ [st] @ ser_str i)"

definition de_node :: "bytes \<Rightarrow> (node_entry \<times> bytes) option" where
  "de_node bs = do {
     (i, bs) \<leftarrow> de_string bs; (host, bs) \<leftarrow> de_string bs; (port, bs) \<leftarrow> de_u16 bs;
     Some (\<lparr>ne_id = i, ne_host = host, ne_port = port\<rparr>, bs) }"

definition de_slot_id :: "bytes \<Rightarrow> ((u16 \<times> string) \<times> bytes) option" where
  "de_slot_id bs = do { (slot, bs) \<leftarrow> de_u16 bs; (i, bs) \<leftarrow> de_string bs; Some ((slot, i), bs) }"

definition de_slot_mig :: "bytes \<Rightarrow> ((u16 \<times> u8 \<times> string) \<times> bytes) option" where
  "de_slot_mig bs = do {
     (slot, bs) \<leftarrow> de_u16 bs; (st, bs) \<leftarrow> de_u8 bs; (i, bs) \<leftarrow> de_string bs; Some ((slot, st, i), bs) }"

definition decode_committed_snapshot :: "bytes \<Rightarrow> committed_snapshot option" where
  "decode_committed_snapshot data = do {
     (e, bs) \<leftarrow> de_u64 data;
     (node_count, bs) \<leftarrow> de_u64 bs;
     (ns, bs) \<leftarrow> dec_count de_node node_count bs;
     (owner_count, bs) \<leftarrow> de_u64 bs;
     (ows, bs) \<leftarrow> dec_count de_slot_id owner_count bs;
     (rep_count, bs) \<leftarrow> de_u64 bs;
     (rps, bs) \<leftarrow> dec_count de_slot_id rep_count bs;
     (mig_count, bs) \<leftarrow> de_u64 bs;
     (mgs, bs) \<leftarrow> dec_count de_slot_mig mig_count bs;
     Some \<lparr>cs_epoch = e, snap_nodes = ns, snap_owners = ows, snap_reps = rps, snap_migs = mgs\<rparr> }"

text \<open>The per-slot lists \<open>serialize_committed\<close> collects, in slot order.\<close>

definition named_cells :: "slot_map \<Rightarrow> nat slot_array \<Rightarrow> (u16 \<times> string) list" where
  "named_cells m a =
     List.map_filter (\<lambda>slot. map_option (\<lambda>i. (of_nat slot, i)) (cell_id m (a slot))) [0..<CLUSTER_SLOTS]"

definition named_migs :: "slot_map \<Rightarrow> (u16 \<times> u8 \<times> string) list" where
  "named_migs m =
     List.map_filter
       (\<lambda>slot. if mig_state m slot = MIG_NONE then None
               else map_option (\<lambda>i. (of_nat slot, mig_state m slot, i)) (cell_id m (mig_peer m slot)))
       [0..<CLUSTER_SLOTS]"

definition committed_of :: "slot_map \<Rightarrow> committed_snapshot" where
  "committed_of m =
     \<lparr>cs_epoch = current_epoch m, snap_nodes = sort_key ne_id (table_nodes m),
      snap_owners = named_cells m (owner m), snap_reps = named_cells m (replicas m), snap_migs = named_migs m\<rparr>"

definition serialize_committed :: "slot_map \<Rightarrow> bytes" where
  "serialize_committed m =
     (let s = committed_of m
      in ser_u64 (cs_epoch s) @
         ser_u64 (length (snap_nodes s)) @ concat (map ser_node (snap_nodes s)) @
         ser_u64 (length (snap_owners s)) @ concat (map ser_slot_id (snap_owners s)) @
         ser_u64 (length (snap_reps s)) @ concat (map ser_slot_id (snap_reps s)) @
         ser_u64 (length (snap_migs s)) @ concat (map ser_slot_mig (snap_migs s)))"

definition fold_node :: "node_entry \<Rightarrow> node_entry list \<Rightarrow> node_entry list" where
  "fold_node n ns = (if list_ex (\<lambda>e. ne_id e = ne_id n) ns then ns else ns @ [n])"

definition index_of :: "node_entry list \<Rightarrow> string \<Rightarrow> nat option" where
  "index_of ns i = map_option as_u16 (position (\<lambda>e. ne_id e = i) ns)"

definition publish_cell :: "node_entry list \<Rightarrow> u16 \<times> string \<Rightarrow> nat slot_array \<Rightarrow> nat slot_array" where
  "publish_cell ns = (\<lambda>(slot, i) a.
     (case index_of ns i of Some idx \<Rightarrow> if in_range slot then a(unat slot := idx) else a | None \<Rightarrow> a))"

definition publish_mine :: "node_entry list \<Rightarrow> node_entry \<Rightarrow> u16 \<times> string \<Rightarrow> bool slot_array \<Rightarrow> bool slot_array" where
  "publish_mine ns self_entry = (\<lambda>(slot, i) a.
     (case index_of ns i of
        Some idx \<Rightarrow>
          if in_range slot
          then a(unat slot := (idx = 0 \<or> (case get ns idx of Some ow \<Rightarrow> same_endpoint ow self_entry | None \<Rightarrow> False)))
          else a
      | None \<Rightarrow> a))"

definition publish_mig ::
  "node_entry list \<Rightarrow> u16 \<times> u8 \<times> string \<Rightarrow> u8 slot_array \<times> nat slot_array \<Rightarrow> u8 slot_array \<times> nat slot_array" where
  "publish_mig ns = (\<lambda>(slot, st, i) (sts, peers).
     if in_range slot \<and> (st = MIG_MIGRATING \<or> st = MIG_IMPORTING)
     then (case index_of ns i of
             Some idx \<Rightarrow> (sts(unat slot := st), peers(unat slot := idx))
           | None \<Rightarrow> (sts, peers))
     else (sts, peers))"

definition restore_committed :: "bytes \<Rightarrow> slot_map \<Rightarrow> slot_map option" where
  "restore_committed data m =
     (case decode_committed_snapshot data of
        None \<Rightarrow> Some m
      | Some s \<Rightarrow> do {
          self_entry \<leftarrow> get (table_nodes m) (self_idx m);
          let new_nodes = fold fold_node (snap_nodes s) [self_entry];
          let migs = fold (publish_mig new_nodes) (snap_migs s) (\<lambda>_. MIG_NONE, \<lambda>_. UNASSIGNED);
          Some (m\<lparr>table_nodes := new_nodes, config_epochs := replicate (length new_nodes) 0, self_idx := 0,
                  owner := fold (publish_cell new_nodes) (snap_owners s) (\<lambda>_. UNASSIGNED),
                  mine := fold (publish_mine new_nodes self_entry) (snap_owners s) (\<lambda>_. False),
                  replicas := fold (publish_cell new_nodes) (snap_reps s) (\<lambda>_. UNASSIGNED),
                  mig_state := fst migs, mig_peer := snd migs, current_epoch := cs_epoch s\<rparr>) })"

subsection \<open>Decoding what was serialized\<close>

lemma de_u8_eq: "de_u8 = get_u8"
proof
  fix bs show "de_u8 bs = get_u8 bs" by (cases bs) auto
qed

lemma de_eqs [simp]:
  "ser_u64 = put_u64" "ser_u16 = put_u16" "ser_str = put_str" "de_u8 = get_u8" "de_u64 = get_u64" "de_u16 = get_u16"
  "de_string = get_string"
  by (simp_all add: fun_eq_iff ser_u64_def ser_u16_def ser_str_def put_u64_def put_u16_def put_str_def put_blob_def
      de_u64_def get_u64_def de_u16_def get_u16_def de_string_def get_string_def get_blob_def de_take_def get_fixed_def
      Let_def de_u8_eq split: option.splits)

definition node_entry_ok :: "node_entry \<Rightarrow> bool" where
  "node_entry_ok n \<longleftrightarrow> str_ok (ne_id n) \<and> str_ok (ne_host n)"

interpretation snap_node: codec ser_node de_node node_entry_ok
  by unfold_locales
    (auto simp: ser_node_def de_node_def [abs_def] node_entry_ok_def codec_simps intro!: streaming_intros)

interpretation snap_cell: codec ser_slot_id de_slot_id "\<lambda>(slot, i). str_ok i"
  by unfold_locales
    (auto simp: ser_slot_id_def de_slot_id_def [abs_def] codec_simps intro!: streaming_intros)

interpretation snap_mig: codec ser_slot_mig de_slot_mig "\<lambda>(slot, st, i). str_ok i"
  by unfold_locales
    (auto simp: ser_slot_mig_def de_slot_mig_def [abs_def] codec_simps intro!: streaming_intros)

definition snapshot_ok :: "slot_map \<Rightarrow> bool" where
  "snapshot_ok m \<longleftrightarrow> is_u64 (current_epoch m) \<and> (\<forall>n \<in> set (table_nodes m). node_entry_ok n)"

lemma cell_id_ok: "snapshot_ok m \<Longrightarrow> cell_id m idx = Some i \<Longrightarrow> str_ok i"
  by (auto simp: cell_id_Some snapshot_ok_def node_entry_ok_def)

lemma length_map_filter: "length (List.map_filter f xs) \<le> length xs"
  by (simp add: List.map_filter_def)

lemma slot_list_length: "is_u64 (length (List.map_filter f [0..<CLUSTER_SLOTS]))"
  using length_map_filter [of f "[0..<CLUSTER_SLOTS]"] by (simp add: CLUSTER_SLOTS_def)

lemma named_lengths: "is_u64 (length (named_cells m a))" "is_u64 (length (named_migs m))"
  unfolding named_cells_def named_migs_def by (rule slot_list_length)+

lemma decode_fields:
  assumes "is_u64 e" "is_u64 (length ns)" "is_u64 (length ows)" "is_u64 (length rps)" "is_u64 (length mgs)"
    and "\<forall>n \<in> set ns. node_entry_ok n" "\<forall>x \<in> set ows. (\<lambda>(slot, i). str_ok i) x"
      "\<forall>x \<in> set rps. (\<lambda>(slot, i). str_ok i) x" "\<forall>x \<in> set mgs. (\<lambda>(slot, st, i). str_ok i) x"
  shows "decode_committed_snapshot (ser_u64 e @ ser_u64 (length ns) @ concat (map ser_node ns) @
      ser_u64 (length ows) @ concat (map ser_slot_id ows) @ ser_u64 (length rps) @ concat (map ser_slot_id rps) @
      ser_u64 (length mgs) @ concat (map ser_slot_mig mgs)) =
    Some \<lparr>cs_epoch = e, snap_nodes = ns, snap_owners = ows, snap_reps = rps, snap_migs = mgs\<rparr>"
  using assms(1-5) snap_mig.dec_count_concat [OF assms(9), of "[]"]
  by (simp add: decode_committed_snapshot_def u64.dec_enc snap_node.dec_count_concat [OF assms(6)]
      snap_cell.dec_count_concat [OF assms(7)] snap_cell.dec_count_concat [OF assms(8)])

lemma decode_serialized:
  assumes "snapshot_ok m" and "length (table_nodes m) \<le> UNASSIGNED"
  shows "decode_committed_snapshot (serialize_committed m) = Some (committed_of m)"
proof -
  have n: "is_u64 (length (sort_key ne_id (table_nodes m)))"
    using assms(2) by (simp add: UNASSIGNED_def)
  have ok: "\<forall>n \<in> set (sort_key ne_id (table_nodes m)). node_entry_ok n"
    "\<forall>x \<in> set (named_cells m a). (\<lambda>(slot, i). str_ok i) x"
    "\<forall>x \<in> set (named_migs m). (\<lambda>(slot, st, i). str_ok i) x" for a
    using assms(1) cell_id_ok [OF assms(1)]
    by (auto simp: snapshot_ok_def named_cells_def named_migs_def List.map_filter_def split: if_splits option.splits)
  have e: "is_u64 (current_epoch m)" using assms(1) by (simp add: snapshot_ok_def)
  show ?thesis
    unfolding serialize_committed_def Let_def
    using decode_fields [OF e n named_lengths(1) named_lengths(1) named_lengths(2) ok(1,2,2,3)]
    by (simp add: committed_of_def)
qed

subsection \<open>The rebuilt node table\<close>

lemma fold_node_eq:
  "distinct (map ne_id xs) \<Longrightarrow> fold fold_node xs acc = acc @ filter (\<lambda>n. ne_id n \<notin> ne_id ` set acc) xs"
proof (induction xs arbitrary: acc)
  case (Cons n xs)
  have "ne_id k \<noteq> ne_id n" if "k \<in> set xs" for k
    using Cons.prems imageI [OF that, of ne_id] by auto
  then have "filter (\<lambda>k. ne_id k \<noteq> ne_id n \<and> P k) xs = filter P xs" for P
    by (intro filter_cong) auto
  then show ?case
    using Cons by (simp add: fold_node_def list_ex_key)
qed simp

definition rebuilt :: "node_entry \<Rightarrow> slot_map \<Rightarrow> node_entry list" where
  "rebuilt self_entry m = self_entry # filter (\<lambda>n. ne_id n \<noteq> ne_id self_entry) (sort_key ne_id (table_nodes m))"

lemma distinct_map_sort_key: "distinct (map f (sort_key k xs)) = distinct (map f xs)"
  by (metis distinct_map distinct_sort set_sort)

lemma rebuilt_fold:
  "table_ok m \<Longrightarrow> fold fold_node (sort_key ne_id (table_nodes m)) [e] = rebuilt e m"
  by (subst fold_node_eq) (auto simp: rebuilt_def distinct_map_sort_key table_ok_def)

lemma rebuilt_ids: "ne_id ` set (rebuilt e m) = insert (ne_id e) (ne_id ` set (table_nodes m))"
  by (auto simp: rebuilt_def)

lemma rebuilt_distinct: "table_ok m \<Longrightarrow> distinct (map ne_id (rebuilt e m))"
  by (auto simp: rebuilt_def table_ok_def distinct_map_filter distinct_map_sort_key)

lemma rebuilt_length: "length (rebuilt e m) \<le> Suc (length (table_nodes m))"
  by (simp add: rebuilt_def) (metis length_filter_le length_sort)

lemma rebuilt_members:
  assumes "table_ok m"
  shows "member_of (rebuilt e m) = (member_of (table_nodes m))(ne_id e \<mapsto> endpoint e)"
proof
  fix i
  let ?kv = "\<lambda>n. (ne_id n, endpoint n)"
  have d: "distinct (map ne_id (table_nodes m))" using assms by (simp add: table_ok_def)
  have "map_of (map ?kv (sort_key ne_id (table_nodes m))) = map_of (map ?kv (table_nodes m))"
    using d by (subst map_of_inject_set) (simp_all add: comp_def distinct_map_sort_key)
  then have s: "map_of (map ?kv (sort_key ne_id (table_nodes m))) i = member_of (table_nodes m) i"
    by (simp add: member_of_def)
  have "map_of (map ?kv (filter (\<lambda>n. ne_id n \<noteq> ne_id e) xs)) i = map_of (map ?kv xs) i" if "i \<noteq> ne_id e" for xs
    using that by (induction xs) auto
  with s show "member_of (rebuilt e m) i = ((member_of (table_nodes m))(ne_id e \<mapsto> endpoint e)) i"
    by (simp add: rebuilt_def member_of_def)
qed

lemma index_of_rebuilt:
  assumes "table_ok m" and "length (rebuilt e m) \<le> UNASSIGNED" and "i \<in> ne_id ` set (table_nodes m)"
  obtains idx where "index_of (rebuilt e m) i = Some idx" "idx < length (rebuilt e m)" "idx \<noteq> UNASSIGNED"
    "ne_id (rebuilt e m ! idx) = i"
proof -
  have "i \<in> ne_id ` set (rebuilt e m)" using assms(3) by (simp add: rebuilt_ids)
  then obtain idx where "idx < length (rebuilt e m)" "ne_id (rebuilt e m ! idx) = i"
    by (auto simp: in_set_conv_nth)
  moreover from this have "position (\<lambda>n. ne_id n = i) (rebuilt e m) = Some idx"
    using position_key_iff [OF rebuilt_distinct [OF assms(1)]] by blast
  moreover have "idx < 65536" "idx \<noteq> UNASSIGNED"
    using calculation(1) assms(2) by (auto simp: UNASSIGNED_def)
  ultimately show thesis
    using that by (simp add: index_of_def)
qed

subsection \<open>Publishing the slots\<close>

lemma map_filter_snoc [simp]:
  "List.map_filter f (xs @ [x]) = List.map_filter f xs @ (case f x of None \<Rightarrow> [] | Some y \<Rightarrow> [y])"
  by (simp add: List.map_filter_def split: option.splits)

text \<open>A fold that publishes a value for each listed slot gives every slot its own value.\<close>

lemma fold_slots:
  assumes "\<And>slot x a. slot < n \<Longrightarrow> g slot = Some x \<Longrightarrow> upd x a = a(slot := h slot)"
  shows "fold upd (List.map_filter g [0..<n]) a s = (if s < n \<and> g s \<noteq> None then h s else a s)"
  using assms
proof (induction n)
  case (Suc n)
  then have IH: "fold upd (List.map_filter g [0..<n]) a s = (if s < n \<and> g s \<noteq> None then h s else a s)"
    by simp
  show ?case
    using IH Suc.prems [of n] by (cases "g n") (auto simp: less_Suc_eq)
qed (simp add: List.map_filter_def)

lemma slot_word: "slot < CLUSTER_SLOTS \<Longrightarrow> unat (of_nat slot :: u16) = slot \<and> in_range (of_nat slot)"
  by (simp add: in_range_def CLUSTER_SLOTS_def unat_of_nat)

text \<open>The cell that names the same node in the rebuilt table.\<close>

definition moved_cell :: "node_entry \<Rightarrow> slot_map \<Rightarrow> nat \<Rightarrow> nat" where
  "moved_cell e m idx =
     (case cell_id m idx of None \<Rightarrow> UNASSIGNED
      | Some i \<Rightarrow> (case index_of (rebuilt e m) i of None \<Rightarrow> UNASSIGNED | Some j \<Rightarrow> j))"

lemma moved_cell_id:
  assumes "table_ok m" and "length (rebuilt e m) \<le> UNASSIGNED" and "cell_id m idx = Some i"
  obtains j where "index_of (rebuilt e m) i = Some j" "moved_cell e m idx = j" "j < length (rebuilt e m)"
    "j \<noteq> UNASSIGNED" "ne_id (rebuilt e m ! j) = i"
proof -
  have "i \<in> ne_id ` set (table_nodes m)" using assms(3) by (auto simp: cell_id_Some)
  from index_of_rebuilt [OF assms(1,2) this] show thesis
    using that assms(3) by (force simp: moved_cell_def)
qed

lemma published_cells:
  assumes "table_ok m" and "length (rebuilt e m) \<le> UNASSIGNED" and "s < CLUSTER_SLOTS"
  shows "fold (publish_cell (rebuilt e m)) (named_cells m a) (\<lambda>_. UNASSIGNED) s = moved_cell e m (a s)"
proof -
  have "publish_cell (rebuilt e m) x b = b(slot := moved_cell e m (a slot))"
    if s: "slot < CLUSTER_SLOTS" and x: "map_option (\<lambda>i. (of_nat slot, i)) (cell_id m (a slot)) = Some x" for slot x b
  proof -
    obtain i where i: "cell_id m (a slot) = Some i" "x = (of_nat slot, i)" using x by auto
    from moved_cell_id [OF assms(1,2) i(1)] show ?thesis
      using slot_word [OF s] by (force simp: i(2) publish_cell_def)
  qed
  then have "fold (publish_cell (rebuilt e m)) (named_cells m a) (\<lambda>_. UNASSIGNED) s =
      (if s < CLUSTER_SLOTS \<and> map_option (\<lambda>i. (of_nat s :: u16, i)) (cell_id m (a s)) \<noteq> None
       then moved_cell e m (a s) else UNASSIGNED)"
    unfolding named_cells_def by (rule fold_slots)
  with assms(3) show ?thesis by (auto simp: moved_cell_def)
qed

lemma published_mine:
  assumes "table_ok m" and "length (rebuilt e m) \<le> UNASSIGNED" and "s < CLUSTER_SLOTS"
  shows "fold (publish_mine (rebuilt e m) e) (named_cells m a) (\<lambda>_. False) s =
    (cell_id m (a s) \<noteq> None \<and> same_endpoint (rebuilt e m ! moved_cell e m (a s)) e)"
proof -
  have "publish_mine (rebuilt e m) e x b = b(slot := same_endpoint (rebuilt e m ! moved_cell e m (a slot)) e)"
    if s: "slot < CLUSTER_SLOTS" and x: "map_option (\<lambda>i. (of_nat slot, i)) (cell_id m (a slot)) = Some x" for slot x b
  proof -
    obtain i where i: "cell_id m (a slot) = Some i" "x = (of_nat slot, i)" using x by auto
    have z: "rebuilt e m ! 0 = e" by (simp add: rebuilt_def)
    obtain j where j: "index_of (rebuilt e m) i = Some j" "moved_cell e m (a slot) = j" "j < length (rebuilt e m)"
      using moved_cell_id [OF assms(1,2) i(1)] by blast
    have "(j = 0 \<or> same_endpoint (rebuilt e m ! j) e) = same_endpoint (rebuilt e m ! j) e"
      using z by auto
    then show ?thesis
      using slot_word [OF s] j by (simp add: i(2) publish_mine_def get_nth)
  qed
  then have "fold (publish_mine (rebuilt e m) e) (named_cells m a) (\<lambda>_. False) s =
      (if s < CLUSTER_SLOTS \<and> map_option (\<lambda>i. (of_nat s :: u16, i)) (cell_id m (a s)) \<noteq> None
       then same_endpoint (rebuilt e m ! moved_cell e m (a s)) e else False)"
    unfolding named_cells_def by (rule fold_slots)
  with assms(3) show ?thesis by auto
qed

lemma published_migs:
  assumes "table_ok m" and "length (rebuilt e m) \<le> UNASSIGNED"
    and ok: "\<forall>s < CLUSTER_SLOTS. slot_ok m s" and n: "n \<le> CLUSTER_SLOTS"
  defines "g \<equiv> \<lambda>slot. if mig_state m slot = MIG_NONE then None
      else map_option (\<lambda>i. (of_nat slot, mig_state m slot, i)) (cell_id m (mig_peer m slot))"
  shows "fold (publish_mig (rebuilt e m)) (List.map_filter g [0..<n]) (\<lambda>_. MIG_NONE, \<lambda>_. UNASSIGNED) =
    (\<lambda>s. if s < n then mig_state m s else MIG_NONE, \<lambda>s. if s < n then moved_cell e m (mig_peer m s) else UNASSIGNED)"
  using n
proof (induction n)
  case 0
  then show ?case by (simp add: List.map_filter_def)
next
  case (Suc n)
  then have s: "slot_ok m n" "n < CLUSTER_SLOTS" using ok by auto
  have IH: "fold (publish_mig (rebuilt e m)) (List.map_filter g [0..<n]) (\<lambda>_. MIG_NONE, \<lambda>_. UNASSIGNED) =
      (\<lambda>s. if s < n then mig_state m s else MIG_NONE, \<lambda>s. if s < n then moved_cell e m (mig_peer m s) else UNASSIGNED)"
    using Suc by simp
  show ?case
  proof (cases "mig_state m n = MIG_NONE")
    case True
    then have "mig_peer m n = UNASSIGNED" using s(1) by (simp add: slot_ok_def)
    with True IH show ?thesis
      by (auto simp: g_def less_Suc_eq moved_cell_def fun_eq_iff)
  next
    case False
    then have p: "mig_peer m n \<noteq> UNASSIGNED" "mig_peer m n < length (table_nodes m)"
        "mig_state m n = MIG_MIGRATING \<or> mig_state m n = MIG_IMPORTING"
      using s(1) by (auto simp: slot_ok_def cell_ok_def)
    then obtain i where i: "cell_id m (mig_peer m n) = Some i" using assms(1) by simp
    from moved_cell_id [OF assms(1,2) i] obtain j where
      "index_of (rebuilt e m) i = Some j" "moved_cell e m (mig_peer m n) = j" by blast
    with IH i False p(3) slot_word [OF s(2)] show ?thesis
      by (auto simp: g_def publish_mig_def less_Suc_eq fun_eq_iff)
  qed
qed

lemma restored_map:
  assumes "wf_map m" and "snapshot_ok m" and "length (table_nodes m) < UNASSIGNED" and "me m0 = Some e"
  obtains m' where "restore_committed (serialize_committed m) m0 = Some m'"
    "table_nodes m' = rebuilt e m" "self_idx m' = 0" "config_epochs m' = replicate (length (rebuilt e m)) 0"
    "current_epoch m' = current_epoch m"
    "\<And>s. s < CLUSTER_SLOTS \<Longrightarrow> owner m' s = moved_cell e m (owner m s)"
    "\<And>s. s < CLUSTER_SLOTS \<Longrightarrow> replicas m' s = moved_cell e m (replicas m s)"
    "\<And>s. s < CLUSTER_SLOTS \<Longrightarrow> mig_peer m' s = moved_cell e m (mig_peer m s)"
    "\<And>s. s < CLUSTER_SLOTS \<Longrightarrow> mig_state m' s = mig_state m s"
    "\<And>s. s < CLUSTER_SLOTS \<Longrightarrow>
        mine m' s = (cell_id m (owner m s) \<noteq> None \<and> same_endpoint (rebuilt e m ! moved_cell e m (owner m s)) e)"
proof -
  have t: "table_ok m" and ok: "\<forall>s < CLUSTER_SLOTS. slot_ok m s" using assms(1) by (auto simp: wf_map_def)
  have len: "length (rebuilt e m) \<le> UNASSIGNED" using rebuilt_length [of e m] assms(3) by simp
  have dec: "decode_committed_snapshot (serialize_committed m) = Some (committed_of m)"
    using assms(2,3) by (intro decode_serialized) simp_all
  have self: "get (table_nodes m0) (self_idx m0) = Some e" using assms(4) by (simp add: me_def)
  have fin: "restore_committed (serialize_committed m) m0 = Some (m0\<lparr>table_nodes := rebuilt e m,
      config_epochs := replicate (length (rebuilt e m)) 0, self_idx := 0,
      owner := fold (publish_cell (rebuilt e m)) (named_cells m (owner m)) (\<lambda>_. UNASSIGNED),
      mine := fold (publish_mine (rebuilt e m) e) (named_cells m (owner m)) (\<lambda>_. False),
      replicas := fold (publish_cell (rebuilt e m)) (named_cells m (replicas m)) (\<lambda>_. UNASSIGNED),
      mig_state := fst (fold (publish_mig (rebuilt e m)) (named_migs m) (\<lambda>_. MIG_NONE, \<lambda>_. UNASSIGNED)),
      mig_peer := snd (fold (publish_mig (rebuilt e m)) (named_migs m) (\<lambda>_. MIG_NONE, \<lambda>_. UNASSIGNED)),
      current_epoch := current_epoch m\<rparr>)"
    unfolding restore_committed_def dec option.case self by (simp add: committed_of_def rebuilt_fold [OF t] Let_def)
  show thesis
    by (rule that [OF fin])
      (simp_all add: published_cells [OF t len] published_mine [OF t len]
        named_migs_def published_migs [OF t len ok order_refl])
qed

text \<open>The migration state of a slot, with the peer named by its id.\<close>

definition mig_view :: "slot_map \<Rightarrow> nat \<Rightarrow> u8 \<times> string option" where
  "mig_view m s = (if s < CLUSTER_SLOTS then (mig_state m s, cell_id m (mig_peer m s)) else (0, None))"

lemma restored:
  assumes "wf_map m" and "snapshot_ok m" and "length (table_nodes m) < UNASSIGNED" and "me m0 = Some e"
  obtains m' where "restore_committed (serialize_committed m) m0 = Some m'" "wf_map m'" "me m' = Some e"
    "table_nodes m' = rebuilt e m" "current_epoch m' = current_epoch m" "mig_view m' = mig_view m"
    "view m' = (view m)\<lparr>members := (members (view m))(ne_id e \<mapsto> endpoint e)\<rparr>"
proof (rule restored_map [OF assms])
  fix m'
  assume r: "restore_committed (serialize_committed m) m0 = Some m'"
    and tab: "table_nodes m' = rebuilt e m" "self_idx m' = 0" "config_epochs m' = replicate (length (rebuilt e m)) 0"
    and ep: "current_epoch m' = current_epoch m"
    and cells: "\<And>s. s < CLUSTER_SLOTS \<Longrightarrow> owner m' s = moved_cell e m (owner m s)"
      "\<And>s. s < CLUSTER_SLOTS \<Longrightarrow> replicas m' s = moved_cell e m (replicas m s)"
      "\<And>s. s < CLUSTER_SLOTS \<Longrightarrow> mig_peer m' s = moved_cell e m (mig_peer m s)"
    and st: "\<And>s. s < CLUSTER_SLOTS \<Longrightarrow> mig_state m' s = mig_state m s"
    and mine: "\<And>s. s < CLUSTER_SLOTS \<Longrightarrow>
        mine m' s = (cell_id m (owner m s) \<noteq> None \<and> same_endpoint (rebuilt e m ! moved_cell e m (owner m s)) e)"
  have t: "table_ok m" using assms(1) by blast
  have len: "length (rebuilt e m) \<le> UNASSIGNED" using rebuilt_length [of e m] assms(3) by simp
  have t': "table_ok m'"
    using rebuilt_distinct [OF t, of e] len by (auto simp: table_ok_def tab rebuilt_def)
  have cell: "cell_id m' (moved_cell e m idx) = cell_id m idx \<and> cell_ok m' (moved_cell e m idx) \<and>
      (moved_cell e m idx = UNASSIGNED \<longleftrightarrow> cell_id m idx = None)" for idx
  proof (cases "cell_id m idx")
    case None
    then show ?thesis by (simp add: moved_cell_def)
  next
    case (Some i)
    then obtain j where "moved_cell e m idx = j" "j < length (rebuilt e m)" "j \<noteq> UNASSIGNED" "ne_id (rebuilt e m ! j) = i"
      by (rule moved_cell_id [OF t len])
    with Some t' show ?thesis by (simp add: tab(1) cell_ok_def)
  qed
  have none: "cell_id m idx = None \<longleftrightarrow> idx = UNASSIGNED" if "cell_ok m idx" for idx
    using that t by (auto simp: cell_ok_def)
  have "slot_ok m' s" if s: "s < CLUSTER_SLOTS" for s
  proof -
    have ok: "slot_ok m s" by (rule wf_slot [OF assms(1) s])
    have z: "table_nodes m' ! self_idx m' = e" by (simp add: tab rebuilt_def)
    have "mine m' s = names_self m' (owner m' s)"
    proof (cases "cell_id m (owner m s)")
      case None
      then show ?thesis by (simp add: mine [OF s] cells(1) [OF s] moved_cell_def)
    next
      case (Some i)
      then have "moved_cell e m (owner m s) < length (table_nodes m')"
        using moved_cell_id [OF t len Some] by (metis tab(1))
      then show ?thesis
        using t' z Some by (simp add: mine [OF s] cells(1) [OF s] names_self_index tab(1) [symmetric])
    qed
    then show ?thesis
      using ok s cell by (auto simp: slot_ok_def cells st none)
  qed
  then have wf: "wf_map m'" using t' by (simp add: wf_map_def)
  have "view m' = (view m)\<lparr>members := (members (view m))(ne_id e \<mapsto> endpoint e)\<rparr>"
    using rebuilt_members [OF t, of e] cell by (auto simp: view_def tab cells fun_eq_iff)
  moreover have "mig_view m' = mig_view m"
    using cell by (auto simp: mig_view_def st cells fun_eq_iff)
  moreover have "me m' = Some e" by (simp add: me_def tab rebuilt_def)
  ultimately show thesis using that [OF r wf] tab(1) ep by simp
qed

lemma map_filter_ext: "(\<And>x. x \<in> set xs \<Longrightarrow> f x = g x) \<Longrightarrow> List.map_filter f xs = List.map_filter g xs"
  by (induction xs) (simp_all add: List.map_filter_def)

lemma named_cells_view:
  assumes "\<And>s. s < CLUSTER_SLOTS \<Longrightarrow> cell_id m' (a' s) = cell_id m (a s)"
  shows "named_cells m' a' = named_cells m a"
  unfolding named_cells_def using assms by (intro map_filter_ext) simp

lemma sort_key_distinct_perm:
  assumes "mset xs = mset ys" and "distinct (map f xs)"
  shows "sort_key f xs = sort_key f ys"
  using assms by (intro sort_key_inj_key_eq) (auto simp: distinct_map)

lemma rebuilt_sorted:
  assumes "table_ok m" and "e \<in> set (table_nodes m)"
  shows "sort_key ne_id (rebuilt e m) = sort_key ne_id (table_nodes m)"
proof (rule sort_key_distinct_perm [OF _ rebuilt_distinct [OF assms(1)]])
  have d: "distinct (map ne_id (table_nodes m))" using assms(1) by (simp add: table_ok_def)
  have "n = e" if "n \<in> set (table_nodes m)" "ne_id n = ne_id e" for n
    using that d assms(2) by (auto simp: distinct_map dest: inj_onD)
  then have "set (rebuilt e m) = set (table_nodes m)"
    using assms(2) by (auto simp: rebuilt_def)
  moreover have "distinct (rebuilt e m)" "distinct (table_nodes m)"
    using d rebuilt_distinct [OF assms(1)] distinct_map by blast+
  ultimately show "mset (rebuilt e m) = mset (table_nodes m)"
    by (simp add: set_eq_iff_mset_eq_distinct)
qed

text \<open>
  C17: restoring a serialized slot map on any node succeeds and gives a well-formed map with that
  node's own identity and the same epoch, owners, replicas and migrations, every node named by its id; when the
  restoring node is a member, serializing again gives the same bytes.
\<close>

theorem slot_map_restore:
  assumes "wf_map m" and "snapshot_ok m" and "length (table_nodes m) < UNASSIGNED" and "me m0 = Some e"
  shows "\<exists>m'. restore_committed (serialize_committed m) m0 = Some m' \<and> wf_map m' \<and> me m' = Some e \<and>
    current_epoch m' = current_epoch m \<and> mig_view m' = mig_view m \<and>
    view m' = (view m)\<lparr>members := (members (view m))(ne_id e \<mapsto> endpoint e)\<rparr> \<and>
    (e \<in> set (table_nodes m) \<longrightarrow> serialize_committed m' = serialize_committed m)"
proof (rule restored [OF assms])
  fix m'
  assume r: "restore_committed (serialize_committed m) m0 = Some m'" "wf_map m'" "me m' = Some e"
    and tab: "table_nodes m' = rebuilt e m" and ep: "current_epoch m' = current_epoch m" and mig: "mig_view m' = mig_view m"
    and view: "view m' = (view m)\<lparr>members := (members (view m))(ne_id e \<mapsto> endpoint e)\<rparr>"
  have own: "cell_id m' (owner m' s) = cell_id m (owner m s)" "cell_id m' (replicas m' s) = cell_id m (replicas m s)"
    if "s < CLUSTER_SLOTS" for s
    using fun_cong [OF arg_cong [OF view, of slot_owner], of s] fun_cong [OF arg_cong [OF view, of slot_replica], of s] that
    by (simp_all add: view_def)
  have "mig_state m' s = mig_state m s" "cell_id m' (mig_peer m' s) = cell_id m (mig_peer m s)" if "s < CLUSTER_SLOTS" for s
    using fun_cong [OF mig, of s] that by (simp_all add: mig_view_def)
  then have "named_migs m' = named_migs m"
    unfolding named_migs_def by (intro map_filter_ext) simp
  then have "committed_of m' = committed_of m" if "e \<in> set (table_nodes m)"
    using rebuilt_sorted [OF wf_table [OF assms(1)] that] named_cells_view [OF own(1)] named_cells_view [OF own(2)]
    by (simp add: committed_of_def ep tab)
  then have "e \<in> set (table_nodes m) \<longrightarrow> serialize_committed m' = serialize_committed m"
    by (simp add: serialize_committed_def)
  with r ep mig view show ?thesis by blast
qed

definition demo_peer :: node_entry where
  "demo_peer = \<lparr>ne_id = ''b'', ne_host = ''h'', ne_port = 7001\<rparr>"

definition demo_table :: slot_map where
  "demo_table = meet demo_peer (empty_self ''a'' ''h'' 7000)"

lemma demo_table_wf: "wf_map demo_table"
  unfolding demo_table_def by (rule wf_meet [OF wf_empty_self]) (simp add: empty_self_def UNASSIGNED_def)

theorem slot_map_restore_witness:
  "\<exists>m m'. set_slot_node 5 ''b'' demo_table = Some (Inr m) \<and> length (table_nodes m) = 2 \<and>
     restore_committed (serialize_committed m) (empty_self ''b'' ''h'' 7001) = Some m' \<and>
     slot_owner (view m') 5 = Some ''b'' \<and> serialize_committed m' = serialize_committed m"
proof -
  have nodes: "table_nodes demo_table = [\<lparr>ne_id = ''a'', ne_host = ''h'', ne_port = 7000\<rparr>, demo_peer]"
    by (simp add: demo_table_def meet_def empty_self_def demo_peer_def)
  have t: "table_ok demo_table" using demo_table_wf by blast
  have "in_range 5" by (simp add: in_range_def CLUSTER_SLOTS_def)
  then obtain m where m: "set_slot_node 5 ''b'' demo_table = Some (Inr m)" "table_nodes m = table_nodes demo_table"
      "current_epoch m = 0"
    using set_slot_node_eq [OF t, of 1 "''b''" 5]
    by (simp add: nodes demo_peer_def) (simp add: demo_table_def meet_def empty_self_def)
  have "view m = r_assign 5 ''b'' (view demo_table)"
    by (rule view_set_slot_node(2) [OF t m(1)])
  then have own: "slot_owner (view m) 5 = Some ''b''"
    by (simp add: r_assign_def nodes demo_peer_def)
  have ok: "snapshot_ok m"
    by (simp add: snapshot_ok_def m nodes demo_peer_def node_entry_ok_def str_ok_def str_bytes_def)
  have e: "me (empty_self ''b'' ''h'' 7001) = Some demo_peer"
    by (simp add: me_def empty_self_def demo_peer_def)
  have "length (table_nodes m) < UNASSIGNED" by (simp add: m nodes UNASSIGNED_def)
  from slot_map_restore [OF wf_set_slot_node [OF demo_table_wf m(1)] ok this e] m own nodes show ?thesis
    by auto
qed

end
