(* ===== verification/Config_Sm.thy ===== *)
theory Config_Sm
  imports Slot_Snapshot Raft_Node
begin

text \<open>
  The cluster-configuration state machine (\<open>ironcache-raft-net/src/config_sm.rs\<close>): committed
  configuration commands drive the shared slot map. Its effect on the routing state is stated as a refinement of
  the id-based commands, with the one exception of a node that is told to remove itself.

  An out-of-range slot in a command panics; \<open>None\<close> is the aborted process.
\<close>

record config_sm =
  sm_map :: slot_map
  sm_epoch :: nat

definition config_sm_new :: "slot_map \<Rightarrow> config_sm" where
  "config_sm_new m = \<lparr>sm_map = m, sm_epoch = 0\<rparr>"

text \<open>Discarding the \<open>Result\<close> of a mutation: an error leaves the map as it was.\<close>

definition ignore_result :: "slot_map \<Rightarrow> (slot_mut_error + slot_map) option \<Rightarrow> slot_map option" where
  "ignore_result m r = map_option (\<lambda>r. case r of Inl _ \<Rightarrow> m | Inr m' \<Rightarrow> m') r"

fun each_slot :: "(u16 \<Rightarrow> slot_map \<Rightarrow> slot_map option) \<Rightarrow> u16 list \<Rightarrow> slot_map \<Rightarrow> slot_map option" where
  "each_slot f [] m = Some m"
| "each_slot f (slot # slots) m = do { m \<leftarrow> f slot m; each_slot f slots m }"

definition promote_slot :: "string \<Rightarrow> u16 \<Rightarrow> slot_map \<Rightarrow> slot_map option" where
  "promote_slot new_primary slot m = do {
     old_owner \<leftarrow> owner_id m slot;
     m1 \<leftarrow> ignore_result m (set_slot_node slot new_primary m);
     m2 \<leftarrow> clear_slot_replica slot new_primary m1;
     (case old_owner of
        None \<Rightarrow> Some m2
      | Some old \<Rightarrow> if old \<noteq> new_primary then ignore_result m2 (set_slot_replica slot old m2) else Some m2) }"

fun apply_config :: "config_cmd \<Rightarrow> slot_map \<Rightarrow> slot_map option" where
  "apply_config (AddNode i host port) m = Some (meet \<lparr>ne_id = i, ne_host = host, ne_port = port\<rparr> m)"
| "apply_config (RemoveNode i) m = ignore_result m (Some (forget i m))"
| "apply_config (SetSlotOwner slot i) m = ignore_result m (set_slot_node slot i m)"
| "apply_config (AssignSlots i slots) m = each_slot (\<lambda>slot m. ignore_result m (set_slot_node slot i m)) slots m"
| "apply_config (UnassignSlots slots) m = each_slot clear_slot_owner slots m"
| "apply_config (AssignReplica i slots) m = each_slot (\<lambda>slot m. ignore_result m (set_slot_replica slot i m)) slots m"
| "apply_config (PromoteReplica slots new_primary) m = each_slot (promote_slot new_primary) slots m"
| "apply_config (SetSlotMigrating slot dest) m = do {
     own \<leftarrow> owns m slot;
     if own then ignore_result m (set_migrating slot dest m) else Some m }"
| "apply_config (SetSlotImporting slot src dest) m =
     (if is_self m dest then ignore_result m (set_importing slot src m) else Some m)"
| "apply_config (SetSlotStable slot) m = clear_migration slot m"
| "apply_config (SetConfigEpoch e) m = Some m"

definition config_apply :: "config_sm \<Rightarrow> log_entry \<Rightarrow> config_sm option" where
  "config_apply c e =
     (case payload e of
        Config cmd \<Rightarrow> do {
          m \<leftarrow> apply_config cmd (set_committed_epoch (sm_epoch c + 1) (sm_map c));
          Some \<lparr>sm_map = m, sm_epoch = sm_epoch c + 1\<rparr> }
      | _ \<Rightarrow> Some c)"

definition config_snapshot :: "config_sm \<Rightarrow> bytes" where
  "config_snapshot c = le_bytes 8 (sm_epoch c) @ serialize_committed (sm_map c)"

definition config_restore :: "config_sm \<Rightarrow> bytes \<Rightarrow> config_sm option" where
  "config_restore c data =
     (let epoch_bytes = take (min (length data) 8) data;
          map_bytes = drop (min (length data) 8) data;
          e = (if length epoch_bytes = 8 then le_value epoch_bytes else 0)
      in do {
        m \<leftarrow> restore_committed map_bytes (sm_map c);
        Some \<lparr>sm_map = set_committed_epoch e m, sm_epoch = e\<rparr> })"

definition config_ops :: "config_sm option sm_ops" where
  "config_ops =
     \<lparr>sm_apply = (\<lambda>c e. do { c \<leftarrow> c; config_apply c e }),
      sm_snapshot = (\<lambda>c. case c of None \<Rightarrow> [] | Some c \<Rightarrow> config_snapshot c),
      sm_restore = (\<lambda>c data. do { c \<leftarrow> c; config_restore c data })\<rparr>"

subsection \<open>Commands on the routing state\<close>

definition r_promote :: "string \<Rightarrow> u16 \<Rightarrow> routing \<Rightarrow> routing" where
  "r_promote p slot r =
     (let r2 = r_unreplicate slot p (r_assign slot p r)
      in case slot_owner r (unat slot) of
           None \<Rightarrow> r2
         | Some old \<Rightarrow> if old \<noteq> p then r_replicate slot old r2 else r2)"

fun r_apply :: "config_cmd \<Rightarrow> routing \<Rightarrow> routing" where
  "r_apply (AddNode i host port) r = r_meet i (host, port) r"
| "r_apply (RemoveNode i) r = r_forget i r"
| "r_apply (SetSlotOwner slot i) r = r_assign slot i r"
| "r_apply (AssignSlots i slots) r = fold (\<lambda>slot. r_assign slot i) slots r"
| "r_apply (UnassignSlots slots) r = fold r_unassign slots r"
| "r_apply (AssignReplica i slots) r = fold (\<lambda>slot. r_replicate slot i) slots r"
| "r_apply (PromoteReplica slots p) r = fold (r_promote p) slots r"
| "r_apply (SetSlotMigrating slot dest) r = r"
| "r_apply (SetSlotImporting slot src dest) r = r"
| "r_apply (SetSlotStable slot) r = r"
| "r_apply (SetConfigEpoch e) r = r"

fun cmd_slots :: "config_cmd \<Rightarrow> u16 list" where
  "cmd_slots (AddNode i host port) = []"
| "cmd_slots (RemoveNode i) = []"
| "cmd_slots (SetSlotOwner slot i) = [slot]"
| "cmd_slots (AssignSlots i slots) = slots"
| "cmd_slots (UnassignSlots slots) = slots"
| "cmd_slots (AssignReplica i slots) = slots"
| "cmd_slots (PromoteReplica slots p) = slots"
| "cmd_slots (SetSlotMigrating slot dest) = [slot]"
| "cmd_slots (SetSlotImporting slot src dest) = [slot]"
| "cmd_slots (SetSlotStable slot) = [slot]"
| "cmd_slots (SetConfigEpoch e) = []"

text \<open>Commands that fit the map: slots inside it and room for one more node in its table.\<close>

definition cmd_in_bounds :: "config_cmd \<Rightarrow> slot_map \<Rightarrow> bool" where
  "cmd_in_bounds cmd m \<longleftrightarrow> list_all in_range (cmd_slots cmd) \<and> length (table_nodes m) < UNASSIGNED"

text \<open>The removal of the node that applies the command, which \<open>forget\<close> refuses.\<close>

definition removes_self :: "config_cmd \<Rightarrow> slot_map \<Rightarrow> bool" where
  "removes_self cmd m = (case cmd of RemoveNode i \<Rightarrow> map_option ne_id (me m) = Some i | _ \<Rightarrow> False)"

text \<open>One step that refines a step on the routing state and keeps the node's identity.\<close>

definition refines :: "slot_map \<Rightarrow> slot_map option \<Rightarrow> routing \<Rightarrow> bool" where
  "refines m res r \<longleftrightarrow> (\<exists>m'. res = Some m' \<and> wf_map m' \<and> view m' = r \<and> me m' = me m \<and> table_nodes m' = table_nodes m \<and>
     current_epoch m' = current_epoch m)"

lemma refinesI:
  "res = Some m' \<Longrightarrow> wf_map m' \<Longrightarrow> view m' = r \<Longrightarrow> self_idx m' = self_idx m \<Longrightarrow> table_nodes m' = table_nodes m \<Longrightarrow>
   current_epoch m' = current_epoch m \<Longrightarrow> refines m res r"
  by (auto simp: refines_def me_def)

lemma refines_refl: "wf_map m \<Longrightarrow> refines m (Some m) (view m)"
  by (auto simp: refines_def)

lemma refines_bind:
  assumes "refines m res r" and "\<And>m'. wf_map m' \<Longrightarrow> view m' = r \<Longrightarrow> table_nodes m' = table_nodes m \<Longrightarrow> refines m' (f m') r'"
  shows "refines m (Option.bind res f) r'"
  using assms by (fastforce simp: refines_def)

lemma refines_each_slot:
  assumes "\<And>slot m. slot \<in> set slots \<Longrightarrow> wf_map m \<Longrightarrow> refines m (f slot m) (g slot (view m))" and "wf_map m"
  shows "refines m (each_slot f slots m) (fold g slots (view m))"
  using assms
proof (induction slots arbitrary: m)
  case (Cons slot slots)
  have "refines m (f slot m) (g slot (view m))" using Cons.prems by simp
  moreover have "refines m' (each_slot f slots m') (fold g slots (g slot (view m)))"
    if "wf_map m'" "view m' = g slot (view m)" for m'
    using Cons.IH [OF _ that(1)] Cons.prems(1) that(2) by simp
  ultimately show ?case
    by (auto intro: refines_bind)
qed (simp add: refines_refl)

lemma refines_ignore_result:
  assumes "wf_map m" and "\<exists>res. op = Some res"
    and "\<And>m'. op = Some (Inr m') \<Longrightarrow> wf_map m' \<and> view m' = r \<and> self_idx m' = self_idx m \<and> table_nodes m' = table_nodes m \<and>
      current_epoch m' = current_epoch m"
    and "\<And>e. op = Some (Inl e) \<Longrightarrow> r = view m"
  shows "refines m (ignore_result m op) r"
proof -
  obtain res where op: "op = Some res" using assms(2) by blast
  show ?thesis
  proof (cases res)
    case (Inl e)
    with op assms(1,4) show ?thesis by (simp add: ignore_result_def refines_refl)
  next
    case (Inr m')
    with op assms(3) have "wf_map m' \<and> view m' = r \<and> self_idx m' = self_idx m \<and> table_nodes m' = table_nodes m \<and>
      current_epoch m' = current_epoch m" by blast
    with op Inr show ?thesis by (intro refinesI [of _ m']) (auto simp: ignore_result_def)
  qed
qed

lemma set_slot_node_table:
  "set_slot_node slot i m = Some (Inr m') \<Longrightarrow> table_nodes m' = table_nodes m \<and> self_idx m' = self_idx m \<and> current_epoch m' = current_epoch m"
  by (auto simp: set_slot_node_def Let_def split: option.splits if_splits)

lemma set_slot_replica_table:
  "set_slot_replica slot i m = Some (Inr m') \<Longrightarrow> table_nodes m' = table_nodes m \<and> self_idx m' = self_idx m \<and> current_epoch m' = current_epoch m"
  by (auto simp: set_slot_replica_def split: option.splits if_splits)

lemma refines_assign:
  assumes "wf_map m" and "in_range slot"
  shows "refines m (ignore_result m (set_slot_node slot i m)) (r_assign slot i (view m))"
  using assms view_set_slot_node [OF wf_table [OF assms(1)]] wf_set_slot_node [OF assms(1)] set_slot_node_table
  by (intro refines_ignore_result) auto

lemma refines_replicate:
  assumes "wf_map m" and "in_range slot"
  shows "refines m (ignore_result m (set_slot_replica slot i m)) (r_replicate slot i (view m))"
  using assms view_set_slot_replica [OF wf_table [OF assms(1)]] wf_set_slot_replica [OF assms(1)] set_slot_replica_table
  by (intro refines_ignore_result) auto

lemma refines_unassign:
  assumes "wf_map m" and "in_range slot"
  shows "refines m (clear_slot_owner slot m) (r_unassign slot (view m))"
proof -
  obtain m' where m': "clear_slot_owner slot m = Some m'" "self_idx m' = self_idx m" "table_nodes m' = table_nodes m"
      "current_epoch m' = current_epoch m"
    using assms(2) by (auto simp: clear_slot_owner_def)
  with assms(1) show ?thesis
    by (intro refinesI [of _ m']) (auto intro: wf_clear_slot_owner view_clear_slot_owner)
qed

lemma refines_unreplicate:
  assumes "wf_map m" and "in_range slot"
  shows "refines m (clear_slot_replica slot i m) (r_unreplicate slot i (view m))"
proof -
  obtain m' where m': "clear_slot_replica slot i m = Some m'" "self_idx m' = self_idx m" "table_nodes m' = table_nodes m"
      "current_epoch m' = current_epoch m"
    using assms(2) by (auto simp: clear_slot_replica_def load_def)
  with assms(1) show ?thesis
    by (intro refinesI [of _ m']) (auto intro: wf_clear_slot_replica view_clear_slot_replica)
qed

lemma refines_promote:
  assumes "wf_map m" and "in_range slot"
  shows "refines m (promote_slot p slot m) (r_promote p slot (view m))"
proof -
  have own: "owner_id m slot = Some (slot_owner (view m) (unat slot))"
    using assms(2) by (simp add: owner_id_def load_def view_def in_range_def cell_id_def)
  let ?r1 = "r_assign slot p (view m)"
  let ?r2 = "r_unreplicate slot p ?r1"
  have demote: "refines m2 (case slot_owner (view m) (unat slot) of None \<Rightarrow> Some m2
      | Some old \<Rightarrow> if old \<noteq> p then ignore_result m2 (set_slot_replica slot old m2) else Some m2)
      (r_promote p slot (view m))" if "wf_map m2" "view m2 = ?r2" for m2
    using refines_refl [OF that(1)] refines_replicate [OF that(1) assms(2)]
    by (simp add: r_promote_def that(2) split: option.splits)
  have clear: "refines m1 (clear_slot_replica slot p m1) ?r2" if "wf_map m1" "view m1 = ?r1" for m1
    using refines_unreplicate [OF that(1) assms(2), of p] that(2) by simp
  show ?thesis
    unfolding promote_slot_def own bind.bind_lunit
    by (intro refines_bind [OF refines_assign [OF assms]] refines_bind [OF clear] demote)
qed

text \<open>Commands that do not change the routing state.\<close>

lemma refines_begin_migration:
  assumes "wf_map m" and "in_range slot" and "st \<in> {1, 2}"
  shows "refines m (ignore_result m (begin_migration st slot peer m)) (view m)"
  using assms wf_begin_migration [OF assms(1,3)]
  by (intro refines_ignore_result) (auto simp: begin_migration_def split: option.splits if_splits)

lemma refines_forget:
  assumes "wf_map m" and "me m = Some e" and "ne_id e \<noteq> i"
  obtains m' where "ignore_result m (Some (forget i m)) = Some m'" "wf_map m'" "view m' = r_forget i (view m)" "me m' = me m"
    "current_epoch m' = current_epoch m"
proof (cases "forget i m")
  case (Inl err)
  have "ne_id (table_nodes m ! self_idx m) \<noteq> i" using assms(2,3) by (auto simp: me_def)
  with forget_error [OF assms(1) Inl] have "r_forget i (view m) = view m"
    by (auto simp: r_forget_def)
  with Inl assms(1) show thesis by (intro that [of m]) (simp_all add: ignore_result_def)
next
  case (Inr m')
  have t: "table_ok m" using assms(1) by blast
  from assms(1) Inr have "me m' = me m"
  proof (rule forget_ok)
    fix r
    assume r: "r < length (table_nodes m)" "r \<noteq> self_idx m"
      and tab: "table_nodes m' = remove_at r (table_nodes m)" "config_epochs m' = remove_at r (config_epochs m)"
        "self_idx m' = shift_down r (self_idx m)"
    from forget_table [OF t r tab] have "table_ok m'" "table_nodes m' ! self_idx m' = table_nodes m ! self_idx m" by auto
    with t show ?thesis by (simp add: me_def get_nth table_ok_def)
  qed
  moreover have "current_epoch m' = current_epoch m"
    using Inr by (auto simp: forget_def Let_def split: option.splits if_splits)
  ultimately show thesis using Inr
    by (intro that [of m']) (simp_all add: ignore_result_def wf_forget [OF assms(1)] view_forget [OF assms(1)])
qed

lemma current_epoch_meet: "current_epoch (meet e m) = current_epoch m"
  by (simp add: meet_def)

lemma me_meet: "wf_map m \<Longrightarrow> me (meet e m) = me m"
  by (auto simp: me_def meet_def get_def nth_append wf_map_def table_ok_def)

lemma refines_clear_migration:
  assumes "wf_map m" and "in_range slot"
  shows "refines m (clear_migration slot m) (view m)"
proof -
  obtain m' where m': "clear_migration slot m = Some m'" "self_idx m' = self_idx m" "table_nodes m' = table_nodes m"
      "current_epoch m' = current_epoch m" "view m' = view m"
    using assms(2) by (auto simp: clear_migration_def)
  with assms(1) show ?thesis
    by (intro refinesI [of _ m']) (auto intro: wf_clear_migration)
qed

lemma refines_plain_cmd:
  assumes "wf_map m" and "\<And>slot. slot \<in> set (cmd_slots cmd) \<Longrightarrow> in_range slot"
    and "\<And>i host port. cmd \<noteq> AddNode i host port" and "\<And>i. cmd \<noteq> RemoveNode i"
  shows "refines m (apply_config cmd m) (r_apply cmd (view m))"
proof (cases cmd)
  case (AssignSlots i slots)
  with assms(1,2) show ?thesis by (simp add: refines_each_slot refines_assign)
next
  case (UnassignSlots slots)
  with assms(1,2) show ?thesis by (simp add: refines_each_slot refines_unassign)
next
  case (AssignReplica i slots)
  with assms(1,2) show ?thesis by (simp add: refines_each_slot refines_replicate)
next
  case (PromoteReplica slots p)
  with assms(1,2) show ?thesis by (simp add: refines_each_slot refines_promote)
qed (use assms in \<open>auto simp: refines_refl refines_assign refines_begin_migration refines_clear_migration set_migrating_def
    set_importing_def owns_def load_def\<close>)

lemma forget_self:
  assumes "wf_map m" and "me m = Some e"
  shows "forget (ne_id e) m = Inl ForgetSelf"
proof -
  have t: "table_ok m" using assms(1) by blast
  have "e = table_nodes m ! self_idx m" using assms(2) by (auto simp: me_def)
  then have "node_index m (ne_id e) = Some (self_idx m)"
    using t by (auto simp: node_index_iff table_ok_def)
  then show ?thesis by (simp add: forget_def)
qed

lemma apply_config_refines:
  assumes "wf_map m" and "cmd_in_bounds cmd m"
  shows "\<exists>m'. apply_config cmd m = Some m' \<and> wf_map m' \<and> me m' = me m \<and> current_epoch m' = current_epoch m \<and>
    view m' = (if removes_self cmd m then view m else r_apply cmd (view m))"
proof -
  obtain e where e: "me m = Some e" using assms(1) by (auto simp: me_def wf_map_def table_ok_def)
  have slots: "in_range slot" if "slot \<in> set (cmd_slots cmd)" for slot
    using assms(2) that by (auto simp: cmd_in_bounds_def list_all_iff)
  consider (add) i host port where "cmd = AddNode i host port" | (self) "cmd = RemoveNode (ne_id e)"
    | (rem) i where "cmd = RemoveNode i" "ne_id e \<noteq> i"
    | (plain) "\<And>i host port. cmd \<noteq> AddNode i host port" "\<And>i. cmd \<noteq> RemoveNode i"
    by blast
  then show ?thesis
  proof cases
    case add
    have "length (table_nodes m) < UNASSIGNED" using assms(2) by (simp add: cmd_in_bounds_def)
    with add assms(1) show ?thesis
      by (auto simp: wf_meet view_meet me_meet endpoint_def current_epoch_meet removes_self_def)
  next
    case self
    with assms(1) e show ?thesis by (simp add: forget_self ignore_result_def removes_self_def)
  next
    case rem
    from rem(2) show ?thesis
      by (rule refines_forget [OF assms(1) e]) (use rem in \<open>auto simp: removes_self_def e\<close>)
  next
    case plain
    then have "\<not> removes_self cmd m" by (simp add: removes_self_def split: config_cmd.splits)
    with refines_plain_cmd [OF assms(1) slots plain] show ?thesis by (auto simp: refines_def)
  qed
qed

lemma set_epoch_frame [simp]:
  "view (set_committed_epoch x m) = view m" "me (set_committed_epoch x m) = me m"
  "mig_view (set_committed_epoch x m) = mig_view m" "current_epoch (set_committed_epoch x m) = x"
  by (simp_all add: set_committed_epoch_def me_def mig_view_def fun_eq_iff cell_id_def entry_of_cell_def)

lemma set_epoch_cmd [simp]:
  "cmd_in_bounds cmd (set_committed_epoch x m) = cmd_in_bounds cmd m"
  "removes_self cmd (set_committed_epoch x m) = removes_self cmd m"
  by (simp_all add: cmd_in_bounds_def removes_self_def set_committed_epoch_def me_def split: config_cmd.splits)

text \<open>
  C16: a committed configuration command whose slots are in range, applied to a well-formed map with
  room for one more node in its table, does not abort. It changes the routing state exactly as the id-based command does,
  in whatever order the node's table lists the nodes, with one exception: the node that the command removes ignores it and
  keeps its routing state. The map stays well formed, the node keeps its identity, and the epoch advances by one, in the
  machine and in the map.
\<close>

theorem config_apply_refines:
  assumes "wf_map (sm_map c)" and "payload e = Config cmd" and "cmd_in_bounds cmd (sm_map c)"
  shows "\<exists>c'. config_apply c e = Some c' \<and> wf_map (sm_map c') \<and> me (sm_map c') = me (sm_map c) \<and>
    sm_epoch c' = sm_epoch c + 1 \<and> current_epoch (sm_map c') = sm_epoch c' \<and>
    view (sm_map c') = (if removes_self cmd (sm_map c) then view (sm_map c) else r_apply cmd (view (sm_map c)))"
proof -
  let ?m = "set_committed_epoch (sm_epoch c + 1) (sm_map c)"
  have "cmd_in_bounds cmd ?m" using assms(3) by simp
  from apply_config_refines [OF wf_set_committed_epoch [OF assms(1)] this] show ?thesis
    by (auto simp: config_apply_def assms(2))
qed

theorem config_apply_refines_witness:
  "\<exists>c'. config_apply (config_sm_new demo_table)
       \<lparr>entry_term = 1, entry_index = 1, payload = Config (SetSlotOwner 5 ''b'')\<rparr> = Some c' \<and>
     sm_epoch c' = 1 \<and> slot_owner (view (sm_map c')) 5 = Some ''b''"
proof -
  have fits: "cmd_in_bounds (SetSlotOwner 5 ''b'') (sm_map (config_sm_new demo_table))"
    by (simp add: cmd_in_bounds_def config_sm_new_def in_range_def CLUSTER_SLOTS_def UNASSIGNED_def demo_table_def
        empty_self_def meet_def demo_peer_def)
  have "''b'' \<in> dom (members (view demo_table))"
    by (simp add: demo_table_def empty_self_def meet_def demo_peer_def)
  with config_apply_refines [OF _ _ fits, of "\<lparr>entry_term = 1, entry_index = 1, payload = Config (SetSlotOwner 5 ''b'')\<rparr>"]
  show ?thesis
    by (auto simp: config_sm_new_def demo_table_wf r_assign_def removes_self_def)
qed

text \<open>Applying the committed commands of a log prefix in order.\<close>

definition apply_all :: "config_cmd list \<Rightarrow> config_sm \<Rightarrow> config_sm option" where
  "apply_all cmds c =
     fold (\<lambda>cmd c. do { c \<leftarrow> c; config_apply c \<lparr>entry_term = 0, entry_index = 0, payload = Config cmd\<rparr> }) cmds (Some c)"

text \<open>
  C39: the error that a node swallows while it applies a command depends on the node. Take a log that
  gives a slot first to a node that it has added and then to a node that it has not added, which
  \<open>CLUSTER SETSLOT\<close> proposes without looking the node up. The second assignment fails on the first owner, which does not
  know that node, and succeeds on the node itself, whose own map has always listed it. After the same prefix, at the same
  epoch, both nodes own the slot.
\<close>

theorem unknown_owner_splits:
  assumes "in_range slot" and "ne_id a \<noteq> ne_id b"
  shows "let start = (\<lambda>e. config_sm_new (empty_self (ne_id e) (ne_host e) (ne_port e)));
             prefix = [AddNode (ne_id a) (ne_host a) (ne_port a), SetSlotOwner slot (ne_id a), SetSlotOwner slot (ne_id b)]
         in \<exists>ca cb. apply_all prefix (start a) = Some ca \<and> apply_all prefix (start b) = Some cb \<and>
              sm_epoch ca = sm_epoch cb \<and> owns (sm_map ca) slot = Some True \<and> owns (sm_map cb) slot = Some True"
  using assms
  by (simp add: apply_all_def config_apply_def config_sm_new_def set_committed_epoch_def meet_def empty_self_def
      set_slot_node_def node_index_def ignore_result_def owns_def load_def Let_def)

theorem unknown_owner_splits_witness:
  "\<exists>ca cb. apply_all [AddNode ''a'' ''h'' 7000, SetSlotOwner 5 ''a'', SetSlotOwner 5 ''b'']
       (config_sm_new (empty_self ''a'' ''h'' 7000)) = Some ca \<and>
     apply_all [AddNode ''a'' ''h'' 7000, SetSlotOwner 5 ''a'', SetSlotOwner 5 ''b'']
       (config_sm_new (empty_self ''b'' ''h'' 7001)) = Some cb \<and>
     sm_epoch ca = sm_epoch cb \<and> owns (sm_map ca) 5 = Some True \<and> owns (sm_map cb) 5 = Some True"
  using unknown_owner_splits [of 5 "\<lparr>ne_id = ''a'', ne_host = ''h'', ne_port = 7000\<rparr>" "\<lparr>ne_id = ''b'', ne_host = ''h'', ne_port = 7001\<rparr>"]
  by (simp add: Let_def in_range_def CLUSTER_SLOTS_def)

end
