(* ===== verification/Cluster_Config.thy ===== *)
theory Cluster_Config
  imports Raft_Snapshots Config_Sm
begin

text \<open>
  The configuration state machine run by the consensus engine. Every node starts with its own
  \<open>empty_self\<close> map and applies the committed log; all nodes redirect clients alike. A restart from a compacted log
  restores the routing state.
\<close>

subsection \<open>Restart\<close>

text \<open>States of the machine on the node whose table entry is \<open>e\<close>.\<close>

definition config_state_ok :: "node_entry \<Rightarrow> config_sm option \<Rightarrow> bool" where
  "config_state_ok e c \<longleftrightarrow>
     (case c of None \<Rightarrow> False
      | Some x \<Rightarrow> wf_map (sm_map x) \<and> snapshot_ok (sm_map x) \<and> length (table_nodes (sm_map x)) < UNASSIGNED \<and>
                  me (sm_map x) = Some e \<and> is_u64 (sm_epoch x))"

definition config_shared :: "config_sm option \<Rightarrow> (nat \<times> routing \<times> (nat \<Rightarrow> u8 \<times> string option)) option" where
  "config_shared c = map_option (\<lambda>x. (sm_epoch x, view (sm_map x), mig_view (sm_map x))) c"

lemma me_member:
  assumes "table_ok m" and "me m = Some e"
  shows "(members (view m))(ne_id e \<mapsto> endpoint e) = members (view m)"
proof -
  have "e \<in> set (table_nodes m)" using assms(2) by (auto simp: me_def)
  then have "member_of (table_nodes m) (ne_id e) = Some (endpoint e)"
    using assms(1) by (auto simp: member_of_def table_ok_def comp_def intro!: map_of_is_SomeI)
  then show ?thesis by (auto simp: view_def)
qed

lemma config_restore_snapshot:
  assumes "config_state_ok e (Some c)" and "me (sm_map c0) = Some e"
  shows "\<exists>c'. config_restore c0 (config_snapshot c) = Some c' \<and> sm_epoch c' = sm_epoch c \<and> wf_map (sm_map c') \<and>
    view (sm_map c') = view (sm_map c) \<and> mig_view (sm_map c') = mig_view (sm_map c) \<and> me (sm_map c') = Some e"
proof -
  have ok: "wf_map (sm_map c)" "snapshot_ok (sm_map c)" "length (table_nodes (sm_map c)) < UNASSIGNED"
      "me (sm_map c) = Some e" "is_u64 (sm_epoch c)"
    using assms(1) by (simp_all add: config_state_ok_def)
  have "le_value (le_bytes 8 (sm_epoch c)) = sm_epoch c" using ok(5) by (simp add: le_value_le_bytes)
  moreover from restored [OF ok(1-3) assms(2)] obtain m' where m':
      "restore_committed (serialize_committed (sm_map c)) (sm_map c0) = Some m'" "wf_map m'" "me m' = Some e"
      "mig_view m' = mig_view (sm_map c)"
      "view m' = (view (sm_map c))\<lparr>members := (members (view (sm_map c)))(ne_id e \<mapsto> endpoint e)\<rparr>"
    by metis
  moreover have "view m' = view (sm_map c)"
    unfolding m'(5) me_member [OF wf_table [OF ok(1)] ok(4)] by simp
  ultimately show ?thesis
    using wf_set_committed_epoch [OF m'(2)]
    by (simp add: config_restore_def config_snapshot_def Let_def)
qed

interpretation config: snapshot_sm config_ops "config_state_ok e" config_shared for e
proof
  fix m m0
  assume "config_state_ok e m" "config_state_ok e m0"
  then obtain c c0 where "m = Some c" "m0 = Some c0" "me (sm_map c0) = Some e" "config_state_ok e (Some c)"
    by (auto simp: config_state_ok_def split: option.splits)
  with config_restore_snapshot show "config_shared (sm_restore config_ops m0 (sm_snapshot config_ops m)) = config_shared m"
    by (force simp: config_ops_def config_shared_def)
qed

subsection \<open>Replicas of the routing state\<close>

definition r_empty :: routing where
  "r_empty = \<lparr>members = Map.empty, slot_owner = Map.empty, slot_replica = Map.empty\<rparr>"

definition r_entry :: "log_entry \<Rightarrow> routing \<Rightarrow> routing" where
  "r_entry e r = (case payload e of Config cmd \<Rightarrow> r_apply cmd r | _ \<Rightarrow> r)"

fun cmd_names :: "config_cmd \<Rightarrow> string list" where
  "cmd_names (SetSlotOwner slot i) = [i]"
| "cmd_names (AssignSlots i slots) = [i]"
| "cmd_names (AssignReplica i slots) = [i]"
| "cmd_names (PromoteReplica slots p) = [p]"
| "cmd_names _ = []"

text \<open>
  A command that the node with entry \<open>e\<close> applies as every other node does: its slots are in range, the
  nodes it gives slots to have been added by the log, it adds \<open>e\<close> only under \<open>e\<close>'s endpoint and does not remove it.
\<close>

definition cmd_shared :: "node_entry \<Rightarrow> config_cmd \<Rightarrow> routing \<Rightarrow> bool" where
  "cmd_shared e cmd r \<longleftrightarrow>
     list_all in_range (cmd_slots cmd) \<and> (\<forall>i \<in> set (cmd_names cmd). members r i \<noteq> None) \<and>
     card (dom (members r)) + 1 < UNASSIGNED \<and>
     (case cmd of
        AddNode i host port \<Rightarrow> i = ne_id e \<longrightarrow> (host, port) = endpoint e
      | RemoveNode i \<Rightarrow> i \<noteq> ne_id e
      | _ \<Rightarrow> True)"

fun log_shared :: "node_entry \<Rightarrow> log_entry list \<Rightarrow> routing \<Rightarrow> bool" where
  "log_shared e [] r = True"
| "log_shared e (x # xs) r \<longleftrightarrow>
     (case payload x of Config cmd \<Rightarrow> cmd_shared e cmd r | _ \<Rightarrow> True) \<and> log_shared e xs (r_entry x r)"

text \<open>The routing state \<open>r\<close> of the log, as node \<open>e\<close> holds it: its own entry may not have been added yet.\<close>

definition tracks :: "node_entry \<Rightarrow> routing \<Rightarrow> routing \<Rightarrow> bool" where
  "tracks e v r \<longleftrightarrow>
     members v = (members r)(ne_id e \<mapsto> endpoint e) \<and>
     (members r (ne_id e) = None \<or> members r (ne_id e) = Some (endpoint e)) \<and> finite (dom (members r)) \<and>
     slot_owner v = slot_owner r \<and> slot_replica v = slot_replica r \<and>
     ran (slot_owner r) \<subseteq> dom (members r) \<and> ran (slot_replica r) \<subseteq> dom (members r)"

lemma tracks_member: "tracks e v r \<Longrightarrow> i \<in> dom (members r) \<Longrightarrow> i \<in> dom (members v)"
  by (auto simp: tracks_def)

lemma ran_upd_Some: "ran (m(k \<mapsto> v)) \<subseteq> insert v (ran m)"
  by (auto simp: ran_def)

lemma ran_upd_None: "ran (m(k := None)) \<subseteq> ran m"
  by (auto simp: ran_def)

lemma tracks_assign: "tracks e v r \<Longrightarrow> members r i \<noteq> None \<Longrightarrow> tracks e (r_assign slot i v) (r_assign slot i r)"
  using tracks_member [of e v r i] ran_upd_Some [of "slot_owner r" "unat slot" i]
  by (auto simp: r_assign_def tracks_def)

lemma tracks_replicate: "tracks e v r \<Longrightarrow> members r i \<noteq> None \<Longrightarrow> tracks e (r_replicate slot i v) (r_replicate slot i r)"
  using tracks_member [of e v r i] ran_upd_Some [of "slot_replica r" "unat slot" i]
  by (auto simp: r_replicate_def tracks_def)

lemma tracks_unassign: "tracks e v r \<Longrightarrow> tracks e (r_unassign slot v) (r_unassign slot r)"
  using ran_upd_None [of "slot_owner r" "unat slot"] by (auto simp: r_unassign_def tracks_def)

lemma tracks_unreplicate: "tracks e v r \<Longrightarrow> tracks e (r_unreplicate slot i v) (r_unreplicate slot i r)"
  using ran_upd_None [of "slot_replica r" "unat slot"] by (auto simp: r_unreplicate_def tracks_def)

lemma members_steps [simp]:
  "members (r_assign slot i r) = members r" "members (r_replicate slot i r) = members r"
  "members (r_unassign slot r) = members r" "members (r_unreplicate slot i r) = members r"
  by (simp_all add: r_assign_def r_replicate_def r_unassign_def r_unreplicate_def)

lemma members_promote [simp]: "members (r_promote p slot r) = members r"
  by (simp add: r_promote_def Let_def split: option.splits)

lemma tracks_promote:
  assumes t: "tracks e v r" and p: "members r p \<noteq> None"
  shows "tracks e (r_promote p slot v) (r_promote p slot r)"
proof -
  have own: "slot_owner v = slot_owner r" using t by (simp add: tracks_def)
  have "members r old \<noteq> None" if "slot_owner r (unat slot) = Some old" for old
    using t that by (auto simp: tracks_def ran_def)
  then show ?thesis
    using tracks_unreplicate [OF tracks_assign [OF t p], of slot p slot] tracks_replicate
    by (auto simp: r_promote_def Let_def own split: option.splits)
qed

lemma tracks_fold:
  assumes "\<And>slot v r. tracks e v r \<Longrightarrow> P (members r) \<Longrightarrow> tracks e (f slot v) (f slot r)"
    and "\<And>slot r. members (f slot r) = members r" and "tracks e v r" and "P (members r)"
  shows "tracks e (fold f slots v) (fold f slots r)"
  using assms(3,4) by (induction slots arbitrary: v r) (auto simp: assms(1,2))

lemma tracks_meet:
  assumes "tracks e v r" and "i = ne_id e \<longrightarrow> ep = endpoint e"
  shows "tracks e (r_meet i ep v) (r_meet i ep r)"
proof (cases "i \<in> dom (members r)")
  case True
  with assms(1) tracks_member [OF assms(1)] show ?thesis by (simp add: r_meet_def)
next
  case False
  then show ?thesis
    using assms by (cases "i = ne_id e") (auto simp: r_meet_def tracks_def fun_upd_twist)
qed

lemma tracks_forget:
  assumes "tracks e v r" and "i \<noteq> ne_id e"
  shows "tracks e (r_forget i v) (r_forget i r)"
proof -
  have d: "i \<in> dom (members v) \<longleftrightarrow> i \<in> dom (members r)" "slot_owner v = slot_owner r"
    using assms by (auto simp: tracks_def)
  have "ran (\<lambda>s. if slot_replica r s = Some i then None else slot_replica r s) \<subseteq> ran (slot_replica r) - {i}"
    by (auto simp: ran_def split: if_splits)
  then show ?thesis
    using assms d by (auto simp: r_forget_def tracks_def fun_upd_twist)
qed

lemma tracks_apply:
  assumes "tracks e v r" and "cmd_shared e cmd r"
  shows "tracks e (r_apply cmd v) (r_apply cmd r)"
proof (cases cmd)
  case (AssignSlots i slots)
  with assms show ?thesis
    by (auto simp: cmd_shared_def intro!: tracks_fold [where P = "\<lambda>m. m i \<noteq> None"] tracks_assign)
next
  case (UnassignSlots slots)
  with assms show ?thesis by (auto intro!: tracks_fold [where P = "\<lambda>m. True"] tracks_unassign)
next
  case (AssignReplica i slots)
  with assms show ?thesis
    by (auto simp: cmd_shared_def intro!: tracks_fold [where P = "\<lambda>m. m i \<noteq> None"] tracks_replicate)
next
  case (PromoteReplica slots p)
  with assms show ?thesis
    by (auto simp: cmd_shared_def intro!: tracks_fold [where P = "\<lambda>m. m p \<noteq> None"] tracks_promote)
qed (use assms in \<open>auto simp: cmd_shared_def tracks_assign tracks_meet tracks_forget\<close>)

text \<open>One node applying the log.\<close>

lemma card_members: "table_ok m \<Longrightarrow> card (dom (members (view m))) = length (table_nodes m)"
  by (simp add: table_ok_def) (metis distinct_card length_map set_map)

lemma cmd_shared_fits:
  assumes "wf_map m" and "me m = Some e" and "tracks e (view m) r" and "cmd_shared e cmd r"
  shows "cmd_in_bounds cmd m" and "\<not> removes_self cmd m"
proof -
  have "dom (members (view m)) = insert (ne_id e) (dom (members r))"
    using assms(3) by (simp add: tracks_def)
  moreover have "finite (dom (members r))" using assms(3) by (simp add: tracks_def)
  ultimately have "length (table_nodes m) \<le> Suc (card (dom (members r)))"
    using card_members [OF wf_table [OF assms(1)]] card_insert_le_m1 [of "Suc (card (dom (members r)))" "dom (members r)" "ne_id e"]
    by simp
  with assms(4) show "cmd_in_bounds cmd m" by (simp add: cmd_in_bounds_def cmd_shared_def)
  from assms(2,4) show "\<not> removes_self cmd m"
    by (auto simp: removes_self_def cmd_shared_def split: config_cmd.splits)
qed

lemma config_run:
  assumes "wf_map (sm_map c)" and "me (sm_map c) = Some e" and "tracks e (view (sm_map c)) r" and "log_shared e xs r"
  shows "\<exists>c'. fold (\<lambda>x m. sm_apply config_ops m x) xs (Some c) = Some c' \<and> wf_map (sm_map c') \<and>
    me (sm_map c') = Some e \<and> tracks e (view (sm_map c')) (fold r_entry xs r)"
  using assms
proof (induction xs arbitrary: c r)
  case (Cons x xs)
  have "\<exists>c1. sm_apply config_ops (Some c) x = Some c1 \<and> wf_map (sm_map c1) \<and> me (sm_map c1) = Some e \<and>
      tracks e (view (sm_map c1)) (r_entry x r)"
  proof (cases "\<exists>cmd. payload x = Config cmd")
    case True
    then obtain cmd where cmd: "payload x = Config cmd" by blast
    have sh: "cmd_shared e cmd r" using Cons.prems(4) cmd by simp
    note fits = cmd_shared_fits [OF Cons.prems(1-3) sh]
    let ?m = "set_committed_epoch (sm_epoch c + 1) (sm_map c)"
    from fits apply_config_refines [OF wf_set_committed_epoch [OF Cons.prems(1)], of cmd "sm_epoch c + 1"] obtain m' where
      "apply_config cmd ?m = Some m'" "wf_map m'" "view m' = r_apply cmd (view (sm_map c))" "me m' = me (sm_map c)"
      by auto
    with tracks_apply [OF Cons.prems(3) sh] Cons.prems(2) cmd show ?thesis
      by (simp add: config_ops_def config_apply_def r_entry_def)
  next
    case False
    with Cons.prems show ?thesis
      by (auto simp: config_ops_def config_apply_def r_entry_def split: entry_payload.splits)
  qed
  then obtain c1 where c1: "sm_apply config_ops (Some c) x = Some c1" "wf_map (sm_map c1)" "me (sm_map c1) = Some e"
      "tracks e (view (sm_map c1)) (r_entry x r)" by blast
  have "log_shared e xs (r_entry x r)" using Cons.prems(4) by simp
  from Cons.IH [OF c1(2-4) this] c1(1) show ?case by simp
qed simp

lemma moved_target_view:
  "table_ok m \<Longrightarrow> in_range slot \<Longrightarrow>
   moved_target m slot = Some (Option.bind (slot_owner (view m) (unat slot)) (members (view m)))"
proof -
  assume t: "table_ok m" and s: "in_range slot"
  have "map_option endpoint (entry_of_cell m idx) = Option.bind (cell_id m idx) (members (view m))" for idx
  proof (cases "entry_of_cell m idx")
    case (Some n)
    then have "n \<in> set (table_nodes m)" by (auto simp: entry_of_cell_def split: if_splits)
    then have "member_of (table_nodes m) (ne_id n) = Some (endpoint n)"
      using t by (auto simp: member_of_def table_ok_def comp_def intro!: map_of_is_SomeI)
    with Some show ?thesis by (simp add: cell_id_def view_def)
  qed (simp add: cell_id_def)
  with s show ?thesis
    by (simp add: moved_target_def load_def view_def in_range_def)
qed

lemma tracks_target: "tracks e v r \<Longrightarrow> Option.bind (slot_owner v s) (members v) = Option.bind (slot_owner r s) (members r)"
  by (cases "slot_owner r s") (auto simp: tracks_def ran_def)

definition node_start :: "(node_id \<Rightarrow> node_entry) \<Rightarrow> node_id \<Rightarrow> config_sm option" where
  "node_start ent i = Some (config_sm_new (empty_self (ne_id (ent i)) (ne_host (ent i)) (ne_port (ent i))))"

lemma empty_self_view:
  "view (empty_self i host port) = \<lparr>members = [i \<mapsto> (host, port)], slot_owner = Map.empty, slot_replica = Map.empty\<rparr>"
  by (simp add: view_def empty_self_def member_of_def endpoint_def fun_eq_iff)

lemma node_start_run:
  assumes "log_shared (ent i) xs r_empty"
  shows "\<exists>c. fold (\<lambda>x m. sm_apply config_ops m x) xs (node_start ent i) = Some c \<and> wf_map (sm_map c) \<and>
    tracks (ent i) (view (sm_map c)) (fold r_entry xs r_empty)"
proof -
  let ?m = "empty_self (ne_id (ent i)) (ne_host (ent i)) (ne_port (ent i))"
  have "me ?m = Some (ent i)" by (simp add: me_def empty_self_def)
  moreover have "tracks (ent i) (view ?m) r_empty"
    by (simp add: tracks_def empty_self_view r_empty_def endpoint_def)
  ultimately show ?thesis
    using config_run [of "config_sm_new ?m" "ent i" r_empty xs] assms
    by (auto simp: node_start_def config_sm_new_def wf_empty_self)
qed

text \<open>
  C14: in a cluster with static membership and log compaction off, whose nodes run the configuration
  state machine, each from a map that knows only the node itself, take two nodes that have applied the same number of
  entries. Suppose that both apply every command of that prefix as any other node does: its slots are in range, the node
  table has room, every node it gives a slot to has been added earlier in the log and not removed, it adds neither of the
  two under an endpoint other than its own and removes neither. Then both are alive and redirect a client to the same
  endpoint for every slot.
\<close>

theorem routing_agreement:
  assumes "finite V" and "\<And>i. snapshot_threshold (cfg i) = 0" and "reachable config_ops V cfg (node_start ent) s"
    and "last_applied (nodes s i) = last_applied (nodes s j)"
    and "\<forall>k \<in> {i, j}. log_shared (ent k) (take (last_applied (nodes s i)) (log (storage (nodes s i)))) r_empty"
  shows "\<exists>ci cj. sm (nodes s i) = Some ci \<and> sm (nodes s j) = Some cj \<and>
    (\<forall>slot. moved_target (sm_map ci) slot = moved_target (sm_map cj) slot)"
proof -
  let ?es = "take (last_applied (nodes s i)) (log (storage (nodes s i)))"
  note run = applied_same [OF assms(1-4)]
  obtain ci where ci: "sm (nodes s i) = Some ci" "wf_map (sm_map ci)" "tracks (ent i) (view (sm_map ci)) (fold r_entry ?es r_empty)"
    using node_start_run [of ent i ?es] assms(5) run by auto
  obtain cj where cj: "sm (nodes s j) = Some cj" "wf_map (sm_map cj)" "tracks (ent j) (view (sm_map cj)) (fold r_entry ?es r_empty)"
    using node_start_run [of ent j ?es] assms(5) run by auto
  have "moved_target (sm_map ci) slot = moved_target (sm_map cj) slot" for slot
  proof (cases "in_range slot")
    case True
    then show ?thesis
      using ci(2) cj(2) by (simp add: moved_target_view wf_table tracks_target [OF ci(3)] tracks_target [OF cj(3)])
  next
    case False
    then show ?thesis by (simp add: moved_target_def load_def)
  qed
  with ci(1) cj(1) show ?thesis by blast
qed

subsection \<open>A one-voter cluster\<close>

definition solo_entry :: "node_id \<Rightarrow> node_entry" where
  "solo_entry i = \<lparr>ne_id = ''a'', ne_host = ''h'', ne_port = 7000\<rparr>"

definition solo_step :: "entry_payload \<Rightarrow> config_sm option ctx \<Rightarrow> config_sm option ctx option" where
  "solo_step p c = map_option snd (propose config_ops p (run_ctx (node c) demo_seed))"

definition solo_lead :: "config_sm option ctx" where
  "solo_lead = on_timer monotonic_zero ELECTION_TIMEOUT (run_ctx (with_state_machine config_ops (NodeId 1) {NodeId 1}
     mem_storage_new (demo_cfg (NodeId 1)) (node_start solo_entry (NodeId 1))) demo_seed)"

definition solo_added :: "config_sm option ctx option" where
  "solo_added = solo_step (Config (AddNode ''a'' ''h'' 7000)) solo_lead"

definition solo_owned :: "config_sm option ctx option" where
  "solo_owned = solo_step (Config (SetSlotOwner 5 ''a'')) (the solo_added)"

lemma solo_state:
  "solo_added \<noteq> None \<and>
   map_option (\<lambda>c. (last_applied (node c), map_option (\<lambda>x. moved_target (sm_map x) 5) (sm (node c)),
       log (storage (node c)))) solo_owned =
     Some (3, Some (Some (Some (''h'', 7000))), [\<lparr>entry_term = 1, entry_index = 1, payload = Noop\<rparr>,
        \<lparr>entry_term = 1, entry_index = 2, payload = Config (AddNode ''a'' ''h'' 7000)\<rparr>,
        \<lparr>entry_term = 1, entry_index = 3, payload = Config (SetSlotOwner 5 ''a'')\<rparr>])"
  by code_simp

definition solo_net :: "config_sm option net" where
  "solo_net = settle (NodeId 1) (the solo_owned) (settle (NodeId 1) (the solo_added)
     (settle (NodeId 1) solo_lead (init_net config_ops {NodeId 1} demo_cfg (node_start solo_entry))))"

lemma solo_step_reachable:
  assumes "reachable config_ops V cfg m0 s" and "nodes s i = node c" and "solo_step p c = Some c'" and "\<not> is_config_change p"
  shows "reachable config_ops V cfg m0 (settle i c' s)"
proof -
  from assms(3) obtain res where "propose config_ops p (run_ctx (nodes s i) demo_seed) = Some (res, c')"
    unfolding solo_step_def assms(2) by auto
  with assms(1,4) show ?thesis by (blast intro: reachable.step net_step.client)
qed

lemma solo_reachable: "reachable config_ops {NodeId 1} demo_cfg (node_start solo_entry) solo_net"
proof -
  let ?R = "reachable config_ops {NodeId 1} demo_cfg (node_start solo_entry)"
  let ?s0 = "init_net config_ops {NodeId 1} demo_cfg (node_start solo_entry)"
  obtain a b where ab: "solo_added = Some a" "solo_owned = Some b" using solo_state by auto
  have "?R (settle (NodeId 1) (on_timer monotonic_zero ELECTION_TIMEOUT (run_ctx (nodes ?s0 (NodeId 1)) demo_seed)) ?s0)"
    by (intro reachable.step [OF reachable.initial] net_step.timer)
  then have "?R (settle (NodeId 1) solo_lead ?s0)"
    by (simp add: solo_lead_def init_net_def)
  then have "?R (settle (NodeId 1) a (settle (NodeId 1) solo_lead ?s0))"
    by (rule solo_step_reachable [where c = solo_lead and p = "Config (AddNode ''a'' ''h'' 7000)"])
      (use ab in \<open>simp_all add: settle_sel is_config_change_def solo_added_def\<close>)
  then have "?R (settle (NodeId 1) b (settle (NodeId 1) a (settle (NodeId 1) solo_lead ?s0)))"
    by (rule solo_step_reachable [where c = a and p = "Config (SetSlotOwner 5 ''a'')"])
      (simp_all add: settle_sel is_config_change_def ab(2) [unfolded solo_owned_def ab(1), simplified])
  then show ?thesis unfolding solo_net_def ab by simp
qed

lemma solo_applied:
  "last_applied (nodes solo_net (NodeId 1)) = 3"
  "map_option (\<lambda>x. moved_target (sm_map x) 5) (sm (nodes solo_net (NodeId 1))) = Some (Some (Some (''h'', 7000)))"
  "log_shared (solo_entry k) (take 3 (log (storage (nodes solo_net (NodeId 1))))) r_empty"
proof -
  have node: "nodes solo_net (NodeId 1) = node (the solo_owned)" by (simp add: solo_net_def settle_sel)
  obtain b where b: "solo_owned = Some b" "last_applied (node b) = 3"
      "map_option (\<lambda>x. moved_target (sm_map x) 5) (sm (node b)) = Some (Some (Some (''h'', 7000)))"
      "log (storage (node b)) = [\<lparr>entry_term = 1, entry_index = 1, payload = Noop\<rparr>,
        \<lparr>entry_term = 1, entry_index = 2, payload = Config (AddNode ''a'' ''h'' 7000)\<rparr>,
        \<lparr>entry_term = 1, entry_index = 3, payload = Config (SetSlotOwner 5 ''a'')\<rparr>]"
    using solo_state by auto
  have n: "nodes solo_net (NodeId 1) = node b" unfolding node b(1) by simp
  from b(2,3) show "last_applied (nodes solo_net (NodeId 1)) = 3"
    "map_option (\<lambda>x. moved_target (sm_map x) 5) (sm (nodes solo_net (NodeId 1))) = Some (Some (Some (''h'', 7000)))"
    unfolding n by simp_all
  show "log_shared (solo_entry k) (take 3 (log (storage (nodes solo_net (NodeId 1))))) r_empty"
    unfolding n b by (simp add: cmd_shared_def r_entry_def r_empty_def r_meet_def in_range_def CLUSTER_SLOTS_def UNASSIGNED_def
        endpoint_def solo_entry_def)
qed

subsection \<open>A two-voter cluster\<close>

text \<open>
  A run given as a script: timers, deliveries of messages that have been sent, and client proposals.
\<close>

datatype act = Tick node_id nat | Deliver node_id node_id raft_msg | Ask node_id entry_payload

fun act_ctx :: "act \<Rightarrow> (node_id \<Rightarrow> config_sm option raft_node) \<Rightarrow> (node_id \<times> node_id \<times> raft_msg) list \<Rightarrow>
    (node_id \<times> config_sm option ctx) option" where
  "act_ctx (Tick i token) ns sent = Some (i, on_timer monotonic_zero token (run_ctx (ns i) demo_seed))"
| "act_ctx (Deliver src i m) ns sent =
     (if (src, i, m) \<in> set sent
      then map_option (Pair i) (on_message config_ops monotonic_zero src m (run_ctx (ns i) demo_seed)) else None)"
| "act_ctx (Ask i p) ns sent =
     (if is_config_change p then None
      else map_option (\<lambda>(res, c). (i, c)) (propose config_ops p (run_ctx (ns i) demo_seed)))"

fun play :: "act list \<Rightarrow> (node_id \<Rightarrow> config_sm option raft_node) \<Rightarrow> (node_id \<times> node_id \<times> raft_msg) list \<Rightarrow>
    (node_id \<Rightarrow> config_sm option raft_node) option" where
  "play [] ns sent = Some ns"
| "play (a # as) ns sent =
     (case act_ctx a ns sent of
        None \<Rightarrow> None
      | Some (i, c) \<Rightarrow> play as (ns(i := node c)) (sent @ map (Pair i) (sends (out c))))"

lemma act_step:
  assumes "act_ctx a (nodes s) sent = Some (i, c)" and "set sent \<subseteq> soup s"
  shows "net_step config_ops V cfg m0 s (settle i c s)"
proof (cases a)
  case (Tick j token)
  with assms(1) net_step.timer [of config_ops V cfg m0 s j monotonic_zero token demo_seed] show ?thesis by auto
next
  case (Deliver src j m)
  with assms show ?thesis
    by (auto intro: net_step.deliver split: if_splits)
next
  case (Ask j p)
  with assms(1) show ?thesis by (auto intro: net_step.client split: if_splits)
qed

lemma play_reachable:
  assumes "play as (nodes s) sent = Some ns" and "set sent \<subseteq> soup s" and "reachable config_ops V cfg m0 s"
  shows "\<exists>s'. reachable config_ops V cfg m0 s' \<and> nodes s' = ns"
  using assms
proof (induction as arbitrary: s sent)
  case (Cons a as)
  from Cons.prems(1) obtain i c where c: "act_ctx a (nodes s) sent = Some (i, c)"
      "play as (nodes (settle i c s)) (sent @ map (Pair i) (sends (out c))) = Some ns"
    by (auto simp: settle_sel split: option.splits)
  have "reachable config_ops V cfg m0 (settle i c s)"
    using act_step [OF c(1) Cons.prems(2)] Cons.prems(3) by (rule reachable.step [rotated])
  moreover have "set (sent @ map (Pair i) (sends (out c))) \<subseteq> soup (settle i c s)"
    using Cons.prems(2) by (auto simp: settle_sel)
  ultimately show ?case using Cons.IH [OF c(2)] by blast
qed auto

definition pair_entry :: "node_id \<Rightarrow> node_entry" where
  "pair_entry i =
     (if i = NodeId 1 then \<lparr>ne_id = ''a'', ne_host = ''g'', ne_port = 7000\<rparr> else \<lparr>ne_id = ''b'', ne_host = ''h'', ne_port = 7001\<rparr>)"

definition pair_log :: "log_entry list" where
  "pair_log = [\<lparr>entry_term = 1, entry_index = 1, payload = Noop\<rparr>,
     \<lparr>entry_term = 1, entry_index = 2, payload = Config (AddNode ''b'' ''h'' 7001)\<rparr>,
     \<lparr>entry_term = 1, entry_index = 3, payload = Config (SetSlotOwner 5 ''b'')\<rparr>]"

definition pair_script :: "act list" where
  "pair_script =
     [Tick (NodeId 1) ELECTION_TIMEOUT,
      Deliver (NodeId 1) (NodeId 2) (RequestVote 1 (NodeId 1) 0 0),
      Deliver (NodeId 2) (NodeId 1) (RequestVoteResp 1 True),
      Ask (NodeId 1) (Config (AddNode ''b'' ''h'' 7001)),
      Ask (NodeId 1) (Config (SetSlotOwner 5 ''b'')),
      Tick (NodeId 1) HEARTBEAT,
      Deliver (NodeId 1) (NodeId 2) (AppendEntries 1 (NodeId 1) 0 0 pair_log 0),
      Deliver (NodeId 2) (NodeId 1) (AppendEntriesResp 1 True 3),
      Tick (NodeId 1) HEARTBEAT,
      Deliver (NodeId 1) (NodeId 2) (AppendEntries 1 (NodeId 1) 3 1 [] 3)]"

definition pair_nodes :: "(node_id \<Rightarrow> config_sm option raft_node) option" where
  "pair_nodes = play pair_script
     (\<lambda>i. with_state_machine config_ops i {NodeId 1, NodeId 2} mem_storage_new (demo_cfg i) (node_start pair_entry i)) []"

lemma pair_nodes_state:
  "map_option (\<lambda>ns. (last_applied (ns (NodeId 1)), last_applied (ns (NodeId 2)), log (storage (ns (NodeId 1))))) pair_nodes =
     Some (3, 3, pair_log)"
  "map_option (\<lambda>ns. (map_option (\<lambda>x. (me (sm_map x), moved_target (sm_map x) 5)) (sm (ns (NodeId 1))),
       map_option (me \<circ> sm_map) (sm (ns (NodeId 2))))) pair_nodes =
     Some (Some (Some (pair_entry (NodeId 1)), Some (Some (''h'', 7001))), Some (Some (pair_entry (NodeId 2))))"
  by code_simp+

lemma pair_log_shared: "log_shared (pair_entry k) pair_log r_empty"
  by (simp add: pair_log_def cmd_shared_def r_entry_def r_empty_def r_meet_def in_range_def CLUSTER_SLOTS_def UNASSIGNED_def
      endpoint_def pair_entry_def)

text \<open>Both voters of the run, which start from different maps, have applied three entries and redirect slot 5 alike.\<close>

theorem routing_agreement_witness:
  "\<exists>s c1 c2. reachable config_ops {NodeId 1, NodeId 2} demo_cfg (node_start pair_entry) s \<and>
     last_applied (nodes s (NodeId 1)) = 3 \<and> last_applied (nodes s (NodeId 2)) = 3 \<and>
     sm (nodes s (NodeId 1)) = Some c1 \<and> sm (nodes s (NodeId 2)) = Some c2 \<and>
     me (sm_map c1) \<noteq> me (sm_map c2) \<and>
     moved_target (sm_map c1) 5 = Some (Some (''h'', 7001)) \<and> moved_target (sm_map c2) 5 = Some (Some (''h'', 7001))"
proof -
  let ?s0 = "init_net config_ops {NodeId 1, NodeId 2} demo_cfg (node_start pair_entry)"
  obtain ns where run: "pair_nodes = Some ns" using pair_nodes_state(1) by auto
  obtain c1 c2 where ns: "last_applied (ns (NodeId 1)) = 3" "last_applied (ns (NodeId 2)) = 3"
      "log (storage (ns (NodeId 1))) = pair_log" "sm (ns (NodeId 1)) = Some c1" "sm (ns (NodeId 2)) = Some c2"
      "moved_target (sm_map c1) 5 = Some (Some (''h'', 7001))" "me (sm_map c1) = Some (pair_entry (NodeId 1))"
      "me (sm_map c2) = Some (pair_entry (NodeId 2))"
    using pair_nodes_state by (auto simp: run simp del: One_nat_def)
  have "play pair_script (nodes ?s0) [] = Some ns"
    using run by (simp add: pair_nodes_def init_net_def)
  from play_reachable [OF this _ reachable.initial] obtain s where
    s: "reachable config_ops {NodeId 1, NodeId 2} demo_cfg (node_start pair_entry) s" "nodes s = ns" by auto
  have thr: "\<And>i. snapshot_threshold (demo_cfg i) = 0" by (rule demo_setting(2))
  have "take 3 pair_log = pair_log" by (simp add: pair_log_def)
  then have "moved_target (sm_map c1) 5 = moved_target (sm_map c2) 5"
    using routing_agreement [OF _ thr s(1), of "NodeId 1" "NodeId 2"] ns pair_log_shared by (simp add: s(2))
  with ns s show ?thesis by (intro exI [of _ s] exI [of _ c1] exI [of _ c2]) (simp add: pair_entry_def)
qed

text \<open>
  C15: a node that runs the configuration state machine and is restarted from the storage its
  compaction wrote comes back with the routing state, migrations and epoch, the applied and commit index and the
  voters and learners it had when it compacted.
\<close>

theorem config_restart_restores:
  assumes "wf_storage (storage n)" and "mem_base (storage n) < last_applied n"
    and "last_applied n \<le> last_log_index (storage n)" and "config_current n"
    and "config_state_ok e (sm n)" and "config_state_ok e m0" and "maybe_compact config_ops n \<noteq> n"
  shows "(let n' = with_state_machine config_ops i V (storage (maybe_compact config_ops n)) cfg m0
          in config_shared (sm n') = config_shared (sm n) \<and> last_applied n' = last_applied n \<and>
             commit_index n' = last_applied n \<and> voters n' = voters n \<and> learners n' = learners n)"
proof (cases config_ops n rule: maybe_compact_cases)
  case keep
  with assms(7) show ?thesis by simp
next
  case compact
  from config.restart_after_compaction [OF assms(1-6), of i V cfg] show ?thesis
    by (simp add: compact(1) Let_def)
qed

definition solo_full :: "config_sm option raft_node" where
  "solo_full = (node (the solo_owned))\<lparr>config := (demo_cfg (NodeId 1))\<lparr>snapshot_threshold := 1\<rparr>\<rparr>"

lemma solo_full_state:
  "config_current solo_full \<and> mem_base (storage solo_full) = 0 \<and> last_applied solo_full = 3 \<and>
   last_log_index (storage solo_full) = 3 \<and> load_snapshot (storage solo_full) = None \<and>
   snapshot_threshold (config solo_full) = 1 \<and>
   map_option (\<lambda>x. (sm_epoch x, table_nodes (sm_map x), self_idx (sm_map x), current_epoch (sm_map x))) (sm solo_full) =
     Some (2, [solo_entry (NodeId 1)], 0, 2)"
  by code_simp

theorem config_restart_restores_witness:
  "(let n' = with_state_machine config_ops (NodeId 1) {} (storage (maybe_compact config_ops solo_full)) raft_config_default
       (node_start solo_entry (NodeId 1))
    in config_shared (sm n') = config_shared (sm solo_full) \<and> last_applied n' = 3)"
proof -
  note st = solo_full_state
  have run: "sm solo_full = sm (nodes solo_net (NodeId 1))" by (simp add: solo_full_def solo_net_def settle_sel)
  obtain x where x: "sm solo_full = Some x" "sm_epoch x = 2" "table_nodes (sm_map x) = [solo_entry (NodeId 1)]"
      "self_idx (sm_map x) = 0" "current_epoch (sm_map x) = 2"
    using st by auto
  have "maybe_compact config_ops solo_full \<noteq> solo_full"
  proof
    assume eq: "maybe_compact config_ops solo_full = solo_full"
    have "load_snapshot (storage (maybe_compact config_ops solo_full)) \<noteq> None"
      using st by (simp add: maybe_compact_def Let_def load_snapshot_def compact_to_def save_snapshot_def)
    with eq st show False by simp
  qed
  moreover have "wf_map (sm_map x)"
  proof -
    have thr: "\<And>i. snapshot_threshold (demo_cfg i) = 0" by (rule demo_setting(2))
    have "sm (nodes solo_net (NodeId 1)) = fold (\<lambda>e m. sm_apply config_ops m e)
        (take 3 (log (storage (nodes solo_net (NodeId 1))))) (node_start solo_entry (NodeId 1))"
      using applied_same [OF _ thr solo_reachable, of "NodeId 1" "NodeId 1"] solo_applied(1) by simp
    moreover obtain c where "fold (\<lambda>e m. sm_apply config_ops m e)
        (take 3 (log (storage (nodes solo_net (NodeId 1))))) (node_start solo_entry (NodeId 1)) = Some c" "wf_map (sm_map c)"
      using node_start_run [of solo_entry "NodeId 1", OF solo_applied(3)] by blast
    ultimately show ?thesis using run x(1) by simp
  qed
  moreover have "config_state_ok (solo_entry (NodeId 1)) (node_start solo_entry (NodeId 1))"
    using wf_empty_self [of "''a''" "''h''" 7000]
    by (simp add: config_state_ok_def node_start_def config_sm_new_def solo_entry_def empty_self_def me_def
        snapshot_ok_def node_entry_ok_def str_ok_def str_bytes_def UNASSIGNED_def)
  moreover have "wf_storage (storage solo_full)" using st by (simp add: config_current_def)
  ultimately show ?thesis
    using config_restart_restores [of solo_full "solo_entry (NodeId 1)" "node_start solo_entry (NodeId 1)" "NodeId 1" "{}"
        raft_config_default] st x
    by (simp add: Let_def config_state_ok_def snapshot_ok_def node_entry_ok_def solo_entry_def str_ok_def str_bytes_def
        me_def UNASSIGNED_def)
qed

end
