(* ===== verification/Resp_Types.thy ===== *)
theory Resp_Types
  imports Collections Bytes
begin

text \<open>
  The vocabulary of the RESP protocol crate: error codes and error replies (\<open>ironcache-protocol/src/error.rs\<close>),
  protocol versions and reply values (\<open>value.rs\<close>), requests and the decoder's limits (\<open>decode.rs\<close>). An \<open>i64\<close> is an
  \<^typ>\<open>int\<close> in its range, an \<open>f64\<close> is its bit pattern, a \<open>String\<close> the characters of its UTF-8 bytes.
\<close>

subsection \<open>Errors\<close>

datatype error_code =
    Err | WrongType | NoProto | NoAuth | WrongPass | NoPerm | ExecAbort | Oom | BusyKey | OutOfRange
  | NotBusy | Moved | CrossSlot | ClusterDown | Ask | TryAgain | NoReplicas | Loading

fun token :: "error_code \<Rightarrow> string" where
  "token Err = ''ERR''"
| "token WrongType = ''WRONGTYPE''"
| "token NoProto = ''NOPROTO''"
| "token NoAuth = ''NOAUTH''"
| "token WrongPass = ''WRONGPASS''"
| "token NoPerm = ''NOPERM''"
| "token ExecAbort = ''EXECABORT''"
| "token Oom = ''OOM''"
| "token BusyKey = ''BUSYKEY''"
| "token OutOfRange = ''OUTOFRANGE''"
| "token NotBusy = ''NOTBUSY''"
| "token Moved = ''MOVED''"
| "token CrossSlot = ''CROSSSLOT''"
| "token ClusterDown = ''CLUSTERDOWN''"
| "token Ask = ''ASK''"
| "token TryAgain = ''TRYAGAIN''"
| "token NoReplicas = ''NOREPLICAS''"
| "token Loading = ''LOADING''"

record error_reply =
  err_code :: error_code
  err_message :: string

definition error_new :: "error_code \<Rightarrow> string \<Rightarrow> error_reply" where
  "error_new c msg = \<lparr>err_code = c, err_message = msg\<rparr>"

definition error_line :: "error_reply \<Rightarrow> string" where
  "error_line e = ''-'' @ token (err_code e) @ '' '' @ err_message e"

definition protocol :: "string \<Rightarrow> error_reply" where
  "protocol detail = error_new Err (''Protocol error: '' @ detail)"

definition error_err :: "string \<Rightarrow> error_reply" where
  "error_err msg = error_new Err msg"

subsection \<open>Values and requests\<close>

datatype proto_version = Resp2 | Resp3

datatype resp_value =
    SimpleString string
  | ErrorValue error_reply
  | Integer int
  | BulkString "bytes option"
  | Array "resp_value list option"
  | Null
  | Double u64
  | Boolean bool
  | BigNumber string
  | BulkError error_reply
  | VerbatimString "u8 \<times> u8 \<times> u8" bytes
  | MapValue "(resp_value \<times> resp_value) list"
  | Pairs "(resp_value \<times> resp_value) list"
  | SetValue "resp_value list"
  | Push "resp_value list"

definition value_ok :: resp_value where
  "value_ok = SimpleString ''OK''"

definition bulk :: "bytes \<Rightarrow> resp_value" where
  "bulk data = BulkString (Some data)"

definition bulk_str :: "string \<Rightarrow> resp_value" where
  "bulk_str s = BulkString (Some (str_bytes s))"

record request =
  args :: "bytes list"

record limits =
  max_multibulk :: int
  max_bulk_len :: int
  max_inline_len :: nat

definition limits_default :: limits where
  "limits_default =
     \<lparr>max_multibulk = 1024 * 1024, max_bulk_len = 512 * 1024 * 1024, max_inline_len = 64 * 1024\<rparr>"

datatype decode_outcome = Complete request nat | Incomplete | DecodeError error_reply

datatype frame_step = FrameRequest request nat | Skip nat | FrameIncomplete | FrameError error_reply

subsection \<open>Signed 64-bit integers\<close>

abbreviation (input) i64_max :: int where "i64_max \<equiv> 2 ^ 63 - 1"
abbreviation (input) i64_min :: int where "i64_min \<equiv> - (2 ^ 63)"

definition is_i64 :: "int \<Rightarrow> bool" where
  "is_i64 n \<longleftrightarrow> i64_min \<le> n \<and> n \<le> i64_max"

definition checked_i64 :: "int \<Rightarrow> int option" where
  "checked_i64 n = (if is_i64 n then Some n else None)"

definition saturating_add_i64 :: "int \<Rightarrow> int \<Rightarrow> int" where
  "saturating_add_i64 a b = max i64_min (min i64_max (a + b))"

abbreviation (input) CR :: u8 where "CR \<equiv> 0x0D"
abbreviation (input) LF :: u8 where "LF \<equiv> 0x0A"

text \<open>The sub-slice \<open>xs[s..e]\<close> for \<open>s \<le> e \<le> xs.len()\<close>.\<close>

definition slice :: "nat \<Rightarrow> nat \<Rightarrow> 'a list \<Rightarrow> 'a list" where
  "slice s e xs = drop s (take e xs)"

lemma slice_append [simp]: "e \<le> length xs \<Longrightarrow> slice s e (xs @ ys) = slice s e xs"
  by (simp add: slice_def)

lemma length_slice [simp]: "e \<le> length xs \<Longrightarrow> length (slice s e xs) = e - s"
  by (simp add: slice_def)

lemma slice_mid: "slice (length xs) (length xs + length ys) (xs @ ys @ zs) = ys"
  by (simp add: slice_def)

end
