(* ===== verification/Resp_Decode.thy ===== *)
theory Resp_Decode
  imports Resp_Types "HOL-Library.Monad_Syntax"
begin

text \<open>
  The request decoder of \<open>ironcache-protocol/src/decode.rs\<close>, on positions of the input as in the source. The
  byte search of the \<open>memchr\<close> crate is the parameter \<open>mc\<close>; what the decoder relies on is \<open>memchr_spec\<close>: it returns
  the first position of the byte. A panic, which only the doubling of an attribute's pair count can cause, is
  the result \<open>None\<close>.
\<close>

type_synonym memchr = "u8 \<Rightarrow> bytes \<Rightarrow> nat option"

definition memchr_spec :: "memchr \<Rightarrow> bool" where
  "memchr_spec mc \<longleftrightarrow> (\<forall>b xs. mc b xs = position (\<lambda>x. x = b) xs)"

subsection \<open>Lines and numbers\<close>

function find_crlf :: "memchr \<Rightarrow> bytes \<Rightarrow> nat \<Rightarrow> nat option" where
  "find_crlf mc buf start =
     (case mc CR (drop start buf) of
        None \<Rightarrow> None
      | Some rel \<Rightarrow>
          let idx = start + rel
          in if idx + 1 < length buf
             then if buf ! (idx + 1) = LF then Some idx else find_crlf mc buf (idx + 1)
             else None)"
  by pat_completeness auto
termination by (relation "measure (\<lambda>(mc, buf, start). length buf - start)") auto

declare find_crlf.simps [simp del]

definition is_ascii_digit :: "u8 \<Rightarrow> bool" where
  "is_ascii_digit b \<longleftrightarrow> 0x30 \<le> b \<and> b \<le> 0x39"

fun parse_digits :: "int \<Rightarrow> bytes \<Rightarrow> int option" where
  "parse_digits acc [] = Some acc"
| "parse_digits acc (b # bs) =
     (if \<not> is_ascii_digit b then None
      else do {
        scaled \<leftarrow> checked_i64 (acc * 10);
        acc' \<leftarrow> checked_i64 (scaled + int (unat (b - 0x30)));
        parse_digits acc' bs
      })"

definition parse_i64 :: "bytes \<Rightarrow> int option" where
  "parse_i64 bs =
     (case bs of
        [] \<Rightarrow> None
      | b # rest \<Rightarrow>
          let neg = (b = 0x2D); digits = (if b = 0x2D \<or> b = 0x2B then rest else bs)
          in if digits = [] then None
             else map_option (\<lambda>acc. if neg then - acc else acc) (parse_digits 0 digits))"

subsection \<open>Multibulk requests\<close>

text \<open>
  The bulk string at a position: its header and the extent of its payload, or the frame result that ends the
  loop it is read in. \<open>bad\<close> is the error for a byte other than the dollar sign.
\<close>

definition bulk_at :: "memchr \<Rightarrow> limits \<Rightarrow> (u8 \<Rightarrow> error_reply) \<Rightarrow> bytes \<Rightarrow> nat \<Rightarrow> frame_step + nat \<times> nat" where
  "bulk_at mc lim bad input pos =
     (if pos \<ge> length input then Inl FrameIncomplete
      else if input ! pos \<noteq> 0x24 then Inl (FrameError (bad (input ! pos)))
      else
        case find_crlf mc input (pos + 1) of
          None \<Rightarrow> Inl FrameIncomplete
        | Some len_crlf \<Rightarrow>
            (case parse_i64 (slice (pos + 1) len_crlf input) of
               None \<Rightarrow> Inl (FrameError (protocol ''invalid bulk length''))
             | Some blen \<Rightarrow>
                 if blen < 0 \<or> blen > max_bulk_len lim then Inl (FrameError (protocol ''invalid bulk length''))
                 else
                   let data_start = len_crlf + 2; data_end = data_start + nat blen
                   in if data_end + 2 > length input then Inl FrameIncomplete else Inr (data_start, data_end)))"

text \<open>A byte printed as a character: one UTF-8 byte below 128, two above.\<close>

definition byte_char :: "u8 \<Rightarrow> string" where
  "byte_char b =
     (if b < 0x80 then [char_of (unat b)]
      else [char_of (unat (0xC0 OR drop_bit 6 b)), char_of (unat (0x80 OR (b AND 0x3F)))])"

definition expected_dollar :: "u8 \<Rightarrow> error_reply" where
  "expected_dollar b = protocol (''expected '' @ [CHR 0x27] @ ''$'' @ [CHR 0x27] @ '', got '' @ [CHR 0x27] @ byte_char b @ [CHR 0x27])"

fun multibulk_args ::
    "memchr \<Rightarrow> limits \<Rightarrow> (nat \<Rightarrow> nat \<Rightarrow> bytes) \<Rightarrow> bytes \<Rightarrow> nat \<Rightarrow> nat \<Rightarrow> bytes list \<Rightarrow> frame_step" where
  "multibulk_args mc lim make_arg input 0 pos acc = FrameRequest \<lparr>args = acc\<rparr> pos"
| "multibulk_args mc lim make_arg input (Suc count) pos acc =
     (case bulk_at mc lim expected_dollar input pos of
        Inl step \<Rightarrow> step
      | Inr (data_start, data_end) \<Rightarrow>
          if input ! data_end \<noteq> CR \<or> input ! (data_end + 1) \<noteq> LF
          then FrameError (protocol ''expected CRLF after bulk payload'')
          else multibulk_args mc lim make_arg input count (data_end + 2) (acc @ [make_arg data_start data_end]))"

definition decode_multibulk :: "memchr \<Rightarrow> limits \<Rightarrow> (nat \<Rightarrow> nat \<Rightarrow> bytes) \<Rightarrow> bytes \<Rightarrow> frame_step" where
  "decode_multibulk mc lim make_arg input =
     (case find_crlf mc input 1 of
        None \<Rightarrow> FrameIncomplete
      | Some crlf \<Rightarrow>
          (case parse_i64 (slice 1 crlf input) of
             None \<Rightarrow> FrameError (protocol ''invalid multibulk length'')
           | Some count \<Rightarrow>
               if count > max_multibulk lim then FrameError (protocol ''invalid multibulk length'')
               else if count \<le> 0 then Skip (crlf + 2)
               else multibulk_args mc lim make_arg input (nat count) (crlf + 2) []))"

subsection \<open>Inline requests\<close>

definition find_crlf_or_lf :: "memchr \<Rightarrow> bytes \<Rightarrow> (nat \<times> nat) option" where
  "find_crlf_or_lf mc input = do {
     lf \<leftarrow> mc LF input;
     Some (if lf > 0 \<and> input ! (lf - 1) = CR then (lf - 1, lf + 1) else (lf, lf + 1))
   }"

definition is_blank :: "u8 \<Rightarrow> bool" where
  "is_blank b \<longleftrightarrow> b = 0x20 \<or> b = 0x09"

abbreviation (input) unbalanced :: error_reply where
  "unbalanced \<equiv> protocol ''unbalanced quotes in request''"

text \<open>After a closing quote the line ends or a blank follows.\<close>

definition quote_closed :: "bytes \<Rightarrow> bytes \<Rightarrow> error_reply + bytes \<times> bytes" where
  "quote_closed cur rest =
     (case rest of
        b # _ \<Rightarrow> if \<not> is_blank b then Inl unbalanced else Inr (cur, rest)
      | [] \<Rightarrow> Inr (cur, rest))"

fun double_quoted :: "bytes \<Rightarrow> bytes \<Rightarrow> error_reply + bytes \<times> bytes" where
  "double_quoted cur [] = Inl unbalanced"
| "double_quoted cur (b # rest) =
     (if b = 0x5C \<and> rest \<noteq> [] then double_quoted (cur @ [hd rest]) (tl rest)
      else if b = 0x22 then quote_closed cur rest
      else double_quoted (cur @ [b]) rest)"

fun single_quoted :: "bytes \<Rightarrow> bytes \<Rightarrow> error_reply + bytes \<times> bytes" where
  "single_quoted cur [] = Inl unbalanced"
| "single_quoted cur (b # rest) =
     (if b = 0x27 then quote_closed cur rest else single_quoted (cur @ [b]) rest)"

lemma quote_closed_rest: "quote_closed cur bs = Inr (cur', rest) \<Longrightarrow> rest = bs \<and> cur' = cur"
  by (auto simp: quote_closed_def split: list.splits if_splits)

lemma double_quoted_shorter: "double_quoted cur bs = Inr (cur', rest) \<Longrightarrow> length rest < length bs"
  by (induction cur bs rule: double_quoted.induct)
    (auto split: if_splits dest!: quote_closed_rest)

lemma single_quoted_shorter: "single_quoted cur bs = Inr (cur', rest) \<Longrightarrow> length rest < length bs"
  by (induction cur bs rule: single_quoted.induct)
    (auto split: if_splits dest!: quote_closed_rest)

function inline_word :: "bytes \<Rightarrow> bytes \<Rightarrow> error_reply + bytes \<times> bytes" where
  "inline_word cur [] = Inr (cur, [])"
| "inline_word cur (b # rest) =
     (if is_blank b then Inr (cur, rest)
      else if b = 0x22 then
        (case double_quoted cur rest of Inl e \<Rightarrow> Inl e | Inr (cur', rest') \<Rightarrow> inline_word cur' rest')
      else if b = 0x27 then
        (case single_quoted cur rest of Inl e \<Rightarrow> Inl e | Inr (cur', rest') \<Rightarrow> inline_word cur' rest')
      else inline_word (cur @ [b]) rest)"
  by pat_completeness auto
termination
  by (relation "measure (\<lambda>(cur, bs). length bs)")
    (auto dest: double_quoted_shorter single_quoted_shorter intro: less_trans)

lemma inline_word_shorter:
  "inline_word cur bs = Inr (cur', rest) \<Longrightarrow> length rest \<le> length bs \<and> (bs \<noteq> [] \<longrightarrow> length rest < length bs)"
proof (induction cur bs arbitrary: cur' rest rule: inline_word.induct)
  case (2 cur b bs)
  then show ?case
    by (auto split: if_splits sum.splits dest!: double_quoted_shorter single_quoted_shorter)
      (meson less_trans le_less_trans less_Suc_eq_le less_imp_le)+
qed simp

function split_inline :: "bytes list \<Rightarrow> bytes \<Rightarrow> error_reply + bytes list" where
  "split_inline acc line =
     (case dropWhile is_blank line of
        [] \<Rightarrow> Inr acc
      | b # bs \<Rightarrow>
          (case inline_word [] (b # bs) of
             Inl e \<Rightarrow> Inl e
           | Inr (word, rest) \<Rightarrow> split_inline (acc @ [word]) rest))"
  by pat_completeness auto
termination
proof (relation "measure (\<lambda>(acc, line). length line)", goal_cases)
  case (2 acc line b bs p word rest)
  then have "length rest < length (b # bs)"
    using inline_word_shorter [of "[]" "b # bs"] by auto
  moreover have "length (b # bs) \<le> length line"
    using length_dropWhile_le [of is_blank line] 2 by simp
  ultimately show ?case by simp
qed simp

declare split_inline.simps [simp del]

definition decode_inline :: "memchr \<Rightarrow> limits \<Rightarrow> bytes \<Rightarrow> frame_step" where
  "decode_inline mc lim input =
     (case find_crlf_or_lf mc input of
        None \<Rightarrow> if length input > max_inline_len lim then FrameError (protocol ''too big inline request'')
                else FrameIncomplete
      | Some (line_end, consumed) \<Rightarrow>
          if line_end > max_inline_len lim then FrameError (protocol ''too big inline request'')
          else
            (case split_inline [] (take line_end input) of
               Inl e \<Rightarrow> FrameError e
             | Inr as \<Rightarrow> if as = [] then Skip consumed else FrameRequest \<lparr>args = as\<rparr> consumed))"

subsection \<open>Attributes and the decoder loop\<close>

fun skip_elements :: "memchr \<Rightarrow> limits \<Rightarrow> bytes \<Rightarrow> nat \<Rightarrow> nat \<Rightarrow> frame_step" where
  "skip_elements mc lim input 0 pos = Skip pos"
| "skip_elements mc lim input (Suc count) pos =
     (case bulk_at mc lim (\<lambda>_. protocol ''invalid attribute element'') input pos of
        Inl step \<Rightarrow> step
      | Inr (data_start, data_end) \<Rightarrow> skip_elements mc lim input count (data_end + 2))"

definition decode_and_skip_attribute :: "memchr \<Rightarrow> limits \<Rightarrow> bytes \<Rightarrow> frame_step option" where
  "decode_and_skip_attribute mc lim input =
     (case find_crlf mc input 1 of
        None \<Rightarrow> Some FrameIncomplete
      | Some crlf \<Rightarrow>
          (case parse_i64 (slice 1 crlf input) of
             None \<Rightarrow> Some (FrameError (protocol ''invalid attribute length''))
           | Some pairs \<Rightarrow>
               if pairs < 0 then Some (FrameError (protocol ''invalid attribute length''))
               else if pairs > max_multibulk lim then Some (FrameError (protocol ''invalid attribute length''))
               else do {
                 elements \<leftarrow> checked_i64 (pairs * 2);
                 Some (skip_elements mc lim input (nat elements) (crlf + 2))
               }))"

definition decode_frame :: "memchr \<Rightarrow> limits \<Rightarrow> (nat \<Rightarrow> nat \<Rightarrow> bytes) \<Rightarrow> bytes \<Rightarrow> frame_step option" where
  "decode_frame mc lim make_arg rest =
     (if rest ! 0 = 0x2A then Some (decode_multibulk mc lim make_arg rest)
      else if rest ! 0 = 0x7C then decode_and_skip_attribute mc lim rest
      else Some (decode_inline mc lim rest))"

text \<open>A skipped frame is not empty: the loop over no-op frames advances.\<close>

lemma multibulk_args_no_skip: "multibulk_args mc lim mk input count pos acc \<noteq> Skip n"
  by (induction count arbitrary: pos acc) (auto simp: bulk_at_def Let_def split: option.splits if_splits)

lemma bulk_at_end:
  "bulk_at mc lim bad input pos = Inr (s, e) \<Longrightarrow> 2 \<le> s \<and> s \<le> e \<and> e + 2 \<le> length input"
  by (auto simp: bulk_at_def Let_def split: option.splits if_splits)

lemma bulk_at_no_skip: "bulk_at mc lim bad input pos \<noteq> Inl (Skip n)"
  by (auto simp: bulk_at_def Let_def split: option.splits if_splits)

lemma skip_elements_pos: "skip_elements mc lim input count pos = Skip n \<Longrightarrow> 0 < pos \<Longrightarrow> 0 < n"
proof (induction count arbitrary: pos)
  case (Suc count)
  then show ?case
    by (auto simp: bulk_at_no_skip split: sum.splits dest: bulk_at_end)
qed simp

lemma skip_positive: "decode_frame mc lim mk rest = Some (Skip n) \<Longrightarrow> 0 < n"
  by (auto simp: decode_frame_def decode_multibulk_def decode_and_skip_attribute_def decode_inline_def
      find_crlf_or_lf_def multibulk_args_no_skip bind_eq_Some_conv
      split: option.splits if_splits sum.splits prod.splits dest: skip_elements_pos)

function decode_core ::
    "memchr \<Rightarrow> limits \<Rightarrow> (nat \<Rightarrow> nat \<Rightarrow> bytes) \<Rightarrow> bytes \<Rightarrow> nat \<Rightarrow> decode_outcome option" where
  "decode_core mc lim make_arg input cursor =
     (let rest = drop cursor input
      in if rest = [] then Some Incomplete
         else
           case decode_frame mc lim (\<lambda>s e. make_arg (cursor + s) (cursor + e)) rest of
             None \<Rightarrow> None
           | Some (FrameRequest req consumed) \<Rightarrow> Some (Complete req (cursor + consumed))
           | Some (Skip consumed) \<Rightarrow> decode_core mc lim make_arg input (cursor + consumed)
           | Some FrameIncomplete \<Rightarrow> Some Incomplete
           | Some (FrameError e) \<Rightarrow> Some (DecodeError e))"
  by pat_completeness auto
termination
  by (relation "measure (\<lambda>(mc, lim, mk, input, cursor). length input - cursor)")
    (auto dest!: skip_positive)

declare decode_core.simps [simp del]

definition decode :: "memchr \<Rightarrow> limits \<Rightarrow> bytes \<Rightarrow> decode_outcome option" where
  "decode mc lim input = decode_core mc lim (\<lambda>s e. slice s e input) input 0"

definition decode_shared :: "memchr \<Rightarrow> limits \<Rightarrow> bytes \<Rightarrow> decode_outcome option" where
  "decode_shared mc lim base = decode_core mc lim (\<lambda>s e. slice s e base) base 0"

end
