(* ===== verification/Resp_Encode.thy ===== *)
theory Resp_Encode
  imports Resp_Types
begin

text \<open>
  The reply encoder of \<open>ironcache-protocol/src/encode.rs\<close>. An \<open>f64\<close> is its bit pattern; the shortest
  decimal that the \<open>ryu\<close> crate prints for it is the parameter \<open>ryu\<close> of the definitions that print a double.
\<close>

subsection \<open>Integers\<close>

text \<open>The digits of \<open>v\<close>, written from the end of the buffer towards its start.\<close>

fun write_digits :: "nat \<Rightarrow> bytes \<Rightarrow> bytes" where
  "write_digits v buf = (if v > 0 then write_digits (v div 10) ((0x30 + of_nat (v mod 10)) # buf) else buf)"

declare write_digits.simps [simp del]

definition i64_to_str :: "int \<Rightarrow> bytes" where
  "i64_to_str n =
     (if n = 0 then [0x30]
      else let digits = write_digits (nat \<bar>n\<bar>) [] in if n < 0 then 0x2D # digits else digits)"

subsection \<open>Doubles\<close>

definition f64_sign_negative :: "u64 \<Rightarrow> bool" where
  "f64_sign_negative d \<longleftrightarrow> bit d 63"

definition f64_exponent :: "u64 \<Rightarrow> u64" where
  "f64_exponent d = drop_bit 52 d AND 0x7FF"

definition f64_fraction :: "u64 \<Rightarrow> u64" where
  "f64_fraction d = d AND mask 52"

definition f64_is_nan :: "u64 \<Rightarrow> bool" where
  "f64_is_nan d \<longleftrightarrow> f64_exponent d = 0x7FF \<and> f64_fraction d \<noteq> 0"

definition f64_is_infinite :: "u64 \<Rightarrow> bool" where
  "f64_is_infinite d \<longleftrightarrow> f64_exponent d = 0x7FF \<and> f64_fraction d = 0"

definition f64_is_zero :: "u64 \<Rightarrow> bool" where
  "f64_is_zero d \<longleftrightarrow> f64_exponent d = 0 \<and> f64_fraction d = 0"

definition split_once :: "(char \<Rightarrow> bool) \<Rightarrow> string \<Rightarrow> (string \<times> string) option" where
  "split_once P s = map_option (\<lambda>i. (take i s, drop (i + 1) s)) (position P s)"

text \<open>Parsing an \<open>i32\<close> as \<open>str::parse\<close> does: an optional sign and at least one digit, in range.\<close>

definition is_digit_char :: "char \<Rightarrow> bool" where
  "is_digit_char c \<longleftrightarrow> c \<in> set ''0123456789''"

definition digits_value :: "string \<Rightarrow> nat" where
  "digits_value s = fold (\<lambda>c v. 10 * v + (of_char c - 48)) s 0"

definition parse_i32 :: "string \<Rightarrow> int option" where
  "parse_i32 s =
     (let neg = (case s of c # _ \<Rightarrow> c = CHR ''-'' | [] \<Rightarrow> False);
          digits = (case s of c # t \<Rightarrow> if c = CHR ''-'' \<or> c = CHR ''+'' then t else s | [] \<Rightarrow> [])
      in if digits = [] \<or> \<not> list_all is_digit_char digits then None
         else let v = (if neg then - int (digits_value digits) else int (digits_value digits))
              in if - (2 ^ 31) \<le> v \<and> v < 2 ^ 31 then Some v else None)"

text \<open>The steps of \<open>decompose_ryu\<close>: the sign, the exponent, the point, and the zeros at both ends.\<close>

definition strip_sign :: "string \<Rightarrow> bool \<times> string" where
  "strip_sign s = (case s of c # t \<Rightarrow> if c = CHR ''-'' then (True, t) else (False, s) | [] \<Rightarrow> (False, s))"

definition split_exponent :: "string \<Rightarrow> string \<times> int" where
  "split_exponent s =
     (case split_once (\<lambda>c. c = CHR ''e'' \<or> c = CHR ''E'') s of
        Some (m, e) \<Rightarrow> (m, case parse_i32 e of Some v \<Rightarrow> v | None \<Rightarrow> 0)
      | None \<Rightarrow> (s, 0))"

definition split_point :: "string \<Rightarrow> string \<times> string" where
  "split_point mantissa =
     (case split_once (\<lambda>c. c = CHR ''.'') mantissa of Some (i, f) \<Rightarrow> (i, f) | None \<Rightarrow> (mantissa, []))"

definition trim_zeros :: "string \<Rightarrow> int \<Rightarrow> string \<times> int" where
  "trim_zeros all_digits k =
     (let lead_trimmed = dropWhile (\<lambda>c. c = CHR ''0'') all_digits;
          digits = (if lead_trimmed = [] then ''0'' else lead_trimmed)
      in if digits \<noteq> ''0''
         then let t = rev (dropWhile (\<lambda>c. c = CHR ''0'') (rev digits))
              in (t, k + int (length digits - length t))
         else (digits, k))"

definition decompose_ryu :: "string \<Rightarrow> bool \<times> string \<times> int" where
  "decompose_ryu s =
     (let (neg, s1) = strip_sign s;
          (mantissa, ex) = split_exponent s1;
          (int_part, frac_part) = split_point mantissa;
          (digits, k) = trim_zeros (int_part @ frac_part) (ex - int (length frac_part))
      in (neg, digits, k))"

definition digit_char :: "nat \<Rightarrow> char" where
  "digit_char d = char_of (48 + d)"

text \<open>The decimal exponent of the scientific form, with at least one digit and no leading zero.\<close>

definition exponent_digits :: "nat \<Rightarrow> string" where
  "exponent_digits ex =
     (let cent = (if ex > 99 then ex div 100 else 0);
          hundreds = (if ex > 99 then [digit_char cent] else []);
          ex1 = ex - cent * 100;
          dec = ex1 div 10;
          tens = (if ex1 > 9 then [digit_char dec] else if cent \<noteq> 0 then ''0'' else []);
          ex2 = (if ex1 > 9 then ex1 - dec * 10 else ex1)
      in hundreds @ tens @ [digit_char (ex2 mod 10)])"

definition emit_digits :: "string \<Rightarrow> int \<Rightarrow> bool \<Rightarrow> string" where
  "emit_digits digits k neg =
     (let ndigits = int (length digits);
          ex = \<bar>k + ndigits - 1\<bar>;
          max_trailing_zeros = (if neg then 6 else 7)
      in if k \<ge> 0 \<and> ex < ndigits + max_trailing_zeros then digits @ replicate (nat k) CHR ''0''
         else if k < 0 \<and> (k > -7 \<or> ex < 4) then
           (let offset = ndigits - \<bar>k\<bar>
            in if offset \<le> 0 then ''0.'' @ replicate (nat (- offset)) CHR ''0'' @ digits
               else take (nat offset) digits @ ''.'' @ drop (nat offset) digits)
         else
           (let nd = min (length digits) (18 - (if neg then 1 else 0))
            in [digits ! 0] @ (if nd > 1 then ''.'' @ slice 1 nd digits else []) @ ''e'' @
               (if k + ndigits - 1 < 0 then ''-'' else ''+'') @ exponent_digits (nat ex)))"

definition format_double :: "(u64 \<Rightarrow> string) \<Rightarrow> u64 \<Rightarrow> string" where
  "format_double ryu d =
     (if f64_is_nan d then ''nan''
      else if f64_is_infinite d then (if f64_sign_negative d then ''-inf'' else ''inf'')
      else if f64_is_zero d then (if f64_sign_negative d then ''-0'' else ''0'')
      else
        let (neg, digits, k) = decompose_ryu (ryu d); body = emit_digits digits k neg
        in if neg then ''-'' @ body else body)"

subsection \<open>Values\<close>

abbreviation (input) crlf :: bytes where "crlf \<equiv> [CR, LF]"

definition sanitize_line :: "string \<Rightarrow> bytes" where
  "sanitize_line s = map (\<lambda>b. if b = CR \<or> b = LF then 0x20 else b) (str_bytes s)"

definition encode_error_line :: "error_reply \<Rightarrow> bytes" where
  "encode_error_line e = sanitize_line (error_line e) @ crlf"

definition null_bulk :: bytes where
  "null_bulk = str_bytes ''$-1'' @ crlf"

definition null_array :: "proto_version \<Rightarrow> bytes" where
  "null_array proto = (case proto of Resp3 \<Rightarrow> str_bytes ''_'' | Resp2 \<Rightarrow> str_bytes ''*-1'') @ crlf"

definition encode_bulk_len_prefix :: "nat \<Rightarrow> bytes" where
  "encode_bulk_len_prefix len = 0x24 # i64_to_str (int len) @ crlf"

definition encode_bulk_ref :: "bytes \<Rightarrow> bytes" where
  "encode_bulk_ref data = encode_bulk_len_prefix (length data) @ data @ crlf"

text \<open>An aggregate's header: its type byte and its element count.\<close>

definition header :: "u8 \<Rightarrow> nat \<Rightarrow> bytes" where
  "header marker n = marker # i64_to_str (int n) @ crlf"

lemma size_member: "x \<in> set xs \<Longrightarrow> size x \<le> size_list size xs"
  by (induction xs) auto

lemma size_pair:
  "(a, b) \<in> set ps \<Longrightarrow>
     size a \<le> size_list (size_prod size size) ps \<and> size b \<le> size_list (size_prod size size) ps"
  by (induction ps) auto

text \<open>The values that version 2 of the protocol encodes as another value.\<close>

fun converts :: "resp_value \<Rightarrow> nat" where
  "converts (Double _) = 1"
| "converts (Boolean _) = 1"
| "converts (BigNumber _) = 1"
| "converts (VerbatimString _ _) = 1"
| "converts _ = 0"

function (sequential) encode :: "(u64 \<Rightarrow> string) \<Rightarrow> proto_version \<Rightarrow> resp_value \<Rightarrow> bytes" where
  "encode ryu proto (SimpleString s) = 0x2B # sanitize_line s @ crlf"
| "encode ryu proto (ErrorValue e) = encode_error_line e"
| "encode ryu proto (Integer n) = 0x3A # i64_to_str n @ crlf"
| "encode ryu proto (BulkString (Some data)) = header 0x24 (length data) @ data @ crlf"
| "encode ryu proto (BulkString None) = null_bulk"
| "encode ryu proto (Array (Some items)) = header 0x2A (length items) @ concat (map (encode ryu proto) items)"
| "encode ryu proto (Array None) = null_array proto"
| "encode ryu Resp3 Null = str_bytes ''_'' @ crlf"
| "encode ryu Resp2 Null = null_bulk"
| "encode ryu Resp3 (Double d) = 0x2C # str_bytes (format_double ryu d) @ crlf"
| "encode ryu Resp2 (Double d) = encode ryu Resp2 (bulk_str (format_double ryu d))"
| "encode ryu Resp3 (Boolean b) = (if b then str_bytes ''#t'' else str_bytes ''#f'') @ crlf"
| "encode ryu Resp2 (Boolean b) = encode ryu Resp2 (Integer (if b then 1 else 0))"
| "encode ryu Resp3 (BigNumber s) = 0x28 # sanitize_line s @ crlf"
| "encode ryu Resp2 (BigNumber s) = encode ryu Resp2 (bulk_str s)"
| "encode ryu Resp3 (BulkError e) =
     (let body = str_bytes (tl (error_line e)) in header 0x21 (length body) @ body @ crlf)"
| "encode ryu Resp2 (BulkError e) = encode_error_line e"
| "encode ryu Resp3 (VerbatimString (f1, f2, f3) data) =
     header 0x3D (4 + length data) @ [f1, f2, f3] @ 0x3A # data @ crlf"
| "encode ryu Resp2 (VerbatimString fmt data) = encode ryu Resp2 (BulkString (Some data))"
| "encode ryu Resp3 (MapValue ps) =
     header 0x25 (length ps) @ concat (map (\<lambda>(k, v). encode ryu Resp3 k @ encode ryu Resp3 v) ps)"
| "encode ryu Resp2 (MapValue ps) =
     header 0x2A (length ps * 2) @ concat (map (\<lambda>(k, v). encode ryu Resp2 k @ encode ryu Resp2 v) ps)"
| "encode ryu Resp3 (Pairs ps) =
     header 0x2A (length ps) @
     concat (map (\<lambda>(a, b). str_bytes ''*2'' @ crlf @ encode ryu Resp3 a @ encode ryu Resp3 b) ps)"
| "encode ryu Resp2 (Pairs ps) =
     header 0x2A (length ps * 2) @ concat (map (\<lambda>(a, b). encode ryu Resp2 a @ encode ryu Resp2 b) ps)"
| "encode ryu proto (SetValue items) =
     header (if proto = Resp3 then 0x7E else 0x2A) (length items) @ concat (map (encode ryu proto) items)"
| "encode ryu proto (Push items) =
     header (if proto = Resp3 then 0x3E else 0x2A) (length items) @ concat (map (encode ryu proto) items)"
  by pat_completeness auto
termination
  by (relation "measures [\<lambda>(ryu, proto, v). size v, \<lambda>(ryu, proto, v). converts v]")
    (auto simp: bulk_str_def less_Suc_eq_le dest: size_member size_pair)

end
