(* ===== verification/Resp_Framing.thy ===== *)
theory Resp_Framing
  imports Resp_Decode Resp_Encode
begin

text \<open>
  What the request decoder and the reply encoder promise together: integers print and parse back, a request
  decodes the same however the network splits it, the decoder's limits bound what it returns, and a reply is
  one well-delimited frame.
\<close>

subsection \<open>Integers\<close>

lemma byte_of_digit: "d < 10 \<Longrightarrow> unat (0x30 + of_nat d :: u8) = 48 + d"
  by (simp add: unat_word_ariths unat_of_nat)

lemma is_ascii_digit_digit: "d < 10 \<Longrightarrow> is_ascii_digit (0x30 + of_nat d)"
  by (simp add: is_ascii_digit_def word_le_nat_alt byte_of_digit)

lemma write_digits_append: "write_digits v buf = write_digits v [] @ buf"
proof (induction v arbitrary: buf rule: less_induct)
  case (less v)
  show ?case
  proof (cases "v = 0")
    case False
    have "write_digits v buf = write_digits (v div 10) ((0x30 + of_nat (v mod 10)) # buf)"
      using False by (subst write_digits.simps) simp
    also have "\<dots> = write_digits (v div 10) [] @ (0x30 + of_nat (v mod 10)) # buf"
      using False by (subst less) auto
    also have "write_digits (v div 10) [] @ (0x30 + of_nat (v mod 10)) # buf = write_digits v [] @ buf"
      using False by (subst (2) write_digits.simps) (simp add: less [of "v div 10" "[_]"])
    finally show ?thesis .
  qed (simp add: write_digits.simps)
qed

lemma write_digits_0 [simp]: "write_digits 0 buf = buf"
  by (simp add: write_digits.simps)

lemma write_digits_snoc:
  "0 < v \<Longrightarrow> write_digits v [] = write_digits (v div 10) [] @ [0x30 + of_nat (v mod 10)]"
  by (subst write_digits.simps) (simp add: write_digits_append [of _ "[_]"])

lemma write_digits_nonempty: "0 < v \<Longrightarrow> write_digits v [] \<noteq> []"
  by (simp add: write_digits_snoc)

lemma write_digits_ascii: "b \<in> set (write_digits v []) \<Longrightarrow> is_ascii_digit b"
proof (induction v rule: less_induct)
  case (less v)
  then show ?case
    using less.IH [of "v div 10"] by (cases "v = 0") (auto simp: write_digits_snoc is_ascii_digit_digit)
qed

lemma parse_digits_append:
  "parse_digits acc (xs @ ys) = Option.bind (parse_digits acc xs) (\<lambda>acc'. parse_digits acc' ys)"
  by (induction acc xs rule: parse_digits.induct) (auto simp: bind_assoc split: option.splits bind_splits)

lemma parse_write_digits:
  "parse_digits 0 (write_digits v []) = (if int v \<le> i64_max then Some (int v) else None)"
proof (induction v rule: less_induct)
  case (less v)
  show ?case
  proof (cases "v = 0")
    case False
    have "unat (of_nat (v mod 10) :: u8) = v mod 10"
      by (simp add: unat_of_nat)
    then have d: "uint (of_nat (v mod 10) :: u8) = int (v mod 10)"
      by (metis of_nat_unat)
    have e: "int (v div 10) * 10 + int (v mod 10) = int v"
      by presburger
    have ih: "parse_digits 0 (write_digits (v div 10) []) =
        (if int (v div 10) \<le> i64_max then Some (int (v div 10)) else None)"
      using False by (intro less.IH) auto
    show ?thesis
      using False e
      by (auto simp: write_digits_snoc parse_digits_append ih is_ascii_digit_digit d checked_i64_def is_i64_def
          simp del: of_nat_mod)
  qed simp
qed

lemma length_write_digits: "v < 10 ^ n \<Longrightarrow> length (write_digits v []) \<le> n"
proof (induction n arbitrary: v)
  case (Suc n)
  then have "length (write_digits (v div 10) []) \<le> n"
    by (auto intro!: Suc.IH simp: less_mult_imp_div_less mult.commute)
  then show ?case
    by (cases "v = 0") (auto simp: write_digits_snoc)
qed (simp add: write_digits.simps)

lemma parse_unsigned:
  assumes "0 < v"
  shows "parse_i64 (write_digits v []) = parse_digits 0 (write_digits v [])"
    and "parse_i64 (0x2D # write_digits v []) = map_option uminus (parse_digits 0 (write_digits v []))"
proof -
  obtain b bs where b: "write_digits v [] = b # bs"
    using write_digits_nonempty [OF assms] by (cases "write_digits v []") auto
  then have "is_ascii_digit b"
    using write_digits_ascii [of b v] by simp
  then have "b \<noteq> 0x2D" "b \<noteq> 0x2B"
    by (auto simp: is_ascii_digit_def)
  then show "parse_i64 (write_digits v []) = parse_digits 0 (write_digits v [])"
    unfolding parse_i64_def b by (simp add: option.map_ident)
  show "parse_i64 (0x2D # write_digits v []) = map_option uminus (parse_digits 0 (write_digits v []))"
    unfolding parse_i64_def by (simp add: b)
qed

lemma parse_i64_to_str:
  assumes "- (2 ^ 63) < n" "n \<le> i64_max"
  shows "parse_i64 (i64_to_str n) = Some n"
proof -
  have "parse_i64 [0x30] = Some 0"
    by (simp add: parse_i64_def is_ascii_digit_def checked_i64_def is_i64_def)
  moreover have "n \<noteq> 0 \<Longrightarrow> parse_digits 0 (write_digits (nat \<bar>n\<bar>) []) = Some \<bar>n\<bar>"
    using assms by (subst parse_write_digits) auto
  ultimately show ?thesis
    by (auto simp: i64_to_str_def Let_def parse_unsigned)
qed

text \<open>The smallest integer prints as any other, and is the one that does not parse: its magnitude overflows first.\<close>

lemma parse_i64_min: "parse_i64 (i64_to_str i64_min) = None"
  by (simp add: i64_to_str_def parse_unsigned parse_write_digits)

lemma length_i64_to_str:
  assumes "is_i64 n"
  shows "length (i64_to_str n) \<le> 20"
proof -
  have "length (write_digits (nat \<bar>n\<bar>) []) \<le> 19"
    using assms by (intro length_write_digits) (auto simp: is_i64_def nat_less_iff)
  then show ?thesis by (auto simp: i64_to_str_def Let_def)
qed

subsection \<open>Requests in several reads\<close>

lemma position_append: "position P xs = Some i \<Longrightarrow> position P (xs @ ys) = Some i"
  by (induction xs arbitrary: i) (auto split: if_splits)

lemma memchr_append: "memchr_spec mc \<Longrightarrow> mc b xs = Some i \<Longrightarrow> mc b (xs @ ys) = Some i"
  by (simp add: memchr_spec_def position_append)

lemma memchr_bound: "memchr_spec mc \<Longrightarrow> mc b xs = Some i \<Longrightarrow> i < length xs"
  by (simp add: memchr_spec_def position_Some)

lemma find_crlf_bounds: "find_crlf mc buf s = Some i \<Longrightarrow> s \<le> i \<and> i + 1 < length buf"
proof (induction mc buf s rule: find_crlf.induct)
  case (1 mc buf s)
  from "1.prems" show ?case
    by (subst (asm) find_crlf.simps)
      (auto simp: Let_def split: option.splits if_splits dest: "1.IH" [OF _ refl])
qed

lemma find_crlf_append:
  assumes "memchr_spec mc" "find_crlf mc buf s = Some i"
  shows "find_crlf mc (buf @ ext) s = Some i"
  using assms
proof (induction mc buf s rule: find_crlf.induct)
  case (1 mc buf s)
  obtain rel where rel: "mc CR (drop s buf) = Some rel" "s + rel + 1 < length buf"
    and next_: "if buf ! (s + rel + 1) = LF then i = s + rel else find_crlf mc buf (s + rel + 1) = Some i"
    using "1.prems" by (subst (asm) find_crlf.simps) (auto simp: Let_def split: option.splits if_splits)
  have "mc CR (drop s (buf @ ext)) = Some rel"
    using memchr_append [OF "1.prems"(1) rel(1)] rel(2) by simp
  moreover have "buf ! (s + rel + 1) \<noteq> LF \<Longrightarrow> find_crlf mc (buf @ ext) (s + rel + 1) = Some i"
    using "1.IH" [OF rel(1) refl] "1.prems"(1) rel(2) next_ by simp
  ultimately show ?case
    using rel(2) next_ by (subst find_crlf.simps) (auto simp: Let_def nth_append)
qed

lemma bulk_at_append:
  assumes "memchr_spec mc" "bulk_at mc lim bad input pos = r" "r \<noteq> Inl FrameIncomplete"
  shows "bulk_at mc lim bad (input @ ext) pos = r"
proof -
  have pos: "pos < length input"
    using assms(2,3) by (cases "length input \<le> pos") (auto simp: bulk_at_def)
  show ?thesis
  proof (cases "find_crlf mc input (pos + 1)")
    case None
    then show ?thesis using assms pos by (auto simp: bulk_at_def nth_append)
  next
    case (Some i)
    moreover have "i + 1 < length input"
      using find_crlf_bounds [OF Some] by simp
    ultimately show ?thesis
      using assms pos find_crlf_append [OF assms(1) Some, of ext]
      by (auto simp: bulk_at_def nth_append Let_def split: option.splits if_splits)
  qed
qed

lemma multibulk_args_append:
  assumes "memchr_spec mc" "multibulk_args mc lim mk input count pos acc = step" "step \<noteq> FrameIncomplete"
    and "\<And>s e. e \<le> length input \<Longrightarrow> mk' s e = mk s e"
  shows "multibulk_args mc lim mk' (input @ ext) count pos acc = step"
  using assms(2,3)
proof (induction count arbitrary: pos acc)
  case (Suc count)
  show ?case
  proof (cases "bulk_at mc lim expected_dollar input pos")
    case (Inl st)
    then show ?thesis
      using Suc.prems bulk_at_append [OF assms(1) Inl] by auto
  next
    case (Inr p)
    obtain s e where p: "p = (s, e)" by (cases p)
    have "e + 2 \<le> length input"
      using bulk_at_end Inr p by blast
    then show ?thesis
      using Suc bulk_at_append [OF assms(1) Inr] assms(4) Inr p by (auto simp: nth_append)
  qed
qed simp

lemma skip_elements_append:
  assumes "memchr_spec mc" "skip_elements mc lim input count pos = step" "step \<noteq> FrameIncomplete"
  shows "skip_elements mc lim (input @ ext) count pos = step"
  using assms(2,3)
proof (induction count arbitrary: pos)
  case (Suc count)
  then show ?case
    using bulk_at_append [OF assms(1), of lim _ input pos]
    by (cases "bulk_at mc lim (\<lambda>_. protocol ''invalid attribute element'') input pos") auto
qed simp

abbreviation (input) too_big :: error_reply where
  "too_big \<equiv> protocol ''too big inline request''"

lemma inline_line:
  "memchr_spec mc \<Longrightarrow> find_crlf_or_lf mc input = Some (line_end, consumed) \<Longrightarrow>
     line_end < consumed \<and> consumed \<le> length input"
  by (auto simp: find_crlf_or_lf_def bind_eq_Some_conv Suc_le_eq split: if_splits dest: memchr_bound)

lemma find_crlf_or_lf_append:
  assumes "memchr_spec mc" "find_crlf_or_lf mc input = Some p"
  shows "find_crlf_or_lf mc (input @ ext) = Some p"
proof -
  obtain lf where lf: "mc LF input = Some lf"
    using assms(2) by (auto simp: find_crlf_or_lf_def bind_eq_Some_conv)
  have "lf < length input" "mc LF (input @ ext) = Some lf"
    using assms(1) lf by (auto intro: memchr_bound memchr_append)
  then show ?thesis
    using assms(2) lf by (simp add: find_crlf_or_lf_def nth_append less_imp_diff_less)
qed

lemma decode_inline_append:
  assumes "memchr_spec mc" "decode_inline mc lim input = step" "step \<noteq> FrameIncomplete" "step \<noteq> FrameError too_big"
  shows "decode_inline mc lim (input @ ext) = step"
proof (cases "find_crlf_or_lf mc input")
  case (Some p)
  obtain line_end consumed where p: "p = (line_end, consumed)" by (cases p)
  have "line_end \<le> length input"
    using inline_line [OF assms(1)] Some p by fastforce
  then show ?thesis
    using assms Some p find_crlf_or_lf_append [OF assms(1) Some, of ext] by (auto simp: decode_inline_def)
qed (use assms in \<open>auto simp: decode_inline_def split: if_splits\<close>)

lemma decode_multibulk_append:
  assumes "memchr_spec mc" "decode_multibulk mc lim mk input = step" "step \<noteq> FrameIncomplete"
    and "\<And>s e. e \<le> length input \<Longrightarrow> mk' s e = mk s e"
  shows "decode_multibulk mc lim mk' (input @ ext) = step"
proof (cases "find_crlf mc input 1")
  case (Some i)
  moreover have "i + 1 < length input"
    using find_crlf_bounds [OF Some] by simp
  ultimately show ?thesis
    using assms(2,3) find_crlf_append [OF assms(1) Some, of ext]
      multibulk_args_append [OF assms(1) _ _ assms(4)]
    by (auto simp: decode_multibulk_def split: option.splits if_splits)
qed (use assms in \<open>auto simp: decode_multibulk_def\<close>)

lemma skip_attribute_append:
  assumes "memchr_spec mc" "decode_and_skip_attribute mc lim input = Some step" "step \<noteq> FrameIncomplete"
  shows "decode_and_skip_attribute mc lim (input @ ext) = Some step"
proof (cases "find_crlf mc input 1")
  case (Some i)
  moreover have "i + 1 < length input"
    using find_crlf_bounds [OF Some] by simp
  ultimately show ?thesis
    using assms(2,3) find_crlf_append [OF assms(1) Some, of ext] skip_elements_append [OF assms(1)]
    by (auto simp: decode_and_skip_attribute_def bind_eq_Some_conv split: option.splits if_splits)
qed (use assms in \<open>auto simp: decode_and_skip_attribute_def\<close>)

lemma decode_frame_append:
  assumes "memchr_spec mc" "decode_frame mc lim mk input = Some step" "input \<noteq> []"
    and "step \<noteq> FrameIncomplete" "step \<noteq> FrameError too_big"
    and "\<And>s e. e \<le> length input \<Longrightarrow> mk' s e = mk s e"
  shows "decode_frame mc lim mk' (input @ ext) = Some step"
  using assms decode_multibulk_append [OF assms(1) _ assms(4,6)] skip_attribute_append [OF assms(1) _ assms(4)]
    decode_inline_append [OF assms(1) _ assms(4,5)]
  by (auto simp: decode_frame_def nth_append split: if_splits)

lemma decode_core_append:
  assumes "memchr_spec mc" "decode_core mc lim mk input cursor = Some out"
    and "out \<noteq> Incomplete" "out \<noteq> DecodeError too_big"
    and "\<And>s e. e \<le> length input \<Longrightarrow> mk' s e = mk s e"
  shows "decode_core mc lim mk' (input @ ext) cursor = Some out"
  using assms
proof (induction mc lim mk input cursor rule: decode_core.induct)
  case (1 mc lim mk input cursor)
  let ?mk = "\<lambda>s e. mk (cursor + s) (cursor + e)" and ?mk' = "\<lambda>s e. mk' (cursor + s) (cursor + e)"
  have ne: "drop cursor input \<noteq> []"
    using "1.prems" by (subst (asm) decode_core.simps) (auto simp: Let_def)
  then have cursor: "cursor < length input" by simp
  obtain step where step: "decode_frame mc lim ?mk (drop cursor input) = Some step"
    using "1.prems" ne by (subst (asm) decode_core.simps) (auto simp: Let_def split: option.splits)
  have settled: "step \<noteq> FrameIncomplete" "step \<noteq> FrameError too_big"
    using "1.prems" ne step by (subst (asm) decode_core.simps; auto simp: Let_def)+
  have frame: "decode_frame mc lim ?mk' (drop cursor (input @ ext)) = Some step"
    using decode_frame_append [OF "1.prems"(1) step ne settled, of ?mk' ext] "1.prems"(5) cursor by simp
  show ?case
  proof (cases "\<exists>n. step = Skip n")
    case True
    then obtain n where n: "step = Skip n" by blast
    have "decode_core mc lim mk input (cursor + n) = Some out"
      using "1.prems"(2) ne step n by (subst (asm) decode_core.simps) (simp add: Let_def)
    then have "decode_core mc lim mk' (input @ ext) (cursor + n) = Some out"
      using "1.IH" [OF refl ne step n] "1.prems" by blast
    then show ?thesis
      using frame n cursor by (subst decode_core.simps) (simp add: Let_def)
  next
    case False
    then show ?thesis
      using "1.prems"(2) ne step frame cursor settled
      by (subst decode_core.simps, subst (asm) (1) decode_core.simps) (auto simp: Let_def split: frame_step.splits)
  qed
qed

subsection \<open>Limits\<close>

lemma bulk_at_len: "bulk_at mc lim bad input pos = Inr (s, e) \<Longrightarrow> int (e - s) \<le> max_bulk_len lim"
  by (auto simp: bulk_at_def Let_def split: option.splits if_splits)

lemma multibulk_args_limits:
  assumes "multibulk_args mc lim mk input count pos acc = FrameRequest r n" "pos \<le> length input"
    and "\<And>s e. e \<le> length input \<Longrightarrow> length (mk s e) = e - s"
  shows "length (args r) = length acc + count \<and> n \<le> length input \<and>
         (\<forall>a \<in> set (args r). a \<in> set acc \<or> int (length a) \<le> max_bulk_len lim)"
  using assms(1,2)
proof (induction count arbitrary: pos acc)
  case (Suc count)
  obtain s e where se: "bulk_at mc lim expected_dollar input pos = Inr (s, e)"
    and rec: "multibulk_args mc lim mk input count (e + 2) (acc @ [mk s e]) = FrameRequest r n"
    using Suc.prems(1)
    by (auto simp: bulk_at_def Let_def split: sum.splits if_splits option.splits)
  have e: "e + 2 \<le> length input"
    using bulk_at_end [OF se] by simp
  moreover have "int (length (mk s e)) \<le> max_bulk_len lim"
    using bulk_at_len [OF se] assms(3) e by simp
  ultimately show ?case
    using Suc.IH [OF rec e] by auto
qed auto

lemma multibulk_args_grow:
  "multibulk_args mc lim mk input count pos acc = FrameRequest r n \<Longrightarrow> 0 < pos \<Longrightarrow> 0 < n"
proof (induction count arbitrary: pos acc)
  case (Suc count)
  then show ?case
    by (auto simp: bulk_at_def Let_def split: sum.splits if_splits option.splits)
qed auto

lemma skip_elements_no_request: "skip_elements mc lim input count pos \<noteq> FrameRequest r n"
  by (induction count arbitrary: pos) (auto simp: bulk_at_def Let_def split: option.splits if_splits)

lemma double_quoted_size:
  "double_quoted cur bs = Inr (cur', rest) \<Longrightarrow> length cur' + length rest \<le> length cur + length bs"
proof (induction cur bs rule: double_quoted.induct)
  case (2 cur b bs)
  then show ?case
    by (cases bs) (auto split: if_splits dest!: quote_closed_rest)
qed simp

lemma single_quoted_size:
  "single_quoted cur bs = Inr (cur', rest) \<Longrightarrow> length cur' + length rest \<le> length cur + length bs"
  by (induction cur bs rule: single_quoted.induct) (auto split: if_splits dest!: quote_closed_rest)

lemma inline_word_size:
  "inline_word cur bs = Inr (cur', rest) \<Longrightarrow> length cur' + length rest \<le> length cur + length bs"
proof (induction cur bs arbitrary: cur' rest rule: inline_word.induct)
  case (2 cur b bs)
  then show ?case
    by (auto split: if_splits sum.splits dest!: double_quoted_size single_quoted_size) (meson le_SucI le_trans add_le_mono1)+
qed simp

definition inline_bound :: "nat \<Rightarrow> bytes list \<Rightarrow> bool" where
  "inline_bound n as \<longleftrightarrow> length as \<le> n \<and> sum_list (map length as) \<le> n"

lemma split_inline_bound:
  "split_inline acc line = Inr as \<Longrightarrow> inline_bound n acc \<Longrightarrow> inline_bound (n + length line) as"
proof (induction acc line arbitrary: n rule: split_inline.induct)
  case (1 acc line)
  let ?rest = "dropWhile is_blank line"
  have drop: "length ?rest \<le> length line"
    by (rule length_dropWhile_le)
  show ?case
  proof (cases ?rest)
    case Nil
    have "as = acc"
      using "1.prems"(1) unfolding split_inline.simps [of acc line] Nil by simp
    then show ?thesis
      using "1.prems"(2) by (simp add: inline_bound_def)
  next
    case (Cons b bs)
    obtain word rest where word: "inline_word [] (b # bs) = Inr (word, rest)"
      and rec: "split_inline (acc @ [word]) rest = Inr as"
      using "1.prems"(1) Cons by (subst (asm) split_inline.simps) (auto split: sum.splits)
    have len: "length word + length rest \<le> length (b # bs)" "length rest < length (b # bs)"
      using inline_word_size [OF word] inline_word_shorter [OF word] by auto
    let ?n = "n + (length (b # bs) - length rest)"
    have "inline_bound ?n (acc @ [word])"
      using "1.prems"(2) len by (auto simp: inline_bound_def)
    then have "inline_bound (?n + length rest) as"
      by (rule "1.IH" [OF Cons word refl rec])
    then show ?thesis
      using len drop Cons by (auto simp: inline_bound_def)
  qed
qed

text \<open>The limits on a request whose frame starts with the byte \<open>b\<close>: \<open>*\<close> for a multibulk, an inline line otherwise.\<close>

definition within_limits :: "limits \<Rightarrow> u8 \<Rightarrow> request \<Rightarrow> bool" where
  "within_limits lim b r \<longleftrightarrow> args r \<noteq> [] \<and>
     (if b = 0x2A
      then int (length (args r)) \<le> max_multibulk lim \<and> list_all (\<lambda>a. int (length a) \<le> max_bulk_len lim) (args r)
      else inline_bound (max_inline_len lim) (args r))"

text \<open>Where the first frame that is not skipped starts.\<close>

function frame_start :: "memchr \<Rightarrow> limits \<Rightarrow> bytes \<Rightarrow> nat \<Rightarrow> nat" where
  "frame_start mc lim input cursor =
     (if drop cursor input = [] then cursor
      else case decode_frame mc lim (\<lambda>s e. slice (cursor + s) (cursor + e) input) (drop cursor input) of
             Some (Skip k) \<Rightarrow> frame_start mc lim input (cursor + k)
           | _ \<Rightarrow> cursor)"
  by pat_completeness auto
termination
  by (relation "measure (\<lambda>(mc, lim, input, cursor). length input - cursor)") (auto dest!: skip_positive)

declare frame_start.simps [simp del]

lemma decode_frame_limits:
  assumes "memchr_spec mc" "decode_frame mc lim mk rest = Some (FrameRequest r n)" "rest \<noteq> []"
    and "\<And>s e. e \<le> length rest \<Longrightarrow> length (mk s e) = e - s"
  shows "0 < n \<and> n \<le> length rest \<and> within_limits lim (rest ! 0) r"
proof -
  consider (multibulk) "rest ! 0 = 0x2A" "decode_multibulk mc lim mk rest = FrameRequest r n"
    | (attribute) "decode_and_skip_attribute mc lim rest = Some (FrameRequest r n)"
    | (inline) "rest ! 0 \<noteq> 0x2A" "decode_inline mc lim rest = FrameRequest r n"
    using assms(2) by (auto simp: decode_frame_def split: if_splits)
  then show ?thesis
  proof cases
    case multibulk
    then obtain crlf count where crlf: "find_crlf mc rest 1 = Some crlf"
      and count: "0 < count" "count \<le> max_multibulk lim"
      and args: "multibulk_args mc lim mk rest (nat count) (crlf + 2) [] = FrameRequest r n"
      by (auto simp: decode_multibulk_def not_less not_le split: option.splits if_splits)
    have "crlf + 2 \<le> length rest"
      using find_crlf_bounds [OF crlf] by simp
    from multibulk_args_limits [OF args this assms(4)] multibulk_args_grow [OF args] count multibulk(1)
    show ?thesis by (auto simp: within_limits_def list_all_iff)
  next
    case attribute
    then show ?thesis
      using skip_elements_no_request by (auto simp: decode_and_skip_attribute_def bind_eq_Some_conv
          split: option.splits if_splits)
  next
    case inline
    then obtain line_end where line: "find_crlf_or_lf mc rest = Some (line_end, n)" "line_end \<le> max_inline_len lim"
      and split: "split_inline [] (take line_end rest) = Inr (args r)" and "args r \<noteq> []"
      by (auto simp: decode_inline_def split: option.splits if_splits sum.splits)
    moreover have "inline_bound line_end (args r)"
      using split_inline_bound [OF split, of 0] inline_line [OF assms(1) line(1)]
      by (simp add: inline_bound_def)
    ultimately show ?thesis
      using inline_line [OF assms(1) line(1)] inline(1) by (auto simp: within_limits_def inline_bound_def)
  qed
qed

lemma decode_core_limits:
  assumes "memchr_spec mc" "decode_core mc lim (\<lambda>s e. slice s e input) input cursor = Some (Complete r n)"
  shows "let start = frame_start mc lim input cursor
         in cursor \<le> start \<and> start < n \<and> n \<le> length input \<and> within_limits lim (input ! start) r"
  using assms
proof (induction mc lim "\<lambda>s e. slice s e input" input cursor rule: decode_core.induct)
  case (1 mc lim input cursor)
  let ?mk = "\<lambda>s e. slice (cursor + s) (cursor + e) input"
  have ne: "drop cursor input \<noteq> []"
    using "1.prems" by (subst (asm) decode_core.simps) (auto simp: Let_def)
  obtain step where step: "decode_frame mc lim ?mk (drop cursor input) = Some step"
    using "1.prems" ne by (subst (asm) decode_core.simps) (auto simp: Let_def split: option.splits)
  show ?case
  proof (cases step)
    case (FrameRequest r' n')
    then have "r' = r" "n = cursor + n'"
      using "1.prems"(2) ne step by (subst (asm) decode_core.simps; simp add: Let_def)+
    moreover have "0 < n' \<and> n' \<le> length (drop cursor input) \<and> within_limits lim (drop cursor input ! 0) r'"
      by (rule decode_frame_limits [OF "1.prems"(1) _ ne]) (use step FrameRequest ne in auto)
    moreover have "frame_start mc lim input cursor = cursor"
      using ne step FrameRequest by (subst frame_start.simps) simp
    ultimately show ?thesis using ne by (auto simp: Let_def)
  next
    case (Skip k)
    have "decode_core mc lim (\<lambda>s e. slice s e input) input (cursor + k) = Some (Complete r n)"
      using "1.prems"(2) ne step Skip by (subst (asm) decode_core.simps) (simp add: Let_def)
    moreover have "frame_start mc lim input cursor = frame_start mc lim input (cursor + k)"
      using ne step Skip by (subst frame_start.simps) simp
    ultimately show ?thesis
      using "1.hyps" [OF refl ne step Skip] "1.prems" by (auto simp: Let_def)
  qed (use "1.prems"(2) ne step in \<open>subst (asm) decode_core.simps; simp add: Let_def\<close>)+
qed

subsection \<open>Requests print and parse\<close>

lemma i64_to_str_plain: "CR \<notin> set (i64_to_str n)"
  using write_digits_ascii [of CR] by (auto simp: i64_to_str_def Let_def is_ascii_digit_def)

lemma find_crlf_line:
  assumes "memchr_spec mc" "CR \<notin> set l"
  shows "find_crlf mc (pre @ l @ CR # LF # rest) (length pre) = Some (length pre + length l)"
proof -
  have "position (\<lambda>x. x = CR) (l @ CR # LF # rest) = Some (length l)"
    using assms(2) by (induction l) auto
  then show ?thesis
    using assms(1) by (subst find_crlf.simps) (simp add: memchr_spec_def nth_append)
qed

lemma parse_length: "int n \<le> i64_max \<Longrightarrow> parse_i64 (i64_to_str (int n)) = Some (int n)"
  by (intro parse_i64_to_str) auto

lemma header_parses:
  assumes "memchr_spec mc" "int n \<le> i64_max"
  shows "find_crlf mc (pre @ header marker n @ rest) (length pre + 1) =
           Some (length pre + 1 + length (i64_to_str (int n)))"
    and "slice (length pre + 1) (length pre + 1 + length (i64_to_str (int n))) (pre @ header marker n @ rest) =
           i64_to_str (int n)"
  using find_crlf_line [OF assms(1) i64_to_str_plain, of "pre @ [marker]" "int n" rest]
    slice_mid [of "pre @ [marker]" "i64_to_str (int n)" "[CR, LF] @ rest"]
  by (simp_all add: header_def)

abbreviation (input) bulk_bytes :: "bytes \<Rightarrow> bytes" where
  "bulk_bytes a \<equiv> header 0x24 (length a) @ a @ [CR, LF]"

lemma length_header: "length (header marker n) = length (i64_to_str (int n)) + 3"
  by (simp add: header_def)

lemma bulk_at_bulk:
  assumes "memchr_spec mc" "int (length a) \<le> max_bulk_len lim" "int (length a) \<le> i64_max"
  shows "bulk_at mc lim bad (pre @ bulk_bytes a @ rest) (length pre) =
           Inr (length pre + length (header 0x24 (length a)), length pre + length (header 0x24 (length a)) + length a)"
proof -
  have "(pre @ header 0x24 (length a) @ a @ [CR, LF] @ rest) ! length pre = 0x24"
    by (simp add: header_def nth_append)
  then show ?thesis
    using assms header_parses [OF assms(1,3), of pre "0x24" "a @ [CR, LF] @ rest"]
    by (simp add: bulk_at_def parse_length length_header)
qed

lemma multibulk_args_bulks:
  assumes "memchr_spec mc"
    and "\<forall>a \<in> set as. int (length a) \<le> max_bulk_len lim \<and> int (length a) \<le> i64_max"
    and "input = pre @ concat (map bulk_bytes as) @ rest"
  shows "multibulk_args mc lim (\<lambda>s e. slice s e input) input (length as) (length pre) acc =
           FrameRequest \<lparr>args = acc @ as\<rparr> (length pre + length (concat (map bulk_bytes as)))"
  using assms(2,3)
proof (induction as arbitrary: pre acc)
  case (Cons a as)
  let ?h = "length pre + length (header 0x24 (length a))"
  let ?tail = "concat (map bulk_bytes as) @ rest"
  have input: "input = pre @ bulk_bytes a @ ?tail"
    using Cons.prems by simp
  have "bulk_at mc lim expected_dollar input (length pre) = Inr (?h, ?h + length a)"
    unfolding input using Cons.prems(1) by (intro bulk_at_bulk [OF assms(1)]) auto
  moreover have "input ! (?h + length a) = CR" "input ! (?h + length a + 1) = LF"
    unfolding input by (simp_all add: nth_append)
  moreover have "slice ?h (?h + length a) input = a"
    using slice_mid [of "pre @ header 0x24 (length a)" a "[CR, LF] @ ?tail"] by (simp add: input)
  moreover have "multibulk_args mc lim (\<lambda>s e. slice s e input) input (length as) (?h + length a + 2) (acc @ [a]) =
      FrameRequest \<lparr>args = (acc @ [a]) @ as\<rparr> (?h + length a + 2 + length (concat (map bulk_bytes as)))"
    using Cons.IH [of "pre @ bulk_bytes a" "acc @ [a]"] Cons.prems by (simp add: add.assoc)
  ultimately show ?case by simp
qed simp

lemma encode_request:
  "encode ryu proto (Array (Some (map bulk as))) = header 0x2A (length as) @ concat (map bulk_bytes as)"
  by (simp add: bulk_def comp_def)

lemma decode_request:
  assumes "memchr_spec mc" "as \<noteq> []" "int (length as) \<le> max_multibulk lim" "int (length as) \<le> i64_max"
    and "\<forall>a \<in> set as. int (length a) \<le> max_bulk_len lim \<and> int (length a) \<le> i64_max"
    and "req = header 0x2A (length as) @ concat (map bulk_bytes as)"
  shows "decode mc lim (req @ rest) = Some (Complete \<lparr>args = as\<rparr> (length req))"
proof -
  let ?pre = "header 0x2A (length as)"
  have "decode_multibulk mc lim (\<lambda>s e. slice s e (req @ rest)) (req @ rest) =
      FrameRequest \<lparr>args = as\<rparr> (length req)"
    using assms header_parses [OF assms(1,4), of "[]" "0x2A" "concat (map bulk_bytes as) @ rest"]
      multibulk_args_bulks [OF assms(1,5), of "req @ rest" ?pre rest "[]"]
    by (simp add: decode_multibulk_def parse_length length_header numeral_3_eq_3)
  moreover have "(req @ rest) ! 0 = 0x2A" "req @ rest \<noteq> []"
    using assms(6) by (simp_all add: header_def)
  ultimately show ?thesis
    by (simp add: decode_def decode_core.simps Let_def decode_frame_def)
qed

subsection \<open>Properties\<close>

text \<open>
  C28: A request that a client sends as an array of bulk strings decodes to its arguments, byte for byte, and
  the decoder consumes exactly that request, whatever follows it in the buffer.
\<close>
theorem request_roundtrip:
  assumes "memchr_spec mc" "as \<noteq> []" "int (length as) \<le> max_multibulk lim" "int (length as) \<le> i64_max"
    and "\<forall>a \<in> set as. int (length a) \<le> max_bulk_len lim \<and> int (length a) \<le> i64_max"
  shows "decode mc lim (encode ryu proto (Array (Some (map bulk as))) @ rest) =
           Some (Complete \<lparr>args = as\<rparr> (length (encode ryu proto (Array (Some (map bulk as))))))"
  using decode_request [OF assms encode_request] by (simp only: encode_request)

lemma memchr_spec_position: "memchr_spec (\<lambda>b. position (\<lambda>x. x = b))"
  by (simp add: memchr_spec_def)

theorem request_roundtrip_witness:
  "decode (\<lambda>b. position (\<lambda>x. x = b)) limits_default
     (encode (\<lambda>_. ''0.0'') Resp2 (Array (Some (map bulk [[0x47, 0x45, 0x54], [0x0D, 0x0A]]))) @ [0x2A]) =
   Some (Complete \<lparr>args = [[0x47, 0x45, 0x54], [0x0D, 0x0A]]\<rparr>
     (length (encode (\<lambda>_. ''0.0'') Resp2 (Array (Some (map bulk [[0x47, 0x45, 0x54], [0x0D, 0x0A]]))))))"
  by (rule request_roundtrip [OF memchr_spec_position]) (simp_all add: limits_default_def)

text \<open>
  C29: How the network splits a request does not change it: once a buffer decodes to a request, or to a
  protocol error other than the one for an overlong inline line, every longer buffer decodes to the same result.
\<close>
theorem decode_segmentation:
  assumes "memchr_spec mc" "decode mc lim input = Some out"
    and "out \<noteq> Incomplete" "out \<noteq> DecodeError (protocol ''too big inline request'')"
  shows "decode mc lim (input @ ext) = Some out"
  using assms unfolding decode_def by (intro decode_core_append [where mk = "\<lambda>s e. slice s e input"]) auto

abbreviation (input) ping :: bytes where "ping \<equiv> [0x50, 0x49, 0x4E, 0x47]"

abbreviation (input) ping_request :: bytes where
  "ping_request \<equiv> encode (\<lambda>_. ''0.0'') Resp2 (Array (Some (map bulk [ping])))"

lemma decode_ping:
  "decode (\<lambda>b. position (\<lambda>x. x = b)) limits_default ping_request = Some (Complete \<lparr>args = [ping]\<rparr> (length ping_request))"
  using decode_request [OF memchr_spec_position _ _ _ _ encode_request, of "[ping]" limits_default _ _ "[]"]
  by (simp add: limits_default_def)

theorem decode_segmentation_witness:
  "decode (\<lambda>b. position (\<lambda>x. x = b)) limits_default (ping_request @ [0x2A, 0x31]) =
     Some (Complete \<lparr>args = [ping]\<rparr> (length ping_request))"
  by (rule decode_segmentation [OF memchr_spec_position decode_ping]) simp_all

text \<open>
  C30: A decoded request obeys the limits of the kind of frame it came in. It has a command name. Its frame is the
  first one that is not skipped, which starts before the reported end, and the end is inside the buffer. If that frame
  starts with an asterisk the request has at most the allowed number of arguments, each of at most the allowed length;
  otherwise the frame is an inline line and the request has no more arguments, and no more bytes in them, than the
  allowed line length.
\<close>
theorem decode_within_limits:
  assumes "memchr_spec mc" "decode mc lim input = Some (Complete r n)"
  shows "let start = frame_start mc lim input 0
         in start < n \<and> n \<le> length input \<and> args r \<noteq> [] \<and>
            (if input ! start = 0x2A
             then int (length (args r)) \<le> max_multibulk lim \<and> list_all (\<lambda>a. int (length a) \<le> max_bulk_len lim) (args r)
             else length (args r) \<le> max_inline_len lim \<and> sum_list (map length (args r)) \<le> max_inline_len lim)"
  using decode_core_limits [OF assms(1) assms(2) [unfolded decode_def]]
  by (auto simp: within_limits_def inline_bound_def Let_def)

text \<open>A limit of four bytes, met exactly by a command that follows an empty line.\<close>

theorem decode_within_limits_witness:
  "decode (\<lambda>b. position (\<lambda>x. x = b)) (limits_default\<lparr>max_inline_len := 4\<rparr>) ([CR, LF] @ ping @ [CR, LF]) =
     Some (Complete \<lparr>args = [ping]\<rparr> 8) \<and>
   frame_start (\<lambda>b. position (\<lambda>x. x = b)) (limits_default\<lparr>max_inline_len := 4\<rparr>) ([CR, LF] @ ping @ [CR, LF]) 0 = 2 \<and>
   sum_list (map length [ping]) \<le> 4"
proof -
  let ?lim = "limits_default\<lparr>max_inline_len := 4\<rparr>" and ?input = "[CR, LF] @ ping @ [CR, LF]"
  have dec: "decode (\<lambda>b. position (\<lambda>x. x = b)) ?lim ?input = Some (Complete \<lparr>args = [ping]\<rparr> 8)"
    by code_simp
  have start: "frame_start (\<lambda>b. position (\<lambda>x. x = b)) ?lim ?input 0 = 2"
    by code_simp
  show ?thesis
    using decode_within_limits [OF memchr_spec_position dec] dec start by (simp add: Let_def)
qed

text \<open>
  C31: The decoder always returns: no-op frames are skipped one by one until the buffer is exhausted, and no input
  makes it panic as long as doubling the multibulk limit stays within \<open>i64\<close>, as the default limit does.
\<close>
theorem decode_returns:
  assumes "max_multibulk lim \<le> 2 ^ 62 - 1"
  shows "\<exists>out. decode mc lim input = Some out"
proof -
  have frame: "decode_frame mc lim mk rest \<noteq> None" for mk rest
    using assms
    by (auto simp: decode_frame_def decode_and_skip_attribute_def checked_i64_def is_i64_def
        split: option.splits)
  have "decode_core mc lim mk input cursor \<noteq> None" for mk cursor
    using frame
  proof (induction mc lim mk input cursor rule: decode_core.induct)
    case (1 mc lim mk input cursor)
    have "\<exists>out. decode_core mc lim mk input (cursor + n) = Some out"
      if "decode_frame mc lim (\<lambda>s e. mk (cursor + s) (cursor + e)) (drop cursor input) = Some (Skip n)"
        and "\<not> length input \<le> cursor" for n
      using "1.IH" [OF refl _ that(1) refl "1.prems"] that(2) by auto
    then show ?case
      by (subst decode_core.simps) (auto simp: Let_def "1.prems" split: option.splits frame_step.splits)
  qed
  then show ?thesis by (simp add: decode_def)
qed

theorem decode_returns_witness:
  "\<exists>out. decode (\<lambda>b. position (\<lambda>x. x = b)) limits_default [0x7C, 0x39, CR, LF] = Some out"
  by (rule decode_returns) (simp add: limits_default_def)

text \<open>
  C40: The length limit of an inline line depends on how it arrives. A line of exactly the allowed length is
  accepted together with its line end, and refused when its carriage return arrives first.
\<close>
theorem inline_limit_depends_on_reads:
  "decode (\<lambda>b. position (\<lambda>x. x = b)) (limits_default\<lparr>max_inline_len := 4\<rparr>) (ping @ [CR]) =
     Some (DecodeError (protocol ''too big inline request'')) \<and>
   decode (\<lambda>b. position (\<lambda>x. x = b)) (limits_default\<lparr>max_inline_len := 4\<rparr>) (ping @ [CR, LF]) =
     Some (Complete \<lparr>args = [ping]\<rparr> 6)"
  by code_simp

end
