(* ===== verification/Resp_Reply.thy ===== *)
theory Resp_Reply
  imports Resp_Framing
begin

text \<open>
  Replies seen from the client: a reader of the RESP grammar finds exactly one reply in the bytes that
  \<open>encode\<close> writes for a value, in either version of the protocol, whatever text the value carries.
\<close>

subsection \<open>A reader of replies\<close>

fun read_line :: "bytes \<Rightarrow> (bytes \<times> bytes) option" where
  "read_line (b # c # bs) =
     (if b = CR \<and> c = LF then Some ([], bs)
      else map_option (\<lambda>(l, rest). (b # l, rest)) (read_line (c # bs)))"
| "read_line _ = None"

fun read_times :: "(bytes \<Rightarrow> bytes option) \<Rightarrow> nat \<Rightarrow> bytes \<Rightarrow> bytes option" where
  "read_times f 0 bs = Some bs"
| "read_times f (Suc n) bs = Option.bind (f bs) (read_times f n)"

text \<open>The type bytes of either version: one line, a length-prefixed blob, an aggregate, a map.\<close>

definition line_types :: "proto_version \<Rightarrow> bytes" where
  "line_types p = map of_char (case p of Resp2 \<Rightarrow> ''+-:'' | Resp3 \<Rightarrow> ''+-:_#,('')"

definition blob_types :: "proto_version \<Rightarrow> bytes" where
  "blob_types p = map of_char (case p of Resp2 \<Rightarrow> ''$'' | Resp3 \<Rightarrow> ''$!='')"

definition list_types :: "proto_version \<Rightarrow> bytes" where
  "list_types p = map of_char (case p of Resp2 \<Rightarrow> ''*'' | Resp3 \<Rightarrow> ''*~>'')"

definition map_types :: "proto_version \<Rightarrow> bytes" where
  "map_types p = map of_char (case p of Resp2 \<Rightarrow> '''' | Resp3 \<Rightarrow> ''%'')"

text \<open>The bytes that follow the first reply of a buffer, for replies nested less than \<open>depth\<close> deep.\<close>

fun skip_reply :: "proto_version \<Rightarrow> nat \<Rightarrow> bytes \<Rightarrow> bytes option" where
  "skip_reply p (Suc depth) (m # bs) =
     (case read_line bs of
        None \<Rightarrow> None
      | Some (line, rest) \<Rightarrow>
          if m \<in> set (line_types p) then Some rest
          else
            (case parse_i64 line of
               None \<Rightarrow> None
             | Some n \<Rightarrow>
                 if n < 0 then (if m \<in> set (blob_types p @ list_types p) then Some rest else None)
                 else if m \<in> set (blob_types p) then
                   (if take 2 (drop (nat n) rest) = [CR, LF] then Some (drop (nat n + 2) rest) else None)
                 else if m \<in> set (list_types p) then read_times (skip_reply p depth) (nat n) rest
                 else if m \<in> set (map_types p) then read_times (skip_reply p depth) (2 * nat n) rest
                 else None))"
| "skip_reply p _ _ = None"

lemmas type_bytes = line_types_def blob_types_def list_types_def map_types_def

lemma read_line_plain: "CR \<notin> set l \<Longrightarrow> read_line (l @ CR # LF # rest) = Some (l, rest)"
proof (induction l)
  case (Cons b l)
  then show ?case by (cases "l @ CR # LF # rest") auto
qed simp

lemma skip_line:
  "m \<in> set (line_types p) \<Longrightarrow> CR \<notin> set l \<Longrightarrow> skip_reply p (Suc depth) (m # l @ CR # LF # rest) = Some rest"
  by (simp add: read_line_plain)

lemma blob_not_line: "m \<in> set (blob_types p @ list_types p @ map_types p) \<Longrightarrow> m \<notin> set (line_types p)"
  by (cases p) (auto simp: type_bytes)

lemma list_not_blob: "m \<in> set (list_types p @ map_types p) \<Longrightarrow> m \<notin> set (blob_types p)"
  by (cases p) (auto simp: type_bytes)

lemma map_not_list: "m \<in> set (map_types p) \<Longrightarrow> m \<notin> set (list_types p)"
  by (cases p) (auto simp: type_bytes)

lemma header_line: "read_line (i64_to_str (int n) @ CR # LF # rest) = Some (i64_to_str (int n), rest)"
  by (rule read_line_plain [OF i64_to_str_plain])

lemma skip_blob:
  assumes "m \<in> set (blob_types p)" "int (length data) \<le> i64_max"
  shows "skip_reply p (Suc depth) (header m (length data) @ data @ CR # LF # rest) = Some rest"
  using assms blob_not_line [of m p] by (simp add: header_def header_line parse_length)

lemma skip_list:
  assumes "m \<in> set (list_types p)" "int n \<le> i64_max" "read_times (skip_reply p depth) n body = Some rest"
  shows "skip_reply p (Suc depth) (header m n @ body) = Some rest"
  using assms blob_not_line [of m p] list_not_blob [of m p] by (simp add: header_def header_line parse_length)

lemma skip_map:
  assumes "m \<in> set (map_types p)" "int n \<le> i64_max" "read_times (skip_reply p depth) (2 * n) body = Some rest"
  shows "skip_reply p (Suc depth) (header m n @ body) = Some rest"
  using assms blob_not_line [of m p] list_not_blob [of m p] map_not_list [of m p]
  by (simp add: header_def header_line parse_length)

lemma read_times_concat:
  assumes "\<And>x rest. x \<in> set xs \<Longrightarrow> f (g x @ rest) = Some rest"
  shows "read_times f (length xs) (concat (map g xs) @ rest) = Some rest"
  using assms by (induction xs arbitrary: rest) auto

lemma read_times_pairs:
  assumes "\<And>a b rest. (a, b) \<in> set ps \<Longrightarrow> f (g a @ rest) = Some rest \<and> f (g b @ rest) = Some rest"
  shows "read_times f (2 * length ps) (concat (map (\<lambda>(a, b). g a @ g b) ps) @ rest) = Some rest"
  using assms
proof (induction ps arbitrary: rest)
  case (Cons p ps)
  obtain a b where p: "p = (a, b)" by (cases p)
  have "f (g a @ r) = Some r" "f (g b @ r) = Some r" for r
    using Cons.prems [of a b] p by auto
  moreover have "read_times f (2 * length ps) (concat (map (\<lambda>(a, b). g a @ g b) ps) @ rest) = Some rest"
    using Cons.prems by (intro Cons.IH) auto
  ultimately show ?case by (simp add: p)
qed simp

subsection \<open>Doubles\<close>

text \<open>
  What is documented of the \<open>ryu\<close> crate: a finite double prints as at most 24 characters, an optional sign,
  decimal digits with a point, and possibly an exponent of at most four characters.
\<close>

definition ryu_spec :: "(u64 \<Rightarrow> string) \<Rightarrow> bool" where
  "ryu_spec ryu \<longleftrightarrow>
     (\<forall>d. \<not> f64_is_nan d \<longrightarrow> \<not> f64_is_infinite d \<longrightarrow>
        set (ryu d) \<subseteq> set ''0123456789.-e'' \<and> length (ryu d) \<le> 24 \<and>
        (\<forall>m ex. split_once (\<lambda>c. c = CHR ''e'' \<or> c = CHR ''E'') (ryu d) = Some (m, ex) \<longrightarrow> length ex \<le> 4))"

definition printable :: "char \<Rightarrow> bool" where
  "printable c \<longleftrightarrow> c \<noteq> CHR 0x0D \<and> c \<noteq> CHR 0x0A"

lemma digits_value_bound: "list_all is_digit_char s \<Longrightarrow> digits_value s < 10 ^ length s"
proof (induction s rule: rev_induct)
  case (snoc c s)
  then have "(of_char c :: nat) - 48 \<le> 9"
    by (auto simp: is_digit_char_def)
  with snoc show ?case by (simp add: digits_value_def)
qed (simp add: digits_value_def)

lemma parse_i32_bound: "parse_i32 s = Some v \<Longrightarrow> length s \<le> 4 \<Longrightarrow> \<bar>v\<bar> < 10000"
proof -
  assume v: "parse_i32 s = Some v" and len: "length s \<le> 4"
  obtain digits where "list_all is_digit_char digits" "length digits \<le> 4" "\<bar>v\<bar> = int (digits_value digits)"
    using v len by (auto simp: parse_i32_def Let_def split: if_splits list.splits)
  moreover have "(10 :: nat) ^ length digits \<le> 10 ^ 4"
    using calculation by (intro power_increasing) auto
  ultimately show ?thesis
    using digits_value_bound [of digits] by simp
qed

lemma digit_char_printable: "d \<le> 200 \<Longrightarrow> printable (digit_char d)"
  by (auto simp: printable_def digit_char_def dest!: arg_cong [of _ _ "of_char :: char \<Rightarrow> nat"])

lemma exponent_printable: "ex \<le> 20000 \<Longrightarrow> list_all printable (exponent_digits ex)"
proof -
  assume "ex \<le> 20000"
  then have "ex div 100 \<le> 200" by simp
  moreover have "(ex - ex div 100 * 100) div 10 \<le> 200"
    using mod_less_divisor [of 100 ex] by (simp add: minus_div_mult_eq_mod)
  moreover have "x mod 10 \<le> 200" for x :: nat
    using mod_less_divisor [of 10 x] by linarith
  moreover have "printable CHR ''0''" by (simp add: printable_def)
  ultimately show ?thesis
    by (auto simp: exponent_digits_def Let_def intro!: digit_char_printable)
qed

lemma split_once_parts:
  "split_once P s = Some (a, b) \<Longrightarrow> set a \<subseteq> set s \<and> set b \<subseteq> set s \<and> length a + length b < length s"
  by (auto simp: split_once_def position_Some dest: in_set_takeD in_set_dropD)

lemma split_once_Cons: "\<not> P c \<Longrightarrow> split_once P (c # t) = map_option (\<lambda>(a, b). (c # a, b)) (split_once P t)"
  by (cases "position P t") (simp_all add: split_once_def)

lemma strip_sign_cases: "strip_sign s = (neg, s1) \<Longrightarrow> s1 = s \<or> s = CHR ''-'' # s1"
  by (auto simp: strip_sign_def split: list.splits if_splits)

lemma split_exponent_bound:
  assumes "split_exponent s = (m, ex)"
    and "\<And>a e. split_once (\<lambda>c. c = CHR ''e'' \<or> c = CHR ''E'') s = Some (a, e) \<Longrightarrow> length e \<le> 4"
  shows "set m \<subseteq> set s \<and> length m \<le> length s \<and> \<bar>ex\<bar> < 10000"
  using assms
  by (fastforce simp: split_exponent_def split: option.splits dest: split_once_parts parse_i32_bound)

lemma split_point_bound: "split_point m = (i, f) \<Longrightarrow> set (i @ f) \<subseteq> set m \<and> length i + length f \<le> length m"
  by (auto simp: split_point_def split: option.splits dest: split_once_parts)

lemma trim_zeros_bound:
  assumes "trim_zeros ds k = (digits, k')"
  shows "digits \<noteq> [] \<and> set digits \<subseteq> insert CHR ''0'' (set ds) \<and> \<bar>k'\<bar> \<le> \<bar>k\<bar> + int (length ds) + 1 \<and>
    length digits \<le> length ds + 1"
proof -
  let ?z = "\<lambda>c. c = CHR ''0''"
  let ?lead = "dropWhile ?z ds"
  have lead: "length ?lead \<le> length ds" "set ?lead \<subseteq> set ds"
    by (rule length_dropWhile_le) (blast dest: set_dropWhileD)
  show ?thesis
  proof (cases "?lead = [] \<or> ?lead = ''0''")
    case True
    then have "trim_zeros ds k = (''0'', k)"
      by (elim disjE) (simp_all add: trim_zeros_def del: dropWhile_eq_Nil_conv)
    then have "digits = ''0''" "k' = k"
      using assms by simp_all
    then show ?thesis by simp
  next
    case False
    let ?t = "rev (dropWhile ?z (rev ?lead))"
    have "trim_zeros ds k = (?t, k + int (length ?lead - length ?t))"
      using False by (simp add: trim_zeros_def Let_def del: dropWhile_eq_Nil_conv)
    with assms have t: "digits = ?t" "k' = k + int (length ?lead - length ?t)"
      by (metis prod.inject)+
    have "hd ?lead \<noteq> CHR ''0''" "hd ?lead \<in> set (rev ?lead)"
      using False hd_dropWhile [of ?z ds] by (simp_all del: dropWhile_eq_Nil_conv)
    then have "?t \<noteq> []" by (metis (full_types) dropWhile_eq_Nil_conv rev_is_Nil_conv)
    moreover have "length ?t \<le> length ?lead"
      using length_dropWhile_le [of ?z "rev ?lead"] by simp
    moreover have "set ?t \<subseteq> set ds"
      by (auto dest!: set_dropWhileD simp del: dropWhile_eq_Nil_conv)
    moreover have "\<bar>k'\<bar> \<le> \<bar>k\<bar> + int (length ds) + 1"
      using lead(1) unfolding t(2) by linarith
    ultimately show ?thesis
      using lead(1) unfolding t(1) by (meson le_add1 le_trans subset_insertI2)
  qed
qed

lemma list_all_replicate: "list_all P (replicate n x) \<longleftrightarrow> n = 0 \<or> P x"
  by (induction n) auto

lemma emit_printable:
  assumes "\<bar>k\<bar> \<le> 10100" "length digits \<le> 25" "digits \<noteq> []" "list_all printable digits"
  shows "list_all printable (emit_digits digits k neg)"
proof -
  have "printable (digits ! 0)"
    using assms(3,4) by (simp add: list_all_length)
  moreover have "list_all printable (slice 1 n digits)" for n
    using assms(4) by (auto simp: slice_def list_all_iff dest!: in_set_dropD in_set_takeD)
  moreover have "list_all printable (take n digits)" "list_all printable (drop n digits)" for n
    using assms(4) by (auto simp: list_all_iff dest: in_set_dropD in_set_takeD)
  moreover have "list_all printable (exponent_digits (nat \<bar>k + int (length digits) - 1\<bar>))"
    using assms by (intro exponent_printable) auto
  moreover have "printable CHR ''0''" "printable CHR ''.''" "printable CHR ''e''" "printable CHR ''+''" "printable CHR ''-''"
    by (simp_all add: printable_def)
  ultimately show ?thesis
    using assms(4) unfolding emit_digits_def Let_def
    by (simp add: list_all_replicate)
qed

lemma format_double_printable:
  assumes "ryu_spec ryu"
  shows "list_all printable (format_double ryu d)"
proof (cases "f64_is_nan d \<or> f64_is_infinite d \<or> f64_is_zero d")
  case False
  let ?s = "ryu d" and ?is_e = "\<lambda>c. c = CHR ''e'' \<or> c = CHR ''E''"
  have spec: "set ?s \<subseteq> set ''0123456789.-e''" "length ?s \<le> 24"
    "\<And>a e. split_once ?is_e ?s = Some (a, e) \<Longrightarrow> length e \<le> 4"
    using assms False by (auto simp: ryu_spec_def)
  obtain neg s1 where sign: "strip_sign ?s = (neg, s1)" by fastforce
  obtain m ex where expo: "split_exponent s1 = (m, ex)" by fastforce
  obtain i f where point: "split_point m = (i, f)" by fastforce
  obtain digits k where trim: "trim_zeros (i @ f) (ex - int (length f)) = (digits, k)" by fastforce
  have s1: "set s1 \<subseteq> set ?s" "length s1 \<le> 24" "\<And>a e. split_once ?is_e s1 = Some (a, e) \<Longrightarrow> length e \<le> 4"
    using strip_sign_cases [OF sign] spec(2,3) by (auto simp: split_once_Cons)
  have "set m \<subseteq> set s1 \<and> length m \<le> length s1 \<and> \<bar>ex\<bar> < 10000"
    by (rule split_exponent_bound [OF expo]) (rule s1(3))
  note bounds = this split_point_bound [OF point] trim_zeros_bound [OF trim]
  have "set digits \<subseteq> insert CHR ''0'' (set ?s)"
  proof -
    have "set (i @ f) \<subseteq> set ?s" using bounds s1(1) by (meson subset_trans)
    then show ?thesis using bounds by blast
  qed
  then have "list_all printable digits"
    using spec(1) by (fastforce simp: list_all_iff printable_def)
  moreover have "\<bar>k\<bar> \<le> 10100" "length digits \<le> 25" "digits \<noteq> []"
    using bounds s1(2) by auto
  ultimately have "list_all printable (emit_digits digits k neg)"
    by (intro emit_printable)
  moreover have "printable CHR ''-''"
    by (simp add: printable_def)
  ultimately show ?thesis
    using False sign expo point trim by (cases neg) (simp_all add: format_double_def decompose_ryu_def Let_def)
qed (auto simp: format_double_def printable_def)

subsection \<open>One reply, one frame\<close>

lemma str_bytes_plain: "list_all printable s \<Longrightarrow> CR \<notin> set (str_bytes s)"
proof
  assume "list_all printable s" "CR \<in> set (str_bytes s)"
  then obtain c where c: "c \<in> set s" "(of_nat (of_char c) :: u8) = CR"
    by (auto simp: str_bytes_def)
  then have "c = char_of (unat CR)"
    using char_of_byte [of c] by simp
  moreover have "char_of (13 :: nat) = CHR 0x0D" by code_simp
  ultimately have "c = CHR 0x0D" by simp
  with c(1) \<open>list_all printable s\<close> show False
    by (auto simp: list_all_iff printable_def)
qed

lemma sanitize_line_plain: "CR \<notin> set (sanitize_line s)"
  by (auto simp: sanitize_line_def)

lemma error_line_frame:
  assumes "0 < depth"
  shows "skip_reply p depth (encode_error_line e @ rest) = Some rest"
proof -
  obtain d where d: "depth = Suc d"
    using assms by (cases depth) auto
  have "sanitize_line (error_line e) = 0x2D # sanitize_line (tl (error_line e))"
    by (simp add: error_line_def sanitize_line_def str_bytes_def)
  then show ?thesis
    using skip_line [of "0x2D" p "sanitize_line (tl (error_line e))" d rest] sanitize_line_plain
    by (cases p) (simp_all add: encode_error_line_def d line_types_def)
qed

lemma header_nonempty [simp]: "header m n \<noteq> []"
  by (simp add: header_def)

lemma encode_nonempty [simp]: "encode ryu p v \<noteq> []"
  by (cases "(ryu, p, v)" rule: encode.cases)
    (auto simp: encode_error_line_def null_bulk_def null_array_def bulk_str_def Let_def)

lemma length_member_concat: "x \<in> set xs \<Longrightarrow> length (g x) \<le> length (concat (map g xs))"
  by (induction xs) auto

lemma length_concat_nonempty:
  assumes "\<And>x. 1 \<le> length (g x)"
  shows "length xs \<le> length (concat (map g xs))"
proof (induction xs)
  case (Cons x xs)
  with assms [of x] show ?case by simp
qed simp

lemma length_pairs_nonempty:
  assumes "\<And>x. 1 \<le> length (g x)"
  shows "length ps * 2 \<le> length (concat (map (\<lambda>(a, b). g a @ g b) ps))"
proof (induction ps)
  case (Cons p ps)
  with assms [of "fst p"] assms [of "snd p"] show ?case by (cases p) auto
qed simp

lemma length_pair_member:
  "(a, b) \<in> set ps \<Longrightarrow> length (g a) \<le> length (concat (map (\<lambda>(a, b). g a @ g b) ps)) \<and>
     length (g b) \<le> length (concat (map (\<lambda>(a, b). g a @ g b) ps))"
  using length_member_concat [of "(a, b)" ps "\<lambda>(a, b). g a @ g b"] by auto

lemma skip_list_of:
  assumes "m \<in> set (list_types p)" "int (length (header m (length xs) @ concat (map g xs))) \<le> i64_max"
    and "\<And>x rest. x \<in> set xs \<Longrightarrow> int (length (g x)) \<le> i64_max \<Longrightarrow> skip_reply p depth (g x @ rest) = Some rest"
    and "\<And>x. g x \<noteq> []"
  shows "skip_reply p (Suc depth) (header m (length xs) @ concat (map g xs) @ rest) = Some rest"
proof (rule skip_list [OF assms(1)])
  have ne: "1 \<le> length (g x)" for x
    using assms(4) [of x] by (simp add: Suc_le_eq)
  have "length xs \<le> length (concat (map g xs))"
    by (rule length_concat_nonempty) (rule ne)
  with assms(2) show "int (length xs) \<le> i64_max" by simp
  show "read_times (skip_reply p depth) (length xs) (concat (map g xs) @ rest) = Some rest"
  proof (rule read_times_concat)
    fix x rest assume "x \<in> set xs"
    then show "skip_reply p depth (g x @ rest) = Some rest"
      using assms(2) length_member_concat [of x xs g] by (intro assms(3)) auto
  qed
qed

lemma size_pair_deep:
  "(a, b) \<in> set ps \<Longrightarrow>
     Suc (size a) < size_list (size_prod size size) ps \<and> Suc (size b) < size_list (size_prod size size) ps"
  by (induction ps) auto

lemma skip_pair:
  assumes "depth = Suc (Suc d)" "\<And>rest. skip_reply p (Suc d) (a @ rest) = Some rest"
    and "\<And>rest. skip_reply p (Suc d) (b @ rest) = Some rest"
  shows "skip_reply p depth (str_bytes ''*2'' @ CR # LF # a @ b @ rest) = Some rest"
proof -
  have "header 0x2A 2 = str_bytes ''*2'' @ [CR, LF]"
    by (simp add: header_def i64_to_str_def write_digits.simps str_bytes_def)
  moreover have "read_times (skip_reply p (Suc d)) 2 (a @ b @ rest) = Some rest"
    using assms(2,3) by (simp add: numeral_2_eq_2)
  ultimately show ?thesis
    using skip_list [of "0x2A" p 2 "Suc d" "a @ b @ rest" rest] assms(1)
    by (cases p) (simp_all add: list_types_def)
qed

lemma null_frames:
  assumes "0 < depth"
  shows "skip_reply p depth (null_bulk @ rest) = Some rest"
    and "skip_reply p depth (null_array p @ rest) = Some rest"
    and "skip_reply Resp3 depth (str_bytes ''_'' @ CR # LF # rest) = Some rest"
proof -
  obtain d where d: "depth = Suc d"
    using assms by (cases depth) auto
  have "parse_i64 [0x2D, 0x31] = Some (- 1)"
    by (simp add: parse_i64_def is_ascii_digit_def checked_i64_def is_i64_def)
  then show "skip_reply p depth (null_bulk @ rest) = Some rest"
    "skip_reply p depth (null_array p @ rest) = Some rest"
    "skip_reply Resp3 depth (str_bytes ''_'' @ CR # LF # rest) = Some rest"
    by (cases p; simp add: d null_bulk_def null_array_def str_bytes_def type_bytes)+
qed

lemma skip_pairs:
  assumes "int (length (header m n @ concat (map (\<lambda>(a, b). g a @ g b) ps))) \<le> i64_max"
    and "m \<in> set (map_types p) \<and> n = length ps \<or> m \<in> set (list_types p) \<and> n = length ps * 2"
    and "\<And>a b rest. (a, b) \<in> set ps \<Longrightarrow> int (length (g a)) \<le> i64_max \<Longrightarrow> skip_reply p depth (g a @ rest) = Some rest"
    and "\<And>a b rest. (a, b) \<in> set ps \<Longrightarrow> int (length (g b)) \<le> i64_max \<Longrightarrow> skip_reply p depth (g b @ rest) = Some rest"
    and "\<And>x. g x \<noteq> []"
  shows "skip_reply p (Suc depth) (header m n @ concat (map (\<lambda>(a, b). g a @ g b) ps) @ rest) = Some rest"
proof -
  let ?body = "concat (map (\<lambda>(a, b). g a @ g b) ps)"
  have ne: "1 \<le> length (g x)" for x
    using assms(5) [of x] by (simp add: Suc_le_eq)
  have len: "length ps * 2 \<le> length ?body"
    by (rule length_pairs_nonempty) (rule ne)
  have "read_times (skip_reply p depth) (2 * length ps) (?body @ rest) = Some rest"
  proof (rule read_times_pairs)
    fix a b rest assume ab: "(a, b) \<in> set ps"
    then show "skip_reply p depth (g a @ rest) = Some rest \<and> skip_reply p depth (g b @ rest) = Some rest"
      using assms(1) length_pair_member [OF ab, of g] by (intro conjI assms(3,4) [OF ab]) auto
  qed
  then show ?thesis
    using assms(1,2) len skip_map [of m p n depth "?body @ rest" rest] skip_list [of m p n depth "?body @ rest" rest]
    by (auto simp: mult.commute)
qed

lemma encode_is_one_frame:
  assumes "ryu_spec ryu" "int (length (encode ryu p v)) \<le> i64_max" "size v < depth"
  shows "skip_reply p depth (encode ryu p v @ rest) = Some rest"
  using assms
proof (induction ryu p v arbitrary: rest depth rule: encode.induct)
  case (1 ryu proto s)
  then show ?case
    using skip_line [of "0x2B" proto "sanitize_line s" "depth - 1" rest] sanitize_line_plain [of s]
    by (cases proto) (auto simp: line_types_def)
next
  case (3 ryu proto n)
  then show ?case
    using skip_line [of "0x3A" proto "i64_to_str n" "depth - 1" rest] i64_to_str_plain [of n]
    by (cases proto) (auto simp: line_types_def)
next
  case (4 ryu proto data)
  then show ?case
    using skip_blob [of "0x24" proto data "depth - 1" rest] by (cases proto) (auto simp: blob_types_def)
next
  case (6 ryu proto items)
  then show ?case
    using skip_list_of [of "0x2A" proto items "encode ryu proto" "depth - 1" rest] size_member [of _ items]
    by (cases proto) (fastforce simp: list_types_def)+
next
  case (10 ryu d)
  then show ?case
    using skip_line [of "0x2C" Resp3 "str_bytes (format_double ryu d)" "depth - 1" rest]
      str_bytes_plain [OF format_double_printable [OF "10.prems"(1), of d]]
    by (auto simp: line_types_def)
next
  case (12 ryu b)
  then show ?case
    using skip_line [of "0x23" Resp3 "[if b then 0x74 else 0x66]" "depth - 1" rest]
    by (auto simp: line_types_def str_bytes_def)
next
  case (14 ryu s)
  then show ?case
    using skip_line [of "0x28" Resp3 "sanitize_line s" "depth - 1" rest] sanitize_line_plain [of s]
    by (auto simp: line_types_def)
next
  case (16 ryu e)
  then show ?case
    using skip_blob [of "0x21" Resp3 "str_bytes (tl (error_line e))" "depth - 1" rest]
    by (auto simp: blob_types_def Let_def)
next
  case (18 ryu f1 f2 f3 data)
  have n: "4 + length data = length (f1 # f2 # f3 # 0x3A # data)" by simp
  show ?case
    using 18 skip_blob [of "0x3D" Resp3 "f1 # f2 # f3 # 0x3A # data" "depth - 1" rest]
    unfolding encode.simps n by (auto simp: blob_types_def)
next
  case (20 ryu ps)
  then show ?case
    using skip_pairs [of "0x25" "length ps" "encode ryu Resp3" ps Resp3 "depth - 1" rest] size_pair [of _ _ ps]
    by (fastforce simp: map_types_def)
next
  case (21 ryu ps)
  then show ?case
    using skip_pairs [of "0x2A" "length ps * 2" "encode ryu Resp2" ps Resp2 "depth - 1" rest] size_pair [of _ _ ps]
    by (fastforce simp: list_types_def)
next
  case (23 ryu ps)
  then show ?case
    using skip_pairs [of "0x2A" "length ps * 2" "encode ryu Resp2" ps Resp2 "depth - 1" rest] size_pair [of _ _ ps]
    by (fastforce simp: list_types_def)
next
  case (24 ryu proto items)
  then show ?case
    using skip_list_of [of "if proto = Resp3 then 0x7E else 0x2A" proto items "encode ryu proto" "depth - 1" rest]
      size_member [of _ items]
    by (cases proto) (fastforce simp: list_types_def)+
next
  case (25 ryu proto items)
  then show ?case
    using skip_list_of [of "if proto = Resp3 then 0x3E else 0x2A" proto items "encode ryu proto" "depth - 1" rest]
      size_member [of _ items]
    by (cases proto) (fastforce simp: list_types_def)+
next
  case (22 ryu ps)
  let ?enc = "encode ryu Resp3"
  let ?g = "\<lambda>(a, b). str_bytes ''*2'' @ [CR, LF] @ ?enc a @ ?enc b"
  have elem: "skip_reply Resp3 (depth - 1) (?g x @ r) = Some r"
    if x: "x \<in> set ps" and len: "int (length (?g x)) \<le> i64_max" for x r
  proof -
    obtain a b where ab: "x = (a, b)" by (cases x)
    have deep: "Suc (size a) < depth - 1" "Suc (size b) < depth - 1"
      using size_pair_deep [of a b ps] x ab "22.prems"(3) by auto
    then obtain d where d: "depth - 1 = Suc (Suc d)"
      by (metis less_natE add_Suc_right Suc_lessE)
    have "skip_reply Resp3 (Suc d) (?enc a @ r') = Some r'" "skip_reply Resp3 (Suc d) (?enc b @ r') = Some r'" for r'
      using "22.IH" [OF x] ab "22.prems"(1) len deep d by auto
    then show ?thesis
      using skip_pair [OF d, of Resp3 "?enc a" "?enc b" r] ab by simp
  qed
  show ?case
    using skip_list_of [of "0x2A" Resp3 ps ?g "depth - 1" rest] elem "22.prems"
    by (auto simp: list_types_def split: prod.splits)
qed (auto simp: null_frames error_line_frame bulk_str_def)

subsection \<open>Properties\<close>

text \<open>
  C32: The bytes written for a reply are exactly one reply: a client that reads the RESP grammar of its protocol
  version finds one value and then the bytes that follow it, so no text in a status line, an error or a key can
  inject a second reply, and version 2 only uses the five types of version 2.
\<close>
theorem reply_is_one_frame:
  assumes "ryu_spec ryu" "int (length (encode ryu p v)) \<le> 2 ^ 63 - 1"
  shows "skip_reply p (Suc (size v)) (encode ryu p v @ rest) = Some rest"
  using assms by (intro encode_is_one_frame) simp_all

theorem reply_is_one_frame_witness:
  "skip_reply Resp3 (Suc (size (Array (Some [SimpleString [CHR ''a'', CHR 0x0D, CHR 0x0A, CHR ''+''], Boolean True, Null]))))
     (encode (\<lambda>_. ''1.0'') Resp3
        (Array (Some [SimpleString [CHR ''a'', CHR 0x0D, CHR 0x0A, CHR ''+''], Boolean True, Null])) @ [0x2B]) =
   Some [0x2B]"
proof (rule reply_is_one_frame)
  show "ryu_spec (\<lambda>_. ''1.0'')"
    by (simp add: ryu_spec_def split_once_def)
qed (simp add: header_def i64_to_str_def write_digits.simps sanitize_line_def str_bytes_def)

end
