(* ===== verification/Key_Slot.thy ===== *)
theory Key_Slot
  imports Collections
begin

text \<open>
  The key hashing of \<open>ironcache-protocol/src/slot.rs\<close>: the CRC16 of a byte string, the hash tag of a
  key and the slot a key belongs to, on \<open>u16\<close> values as in the source.
\<close>

subsection \<open>The code\<close>

definition crc16_shift :: "u16 \<Rightarrow> u16" where
  "crc16_shift crc = (if crc AND 0x8000 \<noteq> 0 then push_bit 1 crc XOR 0x1021 else push_bit 1 crc)"

definition crc16_byte :: "u8 \<Rightarrow> u16 \<Rightarrow> u16" where
  "crc16_byte byte crc = (crc16_shift ^^ 8) (crc XOR push_bit 8 (ucast byte))"

definition crc16 :: "bytes \<Rightarrow> u16" where
  "crc16 data = fold crc16_byte data 0"

abbreviation (input) open_brace :: u8 where "open_brace \<equiv> 0x7B"
abbreviation (input) close_brace :: u8 where "close_brace \<equiv> 0x7D"

definition hash_tag :: "bytes \<Rightarrow> bytes" where
  "hash_tag key =
     (case position (\<lambda>b. b = open_brace) key of
        None \<Rightarrow> key
      | Some opn \<Rightarrow>
          (case position (\<lambda>b. b = close_brace) (drop (opn + 1) key) of
             None \<Rightarrow> key
           | Some rel \<Rightarrow> if rel \<noteq> 0 then take rel (drop (opn + 1) key) else key))"

definition key_slot :: "bytes \<Rightarrow> u16" where
  "key_slot key = crc16 (hash_tag key) mod 16384"

subsection \<open>Polynomials over the two-element field\<close>

text \<open>
  A number stands for the polynomial whose coefficients are its bits: exclusive or is addition, \<open>clmul\<close> is
  multiplication, and two polynomials agree modulo \<open>g\<close> when their sum is a multiple of it.
\<close>

fun clmul :: "nat \<Rightarrow> nat \<Rightarrow> nat" where
  "clmul q g = (if q = 0 then 0 else (if odd q then g else 0) XOR 2 * clmul (q div 2) g)"

declare clmul.simps [simp del]

definition agree_mod :: "nat \<Rightarrow> nat \<Rightarrow> nat \<Rightarrow> bool" where
  "agree_mod g a b \<longleftrightarrow> (\<exists>q. a XOR b = clmul q g)"

definition message_poly :: "bytes \<Rightarrow> nat" where
  "message_poly data = fold (\<lambda>b m. 256 * m XOR unat b) data 0"

lemma clmul_0 [simp]: "clmul 0 g = 0"
  by (subst clmul.simps) simp

lemma clmul_step: "clmul q g = (if odd q then g else 0) XOR 2 * clmul (q div 2) g"
  by (cases "q = 0") (simp, subst clmul.simps, simp)

lemma double_xor: "2 * (a XOR b) = 2 * a XOR (2 * b :: nat)"
  using push_bit_xor [of 1 a b] by (simp add: push_bit_eq_mult mult.commute)

lemma clmul_double: "clmul (2 * q) g = 2 * clmul q g"
  by (subst clmul_step) simp

lemma xor_div_2: "(a XOR b) div 2 = (a div 2) XOR (b div 2 :: nat)"
  using drop_bit_xor [of 1 a b] by (simp add: drop_bit_eq_div)

lemma xor_cancel: "a XOR (a XOR b) = (b :: nat)"
  by (simp flip: xor.assoc)

lemma clmul_xor: "clmul (q XOR r) g = clmul q g XOR clmul r g"
proof (induction q arbitrary: r rule: less_induct)
  case (less q)
  show ?case
  proof (cases "q = 0")
    case False
    then have ih: "clmul ((q XOR r) div 2) g = clmul (q div 2) g XOR clmul (r div 2) g"
      by (simp add: xor_div_2 less)
    show ?thesis
      by (subst (1 2 3) clmul_step)
        (auto simp: ih double_xor even_xor_iff xor_cancel xor.left_commute xor.assoc xor.commute)
  qed simp
qed

lemma agree_refl [simp]: "agree_mod g a a"
  unfolding agree_mod_def by (rule exI [of _ 0]) simp

lemma agree_sym: "agree_mod g a b \<Longrightarrow> agree_mod g b a"
  by (simp add: agree_mod_def xor.commute)

lemma agree_trans: "agree_mod g a b \<Longrightarrow> agree_mod g b c \<Longrightarrow> agree_mod g a c"
proof -
  assume "agree_mod g a b" "agree_mod g b c"
  then obtain q r where "a XOR b = clmul q g" "b XOR c = clmul r g"
    by (auto simp: agree_mod_def)
  then have "a XOR c = clmul (q XOR r) g"
    by (metis clmul_xor xor.assoc xor_self_eq xor.left_neutral)
  then show ?thesis by (auto simp: agree_mod_def)
qed

lemma agree_xor: "agree_mod g a b \<Longrightarrow> agree_mod g (a XOR c) (b XOR c)"
  by (simp add: agree_mod_def xor.left_commute xor.assoc xor.commute)

lemma agree_double: "agree_mod g a b \<Longrightarrow> agree_mod g (2 * a) (2 * b)"
  by (auto simp: agree_mod_def double_xor [symmetric] simp flip: clmul_double)

lemma agree_shift: "agree_mod g a b \<Longrightarrow> agree_mod g (2 ^ n * a) (2 ^ n * b)"
proof (induction n)
  case (Suc n)
  then show ?case using agree_double [of g "2 ^ n * a" "2 ^ n * b"] by (simp add: mult.assoc)
qed simp

subsection \<open>The CRC as a polynomial remainder\<close>

abbreviation (input) xmodem_poly :: nat where "xmodem_poly \<equiv> 0x11021"

lemma unat_xor: "unat (a XOR b :: 'a::len word) = unat a XOR unat b"
  by (simp add: unsigned_xor_eq)

lemma bit_xmodem_poly: "bit xmodem_poly n \<longleftrightarrow> n \<in> {0, 5, 12, 16}"
proof -
  have "xmodem_poly = 2 ^ 16 OR 2 ^ 12 OR 2 ^ 5 OR 2 ^ 0" by simp
  then show ?thesis by (auto simp only: bit_or_iff bit_exp_iff) auto
qed

lemma bit_low_poly: "bit (0x1021 :: u16) n \<longleftrightarrow> n \<in> {0, 5, 12}"
proof -
  have "(0x1021 :: u16) = 2 ^ 12 OR 2 ^ 5 OR 2 ^ 0" by simp
  then show ?thesis by (auto simp only: bit_or_iff bit_exp_iff) auto
qed

lemma top_bit: "(crc :: u16) AND 0x8000 \<noteq> 0 \<longleftrightarrow> bit crc 15"
proof -
  have "(0x8000 :: u16) = 2 ^ 15" by simp
  then show ?thesis
    by (metis and_exp_eq_0_iff_not_bit)
qed

lemma bit_unat: "bit (unat w) n \<longleftrightarrow> bit w n"
  by (auto simp: bit_unsigned_iff dest: bit_imp_possible_bit)

lemma bit_push1: "bit (push_bit 1 w :: u16) n \<longleftrightarrow> n < 16 \<and> 0 < n \<and> bit w (n - 1)"
  by (auto simp only: bit_push_bit_iff possible_bit_word) auto

lemma unat_crc16_shift: "unat (crc16_shift crc) = 2 * unat crc XOR (if bit crc 15 then xmodem_poly else 0)"
proof (rule bit_eqI)
  fix n
  have "bit (unat (crc16_shift crc)) n \<longleftrightarrow>
      n < 16 \<and> ((0 < n \<and> bit crc (n - 1)) \<noteq> (bit crc 15 \<and> n \<in> {0, 5, 12}))"
    unfolding bit_unat crc16_shift_def top_bit
    by (auto simp only: bit_push1 bit_xor_iff bit_low_poly if_True if_False split: if_splits)
  also have "\<dots> \<longleftrightarrow> (0 < n \<and> bit crc (n - 1)) \<noteq> (bit crc 15 \<and> n \<in> {0, 5, 12, 16})"
    using bit_imp_le_length [of crc "n - 1"] by (cases "n = 16") auto
  also have "\<dots> \<longleftrightarrow> bit (2 * unat crc XOR (if bit crc 15 then xmodem_poly else 0)) n"
    by (auto simp: bit_xmodem_poly bit_simps bit_double_iff)
  finally show "bit (unat (crc16_shift crc)) n \<longleftrightarrow>
      bit (2 * unat crc XOR (if bit crc 15 then xmodem_poly else 0)) n" .
qed

lemma clmul_1 [simp]: "clmul (Suc 0) g = g"
  by (subst clmul_step) simp

lemma crc16_shift_agree: "agree_mod xmodem_poly (unat (crc16_shift crc)) (2 * unat crc)"
  unfolding agree_mod_def unat_crc16_shift
  by (rule exI [of _ "if bit crc 15 then 1 else 0"])
    (simp add: xor.commute xor_cancel)

lemma crc16_shifts_agree: "agree_mod xmodem_poly (unat ((crc16_shift ^^ n) crc)) (2 ^ n * unat crc)"
proof (induction n)
  case (Suc n)
  then show ?case
    using agree_trans [OF crc16_shift_agree agree_double] by (simp add: mult.assoc)
qed simp

lemma unat_message_byte: "unat (push_bit 8 (ucast b) :: u16) = 256 * unat (b :: u8)"
proof -
  have b: "unat b < 256"
    using unsigned_less [of b] by simp
  then have "unat (of_nat (256 * unat b) :: u16) = 256 * unat b"
    by (simp only: unat_of_nat) simp
  moreover have "push_bit 8 (ucast b) = (of_nat (256 * unat b) :: u16)"
    by (simp add: push_bit_eq_mult mult.commute)
  ultimately show ?thesis by simp
qed

lemma crc16_byte_agree:
  assumes "agree_mod xmodem_poly (2 ^ 16 * m) (unat crc)"
  shows "agree_mod xmodem_poly (2 ^ 16 * (256 * m XOR unat b)) (unat (crc16_byte b crc))"
proof -
  have shift: "2 ^ n * (x XOR y) = 2 ^ n * x XOR (2 ^ n * y :: nat)" for n x y
    using push_bit_xor [of n x y] by (simp add: push_bit_eq_mult mult.commute)
  have e: "2 ^ 8 * (256 * x) = (2 ^ 16 * x :: nat)" for x
    by simp
  have a: "agree_mod xmodem_poly (2 ^ 8 * (2 ^ 16 * m) XOR 2 ^ 16 * unat b) (2 ^ 8 * unat crc XOR 2 ^ 16 * unat b)"
    by (rule agree_xor [OF agree_shift [OF assms]])
  have m: "2 ^ 16 * (256 * m XOR unat b) = 2 ^ 8 * (2 ^ 16 * m) XOR 2 ^ 16 * unat b"
    unfolding shift by (simp only: mult.left_commute mult.assoc) simp
  have c: "2 ^ 8 * unat (crc XOR push_bit 8 (ucast b)) = 2 ^ 8 * unat crc XOR 2 ^ 16 * unat b"
    unfolding unat_xor unat_message_byte shift by (simp only: e)
  show ?thesis
    unfolding m crc16_byte_def by (rule agree_trans [OF a agree_sym [OF crc16_shifts_agree [of 8 "crc XOR push_bit 8 (ucast b)", unfolded c]]])
qed

lemma crc16_remainder: "agree_mod xmodem_poly (2 ^ 16 * message_poly data) (unat (crc16 data))"
proof (induction data rule: rev_induct)
  case (snoc b data)
  then show ?case
    using crc16_byte_agree [of "message_poly data" "crc16 data" b]
    by (simp add: message_poly_def crc16_def)
qed (simp add: message_poly_def crc16_def)

lemma clmul_degree: "0 < q \<Longrightarrow> 2 ^ 16 \<le> clmul q xmodem_poly"
proof (induction q rule: less_induct)
  case (less q)
  show ?case
  proof (cases "q div 2 = 0")
    case True
    with less.prems have "q = 1" by simp
    then show ?thesis by simp
  next
    case False
    then have big: "2 ^ 17 \<le> 2 * clmul (q div 2) xmodem_poly"
      using less.IH [of "q div 2"] less.prems by simp
    have "2 ^ 17 \<le> (if odd q then xmodem_poly else 0) XOR 2 * clmul (q div 2) xmodem_poly"
    proof (rule ccontr)
      assume "\<not> ?thesis"
      then have small: "(if odd q then xmodem_poly else 0) XOR 2 * clmul (q div 2) xmodem_poly < 2 ^ 17"
        by simp
      have "(if odd q then xmodem_poly else 0) < (2 ^ 17 :: nat)" by simp
      with small have "(if odd q then xmodem_poly else 0) XOR
          ((if odd q then xmodem_poly else 0) XOR 2 * clmul (q div 2) xmodem_poly) < 2 ^ 17"
        by (metis take_bit_nat_eq_self take_bit_nat_less_exp take_bit_xor)
      with big show False unfolding xor_cancel by linarith
    qed
    then show ?thesis by (subst clmul_step) simp
  qed
qed

text \<open>There is one remainder of degree below sixteen.\<close>

lemma remainder_unique:
  assumes "agree_mod xmodem_poly a (unat v)" "agree_mod xmodem_poly a (unat w)"
  shows "v = (w :: u16)"
proof -
  obtain q where q: "unat v XOR unat w = clmul q xmodem_poly"
    using agree_trans [OF agree_sym [OF assms(1)] assms(2)] by (auto simp: agree_mod_def)
  have "unat (v XOR w) < 2 ^ LENGTH(16)"
    by (rule unsigned_less)
  then have "clmul q xmodem_poly < 2 ^ 16"
    by (simp add: unat_xor q)
  then have "q = 0"
    using clmul_degree [of q] by (cases "q = 0") auto
  with q have "unat (v XOR w) = 0" by (simp add: unat_xor)
  then show ?thesis
    by (metis unat_eq_zero xor.assoc xor.left_neutral xor.right_neutral xor_self_eq)
qed

subsection \<open>Hash tags\<close>

lemma position_append_first:
  "\<forall>x \<in> set xs. \<not> P x \<Longrightarrow> P y \<Longrightarrow> position P (xs @ y # ys) = Some (length xs)"
  by (induction xs) auto

lemma hash_tag_braced:
  assumes "open_brace \<notin> set pre" "close_brace \<notin> set tag" "tag \<noteq> []"
  shows "hash_tag (pre @ open_brace # tag @ close_brace # post) = tag"
proof -
  have "position (\<lambda>b. b = open_brace) (pre @ open_brace # tag @ close_brace # post) = Some (length pre)"
    using assms by (intro position_append_first) auto
  moreover have "position (\<lambda>b. b = close_brace) (tag @ close_brace # post) = Some (length tag)"
    using assms by (intro position_append_first) auto
  ultimately show ?thesis using assms by (simp add: hash_tag_def)
qed

lemma hash_tag_whole:
  assumes "\<And>pre tag post. key = pre @ open_brace # tag @ close_brace # post \<Longrightarrow>
      open_brace \<in> set pre \<or> close_brace \<in> set tag \<or> tag = []"
  shows "hash_tag key = key"
proof (cases "position (\<lambda>b. b = open_brace) key")
  case (Some opn)
  then have opn: "opn < length key" "key ! opn = open_brace" "open_brace \<notin> set (take opn key)"
    by (auto simp: position_Some in_set_conv_nth)
  show ?thesis
  proof (cases "position (\<lambda>b. b = close_brace) (drop (opn + 1) key)")
    case (Some rel)
    let ?rest = "drop (opn + 1) key"
    have rel: "rel < length ?rest" "?rest ! rel = close_brace" "close_brace \<notin> set (take rel ?rest)"
      using Some by (auto simp: position_Some in_set_conv_nth)
    have "key = take opn key @ open_brace # ?rest"
      using opn id_take_nth_drop [of opn key] by simp
    also have "?rest = take rel ?rest @ close_brace # drop (Suc rel) ?rest"
      using rel id_take_nth_drop [of rel ?rest] by simp
    finally have "take rel ?rest = []"
      using assms opn rel by blast
    then have "rel = 0" using rel by auto
    then show ?thesis using Some \<open>position _ key = _\<close> by (simp add: hash_tag_def)
  qed (use Some in \<open>simp add: hash_tag_def\<close>)
qed (simp add: hash_tag_def)

subsection \<open>Properties\<close>

text \<open>
  C36: \<open>crc16\<close> is the CRC-16/XMODEM checksum: it is the one polynomial of degree below sixteen that
  agrees, modulo \<open>x^16 + x^12 + x^5 + 1\<close>, with the message polynomial times \<open>x^16\<close>.
\<close>
theorem crc16_polynomial_remainder:
  "crc16 data = crc \<longleftrightarrow> agree_mod 0x11021 (2 ^ 16 * message_poly data) (unat crc)"
  using crc16_remainder remainder_unique by blast

text \<open>
  C37: Keys that carry the same hash tag, the bytes between their first opening brace and the next closing
  brace, are in the slot of the tag itself, whatever surrounds it.
\<close>
theorem hash_tag_colocates:
  assumes "0x7B \<notin> set pre" "0x7D \<notin> set tag" "tag \<noteq> []"
  shows "key_slot (pre @ 0x7B # tag @ 0x7D # post) = key_slot tag"
proof -
  have "hash_tag tag = tag"
    using assms(2) by (intro hash_tag_whole) auto
  then show ?thesis
    using assms by (simp add: key_slot_def hash_tag_braced)
qed

theorem hash_tag_colocates_witness:
  "key_slot [0x61, 0x7B, 0x75, 0x31, 0x7D, 0x7B, 0x62, 0x7D] = key_slot [0x75, 0x31]"
  using hash_tag_colocates [of "[0x61]" "[0x75, 0x31]" "[0x7B, 0x62, 0x7D]"] by simp

end
