(* ===== verification/Shard_Route.thy ===== *)
theory Shard_Route
  imports Key_Slot Resp_Types
begin

text \<open>
  The shards of one node, from \<open>ironcache-server/src/route.rs\<close>: the shard that owns a slot and a key, the slot
  range that a shard advertises, and the single shard, if any, that owns all keys of a command. The range is computed
  in \<open>u32\<close>, where a product that overflows panics; that is the result \<open>None\<close>.
\<close>

definition hash64 :: "bytes \<Rightarrow> u64" where
  "hash64 key = fold (\<lambda>b hash. (hash XOR ucast b) * 0x00000100000001b3) key 0xcbf29ce484222325"

definition slot_to_shard :: "u16 \<Rightarrow> nat \<Rightarrow> nat" where
  "slot_to_shard slot n_shards = (unat slot * max n_shards 1) div 16384"

definition checked_u32 :: "nat \<Rightarrow> nat option" where
  "checked_u32 n = (if n < 2 ^ 32 then Some n else None)"

definition u16_or :: "u16 \<Rightarrow> nat \<Rightarrow> u16" where
  "u16_or d n = (if n < 65536 then of_nat n else d)"

definition shard_slot_range :: "nat \<Rightarrow> nat \<Rightarrow> (u16 \<times> u16) option" where
  "shard_slot_range shard n_shards = do {
     let n = as_u32 (max n_shards 1);
     lo \<leftarrow> checked_u32 (as_u32 shard * 16384);
     next \<leftarrow> checked_u32 (as_u32 shard + 1);
     hi \<leftarrow> checked_u32 (next * 16384);
     if n = 0 then None
     else Some (u16_or 0 (div_ceil lo n), u16_or 16384 (min (div_ceil hi n) 16384))
   }"

definition owner_shard :: "bytes \<Rightarrow> nat \<Rightarrow> nat" where
  "owner_shard key n_shards = slot_to_shard (key_slot key) n_shards"

datatype key_spec = NoKeys | One bytes | Many "bytes list"

definition single_key :: "request \<Rightarrow> bytes option" where
  "single_key req = get (args req) 1"

definition owner_shard_set :: "key_spec \<Rightarrow> nat \<Rightarrow> nat option" where
  "owner_shard_set spec n_shards =
     (case spec of
        NoKeys \<Rightarrow> None
      | One key \<Rightarrow> Some (owner_shard key n_shards)
      | Many [] \<Rightarrow> None
      | Many (k # ks) \<Rightarrow>
          let first = owner_shard k n_shards
          in if list_all (\<lambda>k. owner_shard k n_shards = first) (k # ks) then Some first else None)"

lemma div_ceil_le_iff: "0 < b \<Longrightarrow> div_ceil a b \<le> q \<longleftrightarrow> a \<le> q * b"
proof -
  assume b: "0 < b"
  have a: "a = a div b * b + a mod b" by simp
  show ?thesis
  proof (cases "a mod b = 0")
    case True
    then show ?thesis using a b by (simp add: div_ceil_def) (metis add.right_neutral mult_le_cancel2)
  next
    case False
    have "Suc (a div b) \<le> q \<longleftrightarrow> a div b < q" by auto
    also have "\<dots> \<longleftrightarrow> a < q * b" using b by (simp add: div_less_iff_less_mult)
    also have "\<dots> \<longleftrightarrow> a \<le> q * b" using False by (metis le_neq_implies_less less_imp_le mod_mult_self2_is_0)
    finally show ?thesis using False by (simp add: div_ceil_def)
  qed
qed

lemma key_slot_less: "unat (key_slot key) < 16384"
proof -
  have "crc16 (hash_tag key) mod 16384 < 16384"
    by (rule word_mod_less_divisor) simp
  then show ?thesis by (simp add: key_slot_def word_less_nat_alt)
qed

lemma slot_to_shard_less: "unat slot < 16384 \<Longrightarrow> slot_to_shard slot n < max n 1"
  by (simp add: slot_to_shard_def div_less_iff_less_mult)

text \<open>
  C35: The slot range a shard advertises is the set of slots that are routed to it, so the ranges of the shards
  partition the slot space: a client that reads them finds the shard that the node itself routes the slot to.
\<close>
theorem shard_ranges_partition:
  assumes "1 \<le> n" "n \<le> 2 ^ 17" "shard < n" "unat slot < 16384"
  shows "\<exists>start fin. shard_slot_range shard n = Some (start, fin) \<and>
           (slot_to_shard slot n = shard \<longleftrightarrow> start \<le> slot \<and> slot < fin)"
proof -
  let ?lo = "div_ceil (shard * 16384) n" and ?hi = "div_ceil (Suc shard * 16384) n"
  have hi: "?hi \<le> 16384" and lo: "?lo \<le> 16384"
    using assms by (simp_all add: div_ceil_le_iff)
  have "slot_to_shard slot n = shard \<longleftrightarrow> shard * 16384 \<le> unat slot * n \<and> unat slot * n < Suc shard * 16384"
    using assms(1) by (auto simp: slot_to_shard_def div_nat_eqI max_absorb1)
  also have "\<dots> \<longleftrightarrow> ?lo \<le> unat slot \<and> unat slot < ?hi"
    using assms(1) div_ceil_le_iff [of n "shard * 16384" "unat slot"] div_ceil_le_iff [of n "Suc shard * 16384" "unat slot"]
    by auto
  also have "\<dots> \<longleftrightarrow> u16_or 0 ?lo \<le> slot \<and> slot < u16_or 16384 (min ?hi 16384)"
    using lo hi by (simp add: u16_or_def word_le_nat_alt word_less_nat_alt unat_of_nat)
  finally have route: "slot_to_shard slot n = shard \<longleftrightarrow>
      u16_or 0 ?lo \<le> slot \<and> slot < u16_or 16384 (min ?hi 16384)" .
  have "shard_slot_range shard n = Some (u16_or 0 ?lo, u16_or 16384 (min ?hi 16384))"
    using assms by (simp add: shard_slot_range_def as_u32_def checked_u32_def max_absorb1 add.commute)
  with route show ?thesis by blast
qed

theorem shard_ranges_partition_witness:
  "\<exists>start fin. shard_slot_range 1 3 = Some (start, fin) \<and>
     (slot_to_shard 5462 3 = 1 \<longleftrightarrow> start \<le> 5462 \<and> 5462 < fin)"
  by (rule shard_ranges_partition) simp_all

end
