(* ===== verification/Keyspace_Cmds.thy ===== *)
theory Keyspace_Cmds
  imports Resp_Types
begin

text \<open>
  The commands that count keys: \<open>DEL\<close>, \<open>EXISTS\<close>, \<open>TOUCH\<close> and \<open>UNLINK\<close> of
  \<open>ironcache-server/src/cmd_keyspace.rs\<close>, written over the two store operations they call, and those operations of
  the shard store (\<open>ironcache-store/src/lib.rs\<close>) with lazy expiry. The commands are generic in the store, as the code
  is; what they rely on is the interface \<open>key_store\<close>, which the shard store is shown to provide.

  A store is the deadline of every resident key of one database. Its values, the accounting of bytes, watched keys,
  eviction, the write observer and keyspace notifications are not part of the model: they do not affect which keys are
  live. The hashed table that holds the keys is modelled in \<open>Store_Index\<close>.
\<close>

subsection \<open>The commands\<close>

definition wrong_arity :: "string \<Rightarrow> error_reply" where
  "wrong_arity command =
     error_err (''wrong number of arguments for '' @ [CHR 0x27] @ command @ [CHR 0x27] @ '' command'')"

text \<open>The loop over the keys of a request: \<open>op\<close> says whether the key counts.\<close>

fun count_keys :: "(bytes \<Rightarrow> 's \<Rightarrow> bool \<times> 's) \<Rightarrow> bytes list \<Rightarrow> int \<Rightarrow> 's \<Rightarrow> int \<times> 's" where
  "count_keys op [] count st = (count, st)"
| "count_keys op (key # keys) count st =
     (let (hit, st) = op key st in count_keys op keys (if hit then count + 1 else count) st)"

definition cmd_del :: "(bytes \<Rightarrow> 's \<Rightarrow> bool \<times> 's) \<Rightarrow> request \<Rightarrow> 's \<Rightarrow> resp_value \<times> 's" where
  "cmd_del delete req st =
     (if length (args req) < 2 then (ErrorValue (wrong_arity ''del''), st)
      else let (removed, st) = count_keys delete (tl (args req)) 0 st in (Integer removed, st))"

definition cmd_exists :: "(bytes \<Rightarrow> 's \<Rightarrow> bool \<times> 's) \<Rightarrow> request \<Rightarrow> 's \<Rightarrow> resp_value \<times> 's" where
  "cmd_exists contains req st =
     (if length (args req) < 2 then (ErrorValue (wrong_arity ''exists''), st)
      else let (count, st) = count_keys contains (tl (args req)) 0 st in (Integer count, st))"

definition cmd_touch :: "(bytes \<Rightarrow> 's \<Rightarrow> bool \<times> 's) \<Rightarrow> request \<Rightarrow> 's \<Rightarrow> resp_value \<times> 's" where
  "cmd_touch contains req st =
     (if length (args req) < 2 then (ErrorValue (wrong_arity ''touch''), st)
      else let (count, st) = count_keys contains (tl (args req)) 0 st in (Integer count, st))"

definition cmd_unlink :: "(bytes \<Rightarrow> 's \<Rightarrow> bool \<times> 's) \<Rightarrow> request \<Rightarrow> 's \<Rightarrow> resp_value \<times> 's" where
  "cmd_unlink delete req st =
     (if length (args req) < 2 then (ErrorValue (wrong_arity ''unlink''), st)
      else let (removed, st) = count_keys delete (tl (args req)) 0 st in (Integer removed, st))"

subsection \<open>What they rely on\<close>

locale key_store =
  fixes live :: "'s \<Rightarrow> bytes set"
    and delete :: "bytes \<Rightarrow> 's \<Rightarrow> bool \<times> 's"
    and contains :: "bytes \<Rightarrow> 's \<Rightarrow> bool \<times> 's"
  assumes delete_hit: "fst (delete k st) \<longleftrightarrow> k \<in> live st"
    and delete_live: "live (snd (delete k st)) = live st - {k}"
    and contains_hit: "fst (contains k st) \<longleftrightarrow> k \<in> live st"
    and contains_live: "live (snd (contains k st)) = live st"
begin

lemma count_deleted:
  "count_keys delete ks c st = (c + int (card (live st \<inter> set ks)), snd (count_keys delete ks c st)) \<and>
   live (snd (count_keys delete ks c st)) = live st - set ks"
proof (induction ks arbitrary: c st)
  case (Cons k ks)
  obtain hit st' where d: "delete k st = (hit, st')" by force
  have hit: "hit \<longleftrightarrow> k \<in> live st" and live: "live st' = live st - {k}"
    using delete_hit [of k st] delete_live [of k st] by (simp_all add: d)
  have "card (live st \<inter> set (k # ks)) = card ((live st - {k}) \<inter> set ks) + (if k \<in> live st then 1 else 0)"
  proof (cases "k \<in> live st")
    case True
    then have "live st \<inter> set (k # ks) = insert k ((live st - {k}) \<inter> set ks)" by auto
    with True show ?thesis by simp
  next
    case False
    then have "live st \<inter> set (k # ks) = (live st - {k}) \<inter> set ks" by auto
    with False show ?thesis by simp
  qed
  then show ?case
    using Cons.IH [of "if hit then c + 1 else c" st'] by (auto simp: d live hit Let_def prod_eq_iff)
qed simp

lemma count_contained:
  "count_keys contains ks c st = (c + int (length (filter (\<lambda>k. k \<in> live st) ks)), snd (count_keys contains ks c st)) \<and>
   live (snd (count_keys contains ks c st)) = live st"
proof (induction ks arbitrary: c st)
  case (Cons k ks)
  obtain hit st' where d: "contains k st = (hit, st')" by force
  have "hit \<longleftrightarrow> k \<in> live st" "live st' = live st"
    using contains_hit [of k st] contains_live [of k st] by (simp_all add: d)
  with Cons.IH [of "if hit then c + 1 else c" st'] show ?case by (auto simp: d prod_eq_iff)
qed simp

end

subsection \<open>The shard store\<close>

record shard_store =
  deadlines :: "bytes \<rightharpoonup> nat option"
  is_passive :: bool
  lazy_expired :: nat

definition is_expired :: "nat \<Rightarrow> nat option \<Rightarrow> bool" where
  "is_expired now expire_at = (case expire_at of Some deadline \<Rightarrow> now > deadline | None \<Rightarrow> False)"

definition remove_object :: "bytes \<Rightarrow> shard_store \<Rightarrow> bool \<times> shard_store" where
  "remove_object key st =
     (case deadlines st key of
        None \<Rightarrow> (False, st)
      | Some _ \<Rightarrow> (True, st\<lparr>deadlines := (deadlines st)(key := None)\<rparr>))"

definition expire_if_due :: "nat \<Rightarrow> bytes \<Rightarrow> shard_store \<Rightarrow> bool \<times> shard_store" where
  "expire_if_due now key st =
     (let due = (case deadlines st key of None \<Rightarrow> False | Some d \<Rightarrow> is_expired now d)
      in if due
         then if is_passive st then (False, st)
              else let (removed, st) = remove_object key st
                   in (False, if removed then st\<lparr>lazy_expired := min (lazy_expired st + 1) (2 ^ 64 - 1)\<rparr> else st)
         else (deadlines st key \<noteq> None, st))"

definition store_delete :: "nat \<Rightarrow> bytes \<Rightarrow> shard_store \<Rightarrow> bool \<times> shard_store" where
  "store_delete now key st =
     (let (alive, st) = expire_if_due now key st in if \<not> alive then (False, st) else remove_object key st)"

definition store_contains :: "nat \<Rightarrow> bytes \<Rightarrow> shard_store \<Rightarrow> bool \<times> shard_store" where
  "store_contains now key st = expire_if_due now key st"

text \<open>The keys that a client sees at time \<open>now\<close>. A passive store keeps expired keys but does not show them.\<close>

definition live_keys :: "nat \<Rightarrow> shard_store \<Rightarrow> bytes set" where
  "live_keys now st = {k. case deadlines st k of None \<Rightarrow> False | Some d \<Rightarrow> \<not> is_expired now d}"

lemma expire_if_due_live:
  "fst (expire_if_due now k st) \<longleftrightarrow> k \<in> live_keys now st"
  "live_keys now (snd (expire_if_due now k st)) = live_keys now st"
  by (auto simp: expire_if_due_def live_keys_def remove_object_def Let_def split: option.splits)

lemma remove_object_live:
  "k \<in> live_keys now st \<Longrightarrow> fst (remove_object k st)"
  "live_keys now (snd (remove_object k st)) = live_keys now st - {k}"
  by (auto simp: live_keys_def remove_object_def split: option.splits)

interpretation shard: key_store "live_keys now" "store_delete now" "store_contains now" for now
proof
  fix k st
  obtain alive st' where e: "expire_if_due now k st = (alive, st')" by force
  have alive: "alive \<longleftrightarrow> k \<in> live_keys now st" "live_keys now st' = live_keys now st"
    using expire_if_due_live [of now k st] by (simp_all add: e)
  then show "fst (store_delete now k st) \<longleftrightarrow> k \<in> live_keys now st"
    and "live_keys now (snd (store_delete now k st)) = live_keys now st - {k}"
    using remove_object_live(1) [of k now st'] remove_object_live(2) [of now k st'] by (auto simp: store_delete_def e)
  show "fst (store_contains now k st) \<longleftrightarrow> k \<in> live_keys now st"
    and "live_keys now (snd (store_contains now k st)) = live_keys now st"
    by (simp_all add: store_contains_def expire_if_due_live)
qed

subsection \<open>A counting command on a store\<close>

definition count_command :: "string \<Rightarrow> nat \<Rightarrow> request \<Rightarrow> shard_store \<Rightarrow> resp_value \<times> shard_store" where
  "count_command cmd now =
     (if cmd = ''DEL'' then cmd_del (store_delete now)
      else if cmd = ''UNLINK'' then cmd_unlink (store_delete now)
      else if cmd = ''EXISTS'' then cmd_exists (store_contains now)
      else cmd_touch (store_contains now))"

definition removes_keys :: "string \<Rightarrow> bool" where
  "removes_keys cmd \<longleftrightarrow> cmd = ''DEL'' \<or> cmd = ''UNLINK''"

text \<open>The count of a command over the keys \<open>ks\<close> when \<open>L\<close> are the live ones, and the keys that are live afterwards.\<close>

definition key_count :: "string \<Rightarrow> bytes set \<Rightarrow> bytes list \<Rightarrow> nat" where
  "key_count cmd L ks = (if removes_keys cmd then card (L \<inter> set ks) else length (filter (\<lambda>k. k \<in> L) ks))"

definition keys_left :: "string \<Rightarrow> bytes set \<Rightarrow> bytes list \<Rightarrow> bytes set" where
  "keys_left cmd L ks = (if removes_keys cmd then L - set ks else L)"

lemma count_command_spec:
  assumes "ks \<noteq> []"
  shows "fst (count_command cmd now \<lparr>args = verb # ks\<rparr> st) = Integer (int (key_count cmd (live_keys now st) ks))"
    and "live_keys now (snd (count_command cmd now \<lparr>args = verb # ks\<rparr> st)) = keys_left cmd (live_keys now st) ks"
proof -
  have len: "\<not> length (verb # ks) < 2" using assms by (cases ks) auto
  note loops = shard.count_deleted [of now ks 0 st] shard.count_contained [of now ks 0 st]
  show "fst (count_command cmd now \<lparr>args = verb # ks\<rparr> st) = Integer (int (key_count cmd (live_keys now st) ks))"
    and "live_keys now (snd (count_command cmd now \<lparr>args = verb # ks\<rparr> st)) = keys_left cmd (live_keys now st) ks"
    using len loops
    by (auto simp: count_command_def cmd_del_def cmd_unlink_def cmd_exists_def cmd_touch_def key_count_def keys_left_def
        removes_keys_def Let_def prod_eq_iff split: prod.splits)
qed

end
