(* ===== verification/Multikey.thy ===== *)
theory Multikey
  imports Shard_Route Keyspace_Cmds "HOL-Library.Multiset"
begin

text \<open>
  The fan-out of a multi-key command over the shards of a node, from \<open>ironcache/src/multikey.rs\<close> and the
  \<open>fan_out_split\<close> of \<open>coordinator.rs\<close>: the keys are grouped by owner, each owner runs a sub-request, and the
  sub-replies are merged. A shard is what it answers to a request: its reply, a failed send, or a cancelled wait.
\<close>

subsection \<open>The code\<close>

record key_at =
  ka_shard :: nat
  ka_pos :: nat

definition shard_order :: "nat list \<Rightarrow> nat list" where
  "shard_order owners = fold (\<lambda>s order. if s \<in> set order then order else order @ [s]) owners []"

definition place_keys :: "bytes list \<Rightarrow> nat \<Rightarrow> key_at list" where
  "place_keys keys n_shards =
     map (\<lambda>(pos, k). \<lparr>ka_shard = owner_shard k n_shards, ka_pos = pos\<rparr>) (List.enumerate 0 keys)"

definition group_by_owner :: "bytes \<Rightarrow> bytes list \<Rightarrow> nat \<Rightarrow> (nat \<times> request) list \<times> nat list list" where
  "group_by_owner verb keys n_shards =
     (let placed = place_keys keys n_shards;
          order = shard_order (map ka_shard placed);
          mine = (\<lambda>shard. filter (\<lambda>p. ka_shard p = shard) placed)
      in (map (\<lambda>shard. (shard, \<lparr>args = verb # map (\<lambda>p. keys ! ka_pos p) (mine shard)\<rparr>)) order,
          map (\<lambda>shard. map ka_pos (mine shard)) order))"

fun pair_list :: "bytes list \<Rightarrow> (bytes \<times> bytes) list" where
  "pair_list (k # v # rest) = (k, v) # pair_list rest"
| "pair_list _ = []"

definition group_pairs_by_owner :: "bytes list \<Rightarrow> nat \<Rightarrow> (nat \<times> request) list" where
  "group_pairs_by_owner pairs n_shards =
     (let kvs = pair_list pairs;
          order = shard_order (map (\<lambda>(k, v). owner_shard k n_shards) kvs)
      in map (\<lambda>shard.
           (shard, \<lparr>args = str_bytes ''MSET'' #
              concat (map (\<lambda>(k, v). [k, v]) (filter (\<lambda>(k, v). owner_shard k n_shards = shard) kvs))\<rparr>)) order)"

definition place_values :: "nat list \<Rightarrow> resp_value list \<Rightarrow> resp_value list \<Rightarrow> resp_value list" where
  "place_values pos_list vs out =
     fold (\<lambda>(orig, v) out. if orig < length out then out[orig := v] else out) (zip pos_list vs) out"

definition reassemble_mget ::
    "nat \<Rightarrow> (nat \<times> request) list \<Rightarrow> nat list list \<Rightarrow> (nat \<times> resp_value) list \<Rightarrow> resp_value" where
  "reassemble_mget num_keys subreqs positions replies =
     Array (Some (fold (\<lambda>(shard, reply) out.
         case position (\<lambda>(s, _). s = shard) subreqs of
           None \<Rightarrow> out
         | Some idx \<Rightarrow>
             (case reply of
                Array (Some vs) \<Rightarrow> place_values (positions ! idx) vs out
              | _ \<Rightarrow> out))
       replies (replicate num_keys Null)))"

definition shard_unavailable_msg :: string where
  "shard_unavailable_msg = ''cross-shard target unavailable''"

definition is_shard_unavailable :: "error_reply \<Rightarrow> bool" where
  "is_shard_unavailable e \<longleftrightarrow> err_message e = shard_unavailable_msg"

definition shard_unavailable_reply :: resp_value where
  "shard_unavailable_reply = ErrorValue (error_err shard_unavailable_msg)"

definition is_error :: "resp_value \<Rightarrow> bool" where
  "is_error v \<longleftrightarrow> (case v of ErrorValue _ \<Rightarrow> True | _ \<Rightarrow> False)"

definition sum_integers :: "(nat \<times> resp_value) list \<Rightarrow> resp_value" where
  "sum_integers replies =
     (let total = Integer (fold (\<lambda>(_, r) total. case r of Integer n \<Rightarrow> saturating_add_i64 total n | _ \<Rightarrow> total) replies 0)
      in case List.find (\<lambda>(_, r). is_error r) replies of
           Some (_, ErrorValue e) \<Rightarrow> if \<not> is_shard_unavailable e then ErrorValue e else total
         | _ \<Rightarrow> total)"

fun merge_mset :: "(nat \<times> resp_value) list \<Rightarrow> resp_value" where
  "merge_mset [] = value_ok"
| "merge_mset ((_, r) # replies) = (case r of ErrorValue e \<Rightarrow> ErrorValue e | _ \<Rightarrow> merge_mset replies)"

datatype shard_answer = Replied resp_value | SendFailed | Cancelled

definition fan_out_split ::
    "(nat \<Rightarrow> request \<Rightarrow> shard_answer) \<Rightarrow> (request \<Rightarrow> resp_value) \<Rightarrow> nat \<Rightarrow> (nat \<times> request) list \<Rightarrow> (nat \<times> resp_value) list" where
  "fan_out_split remote run_local home subreqs =
     (let others = filter (\<lambda>(shard, _). shard \<noteq> home) subreqs;
          failed = filter (\<lambda>(shard, req). remote shard req = SendFailed) others;
          pending = filter (\<lambda>(shard, req). remote shard req \<noteq> SendFailed) others;
          home_subreq = (case rev (filter (\<lambda>(shard, _). shard = home) subreqs) of [] \<Rightarrow> None | (_, req) # _ \<Rightarrow> Some req)
      in map (\<lambda>(shard, _). (shard, shard_unavailable_reply)) failed @
         (case home_subreq of None \<Rightarrow> [] | Some req \<Rightarrow> [(home, run_local req)]) @
         map (\<lambda>(shard, req). (shard, case remote shard req of Replied v \<Rightarrow> v | _ \<Rightarrow> shard_unavailable_reply)) pending)"

definition fan_out_multikey ::
    "(nat \<Rightarrow> request \<Rightarrow> shard_answer) \<Rightarrow> (request \<Rightarrow> resp_value) \<Rightarrow> nat \<Rightarrow> nat \<Rightarrow> string \<Rightarrow> request \<Rightarrow> resp_value" where
  "fan_out_multikey remote run_local home n_shards cmd_upper req =
     (if cmd_upper = ''MGET'' then
        let keys = tl (args req); (subreqs, positions) = group_by_owner (str_bytes ''MGET'') keys n_shards
        in reassemble_mget (length keys) subreqs positions (fan_out_split remote run_local home subreqs)
      else if cmd_upper = ''MSET'' then
        merge_mset (fan_out_split remote run_local home (group_pairs_by_owner (tl (args req)) n_shards))
      else if cmd_upper \<in> set [''DEL'', ''EXISTS'', ''UNLINK'', ''TOUCH''] then
        sum_integers (fan_out_split remote run_local home
          (fst (group_by_owner (str_bytes cmd_upper) (tl (args req)) n_shards)))
      else ErrorValue (error_err ''non-fan-out multi-key command''))"

subsection \<open>Grouping\<close>

text \<open>The positions of the keys that a shard owns.\<close>

definition owned :: "bytes list \<Rightarrow> nat \<Rightarrow> nat \<Rightarrow> nat list" where
  "owned keys n s = filter (\<lambda>i. owner_shard (keys ! i) n = s) [0..<length keys]"

definition owners :: "bytes list \<Rightarrow> nat \<Rightarrow> nat list" where
  "owners keys n = shard_order (map (\<lambda>k. owner_shard k n) keys)"

lemma shard_order_fold:
  assumes "distinct order"
  shows "distinct (fold (\<lambda>s order. if s \<in> set order then order else order @ [s]) xs order) \<and>
    set (fold (\<lambda>s order. if s \<in> set order then order else order @ [s]) xs order) = set order \<union> set xs"
  using assms by (induction xs arbitrary: order) auto

lemma distinct_owners [simp]: "distinct (owners keys n)"
  and set_owners: "set (owners keys n) = (\<lambda>k. owner_shard k n) ` set keys"
  using shard_order_fold [of "[]" "map (\<lambda>k. owner_shard k n) keys"]
  by (simp_all add: owners_def shard_order_def)

lemma place_keys_eq:
  "place_keys keys n = map (\<lambda>i. \<lparr>ka_shard = owner_shard (keys ! i) n, ka_pos = i\<rparr>) [0..<length keys]"
  by (rule nth_equalityI) (simp_all add: place_keys_def nth_enumerate_eq)

lemma map_over_nth: "map (\<lambda>i. f (xs ! i)) [0..<length xs] = map f xs"
  by (rule nth_equalityI) simp_all

lemma group_by_owner_eq:
  "group_by_owner verb keys n =
     (map (\<lambda>s. (s, \<lparr>args = verb # map ((!) keys) (owned keys n s)\<rparr>)) (owners keys n),
      map (owned keys n) (owners keys n))"
proof -
  have order: "shard_order (map ka_shard (place_keys keys n)) = owners keys n"
    using map_over_nth [of "\<lambda>k. owner_shard k n" keys] by (simp add: owners_def place_keys_eq comp_def)
  have "filter (\<lambda>p. ka_shard p = s) (place_keys keys n) =
      map (\<lambda>i. \<lparr>ka_shard = owner_shard (keys ! i) n, ka_pos = i\<rparr>) (owned keys n s)" for s
    by (simp add: place_keys_eq owned_def filter_map comp_def)
  then show ?thesis
    by (simp add: group_by_owner_def Let_def order comp_def)
qed

lemma owned_in_range: "i \<in> set (owned keys n s) \<longleftrightarrow> i < length keys \<and> owner_shard (keys ! i) n = s"
  by (auto simp: owned_def)

lemma owned_owner: "i < length keys \<Longrightarrow> \<exists>s \<in> set (owners keys n). i \<in> set (owned keys n s)"
  by (auto simp: set_owners owned_in_range)

subsection \<open>Fan-out\<close>

text \<open>Every shard is up: what it answers is \<open>ans\<close>.\<close>

definition all_up ::
    "(nat \<Rightarrow> request \<Rightarrow> shard_answer) \<Rightarrow> (request \<Rightarrow> resp_value) \<Rightarrow> nat \<Rightarrow> (nat \<Rightarrow> request \<Rightarrow> resp_value) \<Rightarrow> bool" where
  "all_up remote run_local home ans \<longleftrightarrow>
     (\<forall>s req. s \<noteq> home \<longrightarrow> remote s req = Replied (ans s req)) \<and> (\<forall>req. run_local req = ans home req)"

lemma filter_home:
  "distinct (map fst xs) \<Longrightarrow>
     filter (\<lambda>(s, _). s = h) xs = (case map_of xs h of None \<Rightarrow> [] | Some r \<Rightarrow> [(h, r)])"
proof (induction xs)
  case (Cons x xs)
  then have "map_of xs (fst x) = None"
    by (simp add: map_of_eq_None_iff)
  with Cons show ?case by (cases x) (auto split: option.splits)
qed simp

lemma fan_out_answers:
  assumes "all_up remote run_local home ans" "distinct (map fst subreqs)"
  shows "mset (fan_out_split remote run_local home subreqs) = mset (map (\<lambda>(s, req). (s, ans s req)) subreqs)"
proof -
  let ?others = "filter (\<lambda>(s, _). s \<noteq> home) subreqs" and ?home = "filter (\<lambda>(s, _). s = home) subreqs"
  let ?f = "\<lambda>(s, req). (s, ans s req)"
  have remote: "remote s req = Replied (ans s req)" if "s \<noteq> home" for s req
    using assms(1) that by (simp add: all_up_def)
  have "filter (\<lambda>(s, req). remote s req = SendFailed) ?others = []"
    "filter (\<lambda>(s, req). remote s req \<noteq> SendFailed) ?others = ?others"
    using remote by (auto simp: filter_empty_conv intro!: filter_cong)
  moreover have "map (\<lambda>(s, req). (s, case remote s req of Replied v \<Rightarrow> v | _ \<Rightarrow> shard_unavailable_reply)) ?others =
      map ?f ?others"
    using remote by auto
  moreover have "(case (case rev ?home of [] \<Rightarrow> None | (_, req) # _ \<Rightarrow> Some req) of
      None \<Rightarrow> [] | Some req \<Rightarrow> [(home, run_local req)]) = map ?f ?home"
    using assms by (simp add: filter_home all_up_def split: option.splits)
  ultimately have split: "fan_out_split remote run_local home subreqs = map ?f ?home @ map ?f ?others"
    by (simp add: fan_out_split_def Let_def)
  have whole: "mset ?home + mset ?others = mset subreqs"
    using multiset_partition [of "mset subreqs" "\<lambda>(s, _). s = home"]
    by (simp add: case_prod_unfold)
  show ?thesis
    unfolding split mset_append mset_map image_mset_union [symmetric] whole by (rule refl)
qed

subsection \<open>Reassembly\<close>

lemma place_values_spec:
  "length (place_values ps (map L ps) out) = length out \<and>
   (\<forall>i < length out. place_values ps (map L ps) out ! i = (if i \<in> set ps then L i else out ! i))"
proof (induction ps rule: rev_induct)
  case (snoc p ps)
  have "place_values (ps @ [p]) (map L (ps @ [p])) out =
      (let o' = place_values ps (map L ps) out in if p < length o' then o'[p := L p] else o')"
    by (simp add: place_values_def Let_def)
  with snoc show ?case by (auto simp: Let_def nth_list_update)
qed (simp add: place_values_def)

lemma position_subreq:
  assumes "s \<in> set order" "distinct order"
  shows "\<exists>idx < length order. position (\<lambda>(x, _). x = s) (map (\<lambda>s. (s, f s)) order) = Some idx \<and> order ! idx = s"
  using assms by (auto simp: position_Some in_set_conv_nth nth_eq_iff_index_eq)

definition gather :: "bytes list \<Rightarrow> nat \<Rightarrow> (nat \<Rightarrow> resp_value) \<Rightarrow> nat set \<Rightarrow> nat \<Rightarrow> resp_value" where
  "gather keys n L seen i = (if \<exists>s \<in> seen. i \<in> set (owned keys n s) then L i else Null)"

lemma reassemble_fold:
  fixes keys n L
  defines "reply \<equiv> \<lambda>s. Array (Some (map L (owned keys n s)))"
  assumes "set replies \<subseteq> (\<lambda>s. (s, reply s)) ` set (owners keys n)"
  shows "fold (\<lambda>(shard, reply) out.
       case position (\<lambda>(s, _). s = shard) (fst (group_by_owner verb keys n)) of
         None \<Rightarrow> out
       | Some idx \<Rightarrow>
           (case reply of
              Array (Some vs) \<Rightarrow> place_values (snd (group_by_owner verb keys n) ! idx) vs out
            | _ \<Rightarrow> out))
     replies (map (gather keys n L seen) [0..<length keys]) =
   map (gather keys n L (seen \<union> fst ` set replies)) [0..<length keys]"
  using assms(2)
proof (induction replies arbitrary: seen)
  case (Cons r replies)
  obtain s where s: "s \<in> set (owners keys n)" "r = (s, reply s)"
    using Cons.prems by auto
  obtain idx where idx: "idx < length (owners keys n)" "owners keys n ! idx = s"
    "position (\<lambda>(x, _). x = s) (fst (group_by_owner verb keys n)) = Some idx"
    using position_subreq [OF s(1) distinct_owners, of "\<lambda>s. \<lparr>args = verb # map ((!) keys) (owned keys n s)\<rparr>"]
    by (auto simp: group_by_owner_eq)
  have "snd (group_by_owner verb keys n) ! idx = owned keys n s"
    using idx by (simp add: group_by_owner_eq)
  moreover have "place_values (owned keys n s) (map L (owned keys n s)) (map (gather keys n L seen) [0..<length keys]) =
      map (gather keys n L (insert s seen)) [0..<length keys]"
    using place_values_spec [of "owned keys n s" L "map (gather keys n L seen) [0..<length keys]"]
    by (intro nth_equalityI) (auto simp: gather_def)
  ultimately show ?case
    using Cons idx(3) s(2) by (simp add: reply_def)
qed simp

lemma reassemble_mget_all:
  assumes "set replies = (\<lambda>s. (s, Array (Some (map (\<lambda>i. lookup (keys ! i)) (owned keys n s))))) ` set (owners keys n)"
  shows "reassemble_mget (length keys) (fst (group_by_owner verb keys n)) (snd (group_by_owner verb keys n)) replies =
           Array (Some (map lookup keys))"
proof -
  let ?L = "\<lambda>i. lookup (keys ! i)"
  have "replicate (length keys) Null = map (gather keys n ?L {}) [0..<length keys]"
    by (rule nth_equalityI) (simp_all add: gather_def)
  moreover have "map (gather keys n ?L ({} \<union> fst ` set replies)) [0..<length keys] = map lookup keys"
    using owned_owner [of _ keys n] assms
    by (intro nth_equalityI) (auto simp: gather_def image_image)
  ultimately show ?thesis
    using reassemble_fold [of replies ?L keys n verb "{}"] assms by (simp add: reassemble_mget_def)
qed

subsection \<open>Sums\<close>

lemma saturating_sum:
  assumes "\<forall>(s, r) \<in> set replies. \<exists>n \<ge> 0. r = Integer n"
    and "0 \<le> acc" "acc + sum_list (map (\<lambda>(s, r). case r of Integer n \<Rightarrow> n | _ \<Rightarrow> 0) replies) \<le> i64_max"
  shows "fold (\<lambda>(_, r) total. case r of Integer n \<Rightarrow> saturating_add_i64 total n | _ \<Rightarrow> total) replies acc =
           acc + sum_list (map (\<lambda>(s, r). case r of Integer n \<Rightarrow> n | _ \<Rightarrow> 0) replies)"
  using assms
proof (induction replies arbitrary: acc)
  case (Cons x replies)
  obtain s m where x: "x = (s, Integer m)" "0 \<le> m"
    using Cons.prems(1) by auto
  have "0 \<le> sum_list (map (\<lambda>(s, r). case r of Integer n \<Rightarrow> n | _ \<Rightarrow> 0) replies)"
    using Cons.prems(1) by (intro sum_list_nonneg) fastforce
  then have "saturating_add_i64 acc m = acc + m"
    using Cons.prems(2,3) x by (simp add: saturating_add_i64_def)
  then show ?case
    using Cons.IH [of "acc + m"] Cons.prems x by simp
qed simp

lemma owned_counts:
  "(\<Sum>s \<leftarrow> owners keys n. length (filter P (map ((!) keys) (owned keys n s)))) = length (filter P keys)"
proof -
  let ?hit = "\<lambda>s. {i. i < length keys \<and> owner_shard (keys ! i) n = s \<and> P (keys ! i)}"
  have "length (filter P (map ((!) keys) (owned keys n s))) = card (?hit s)" for s
  proof -
    have "distinct (filter (\<lambda>i. P (keys ! i)) (owned keys n s))"
      by (simp add: owned_def)
    moreover have "set (filter (\<lambda>i. P (keys ! i)) (owned keys n s)) = ?hit s"
      by (auto simp: owned_def)
    ultimately show ?thesis
      using distinct_card [of "filter (\<lambda>i. P (keys ! i)) (owned keys n s)"] by (simp add: filter_map comp_def)
  qed
  then have "(\<Sum>s \<leftarrow> owners keys n. length (filter P (map ((!) keys) (owned keys n s)))) =
      (\<Sum>s \<in> set (owners keys n). card (?hit s))"
    by (simp add: sum_list_distinct_conv_sum_set)
  also have "\<dots> = card (\<Union>s \<in> set (owners keys n). ?hit s)"
    by (rule card_UN_disjoint [symmetric]) auto
  also have "(\<Union>s \<in> set (owners keys n). ?hit s) = {i. i < length keys \<and> P (keys ! i)}"
    by (auto simp: set_owners intro: bexI [OF _ nth_mem])
  finally show ?thesis
    by (simp add: length_filter_conv_card)
qed

lemma sum_list_int: "(\<Sum>s \<leftarrow> xs. int (g s)) = int (\<Sum>s \<leftarrow> xs. g s)"
  by (induction xs) auto

lemma sum_integers_counts:
  assumes "mset replies = mset (map (\<lambda>s. (s, Integer (int (g s)))) order)" and "int (\<Sum>s \<leftarrow> order. g s) \<le> 2 ^ 63 - 1"
  shows "sum_integers replies = Integer (int (\<Sum>s \<leftarrow> order. g s))"
proof -
  let ?num = "\<lambda>(s, r). case r of Integer n \<Rightarrow> n | _ \<Rightarrow> 0"
  have ints: "\<forall>(s, r) \<in> set replies. \<exists>n \<ge> 0. r = Integer n"
    using mset_eq_setD [OF assms(1)] by auto
  have "mset (map ?num replies) = mset (map (int \<circ> g) order)"
    using arg_cong [OF assms(1), of "image_mset ?num"] by (simp add: image_mset.compositionality comp_def)
  then have "sum_list (map ?num replies) = sum_list (map (int \<circ> g) order)"
    by (metis sum_mset_sum_list)
  then have sum: "sum_list (map ?num replies) = int (\<Sum>s \<leftarrow> order. g s)"
    by (simp add: sum_list_int comp_def)
  have "List.find (\<lambda>(_, r). is_error r) replies = None"
    using ints by (auto simp: find_None_iff is_error_def)
  then show ?thesis
    using saturating_sum [OF ints, of 0] sum assms(2) by (simp add: sum_integers_def)
qed

lemma owned_set: "set (map ((!) keys) (owned keys n s)) = {k \<in> set keys. owner_shard k n = s}"
proof -
  have "set (map ((!) keys) (owned keys n s)) = (!) keys ` {i. i < length keys \<and> owner_shard (keys ! i) n = s}"
    by (auto simp: owned_in_range)
  then show ?thesis by (auto simp: in_set_conv_nth)
qed

lemma owned_some: "s \<in> set (owners keys n) \<Longrightarrow> map ((!) keys) (owned keys n s) \<noteq> []"
  using owned_set [of keys n s] by (force simp: set_owners)

lemma owned_deletes: "(\<Sum>s \<leftarrow> owners keys n. card (L \<inter> set (map ((!) keys) (owned keys n s)))) = card (L \<inter> set keys)"
proof -
  let ?hit = "\<lambda>s. L \<inter> {k \<in> set keys. owner_shard k n = s}"
  have "(\<Sum>s \<leftarrow> owners keys n. card (?hit s)) = (\<Sum>s \<in> set (owners keys n). card (?hit s))"
    by (simp add: sum_list_distinct_conv_sum_set)
  also have "\<dots> = card (\<Union>s \<in> set (owners keys n). ?hit s)"
    by (rule card_UN_disjoint [symmetric]) auto
  also have "(\<Union>s \<in> set (owners keys n). ?hit s) = L \<inter> set keys"
    by (auto simp: set_owners)
  finally show ?thesis by (simp only: owned_set)
qed

lemma owned_key_count:
  "(\<Sum>s \<leftarrow> owners keys n. key_count cmd L (map ((!) keys) (owned keys n s))) = key_count cmd L keys"
proof (cases "removes_keys cmd")
  case True
  with owned_deletes [of L keys n] show ?thesis by (simp add: key_count_def)
next
  case False
  with owned_counts [of "\<lambda>k. k \<in> L" keys n] show ?thesis by (simp add: key_count_def)
qed

lemma key_count_cong: "(\<And>k. k \<in> set ks \<Longrightarrow> k \<in> L \<longleftrightarrow> k \<in> M) \<Longrightarrow> key_count cmd L ks = key_count cmd M ks"
  by (auto simp: key_count_def intro!: arg_cong [of _ _ card] arg_cong [of _ _ length] filter_cong)

lemma key_count_le: "key_count cmd L ks \<le> length ks"
proof -
  have "card (L \<inter> set ks) \<le> length ks"
    using card_mono [of "set ks" "L \<inter> set ks"] card_length [of ks] by force
  then show ?thesis by (simp add: key_count_def)
qed

subsection \<open>Properties\<close>

text \<open>What the shards answer to a sub-request on keys they own.\<close>

definition answers_each :: "nat \<Rightarrow> (nat \<Rightarrow> request \<Rightarrow> resp_value) \<Rightarrow> bytes \<Rightarrow> (bytes list \<Rightarrow> resp_value) \<Rightarrow> bool" where
  "answers_each n ans verb f \<longleftrightarrow>
     (\<forall>s ks. ks \<noteq> [] \<and> (\<forall>k \<in> set ks. owner_shard k n = s) \<longrightarrow> ans s \<lparr>args = verb # ks\<rparr> = f ks)"

lemma owned_answer:
  "answers_each n ans verb f \<Longrightarrow> s \<in> set (owners keys n) \<Longrightarrow>
     ans s \<lparr>args = verb # map ((!) keys) (owned keys n s)\<rparr> = f (map ((!) keys) (owned keys n s))"
  using owned_some [of s keys n] owned_set [of keys n s] by (auto simp: answers_each_def)

lemma fan_out_owners:
  "all_up remote run_local home ans \<Longrightarrow>
   mset (fan_out_split remote run_local home (fst (group_by_owner verb keys n))) =
     mset (map (\<lambda>s. (s, ans s \<lparr>args = verb # map ((!) keys) (owned keys n s)\<rparr>)) (owners keys n))"
  using fan_out_answers [of remote run_local home ans "fst (group_by_owner verb keys n)"]
  by (simp add: group_by_owner_eq comp_def)

lemma fan_out_owned:
  assumes "all_up remote run_local home ans" "answers_each n ans verb f"
  shows "mset (fan_out_split remote run_local home (fst (group_by_owner verb keys n))) =
           mset (map (\<lambda>s. (s, f (map ((!) keys) (owned keys n s)))) (owners keys n))"
proof -
  have "map (\<lambda>s. (s, ans s \<lparr>args = verb # map ((!) keys) (owned keys n s)\<rparr>)) (owners keys n) =
      map (\<lambda>s. (s, f (map ((!) keys) (owned keys n s)))) (owners keys n)"
    using owned_answer [OF assms(2)] by simp
  then show ?thesis using fan_out_owners [OF assms(1), of verb keys n] by (simp only:)
qed

text \<open>
  C33: An \<open>MGET\<close> whose keys are spread over the shards returns, for every key in the order of the request, what the
  owner of that key holds, in whatever order the shards answer and however often a key is repeated.
\<close>
theorem mget_fan_out:
  assumes "all_up remote run_local home ans"
    and "answers_each n ans (str_bytes ''MGET'') (\<lambda>ks. Array (Some (map lookup ks)))"
  shows "fan_out_multikey remote run_local home n ''MGET'' \<lparr>args = verb # keys\<rparr> = Array (Some (map lookup keys))"
proof -
  let ?subreqs = "fst (group_by_owner (str_bytes ''MGET'') keys n)"
  have "set (fan_out_split remote run_local home ?subreqs) =
      (\<lambda>s. (s, Array (Some (map (\<lambda>i. lookup (keys ! i)) (owned keys n s))))) ` set (owners keys n)"
    using arg_cong [OF fan_out_owned [OF assms, of keys], of set_mset] by (simp add: comp_def)
  then show ?thesis
    using reassemble_mget_all by (simp add: fan_out_multikey_def Let_def case_prod_unfold)
qed

text \<open>Two shards, the first one home; every key holds its own bytes.\<close>

abbreviation (input) demo_mget :: "nat \<Rightarrow> request \<Rightarrow> resp_value" where
  "demo_mget \<equiv> \<lambda>_ req. Array (Some (map bulk (tl (args req))))"

theorem mget_fan_out_witness:
  "fan_out_multikey (\<lambda>s req. Replied (demo_mget s req)) (demo_mget 0) 0 2 ''MGET''
     \<lparr>args = [[0x6D], [0x61], [0x62], [0x61]]\<rparr> = Array (Some (map bulk [[0x61], [0x62], [0x61]]))"
  by (rule mget_fan_out [where ans = demo_mget]) (simp_all add: all_up_def answers_each_def)

text \<open>The store of a shard after the sub-request, if any, that the fan-out sends to it.\<close>

definition shard_after :: "string \<Rightarrow> nat \<Rightarrow> bytes list \<Rightarrow> nat \<Rightarrow> (nat \<Rightarrow> shard_store) \<Rightarrow> nat \<Rightarrow> shard_store" where
  "shard_after cmd now keys n st s =
     (case map_of (fst (group_by_owner (str_bytes cmd) keys n)) s of
        None \<Rightarrow> st s
      | Some req \<Rightarrow> snd (count_command cmd now req (st s)))"

lemma shard_after_live:
  "live_keys now (shard_after cmd now keys n st s) =
     keys_left cmd (live_keys now (st s)) (map ((!) keys) (owned keys n s))"
proof (cases "s \<in> set (owners keys n)")
  case True
  then have "map_of (fst (group_by_owner (str_bytes cmd) keys n)) s =
      Some \<lparr>args = str_bytes cmd # map ((!) keys) (owned keys n s)\<rparr>"
    by (simp add: group_by_owner_eq map_of_map_restrict restrict_map_def)
  then show ?thesis
    using count_command_spec(2) [OF owned_some [OF True]] by (simp add: shard_after_def)
next
  case False
  then have "map_of (fst (group_by_owner (str_bytes cmd) keys n)) s = None"
    by (simp add: group_by_owner_eq map_of_map_restrict restrict_map_def)
  moreover have "set (map ((!) keys) (owned keys n s)) = {}"
    using False unfolding owned_set by (auto simp: set_owners)
  then have "map ((!) keys) (owned keys n s) = []"
    by (simp only: set_empty)
  ultimately show ?thesis
    by (simp add: shard_after_def keys_left_def)
qed

text \<open>
  C34: Sharding is invisible to a counting command (\<open>DEL\<close>, \<open>EXISTS\<close>, \<open>UNLINK\<close>, \<open>TOUCH\<close>) with at least one key.
  Suppose that every shard answers and that the live keys of the shards, each key looked up on its owner, are the live keys
  of one store. Then the fanned-out command replies what the command replies when it runs on that one store: the number of
  different live keys named for \<open>DEL\<close> and \<open>UNLINK\<close>, the number of live keys with repeats for \<open>EXISTS\<close> and \<open>TOUCH\<close>.
  Afterwards the live keys of the shards are again those of that store.
\<close>
theorem count_fan_out:
  assumes "all_up remote run_local home (\<lambda>s req. fst (count_command cmd now req (st s)))"
    and "cmd \<in> {''DEL'', ''EXISTS'', ''UNLINK'', ''TOUCH''}"
    and "\<forall>k. k \<in> live_keys now (st (owner_shard k n)) \<longleftrightarrow> k \<in> live_keys now whole"
    and "keys \<noteq> []" and "int (length keys) \<le> 2 ^ 63 - 1"
  shows "fan_out_multikey remote run_local home n cmd \<lparr>args = verb # keys\<rparr> =
      fst (count_command cmd now \<lparr>args = verb # keys\<rparr> whole) \<and>
    fst (count_command cmd now \<lparr>args = verb # keys\<rparr> whole) = Integer (int (key_count cmd (live_keys now whole) keys)) \<and>
    (\<forall>k. k \<in> live_keys now (shard_after cmd now keys n st (owner_shard k n)) \<longleftrightarrow>
       k \<in> live_keys now (snd (count_command cmd now \<lparr>args = verb # keys\<rparr> whole)))"
proof -
  let ?mine = "\<lambda>s. map ((!) keys) (owned keys n s)" and ?L = "live_keys now whole"
  define replies where
    "replies = fan_out_split remote run_local home (fst (group_by_owner (str_bytes cmd) keys n))"
  have "key_count cmd (live_keys now (st s)) (?mine s) = key_count cmd ?L (?mine s)" for s
    by (rule key_count_cong) (use owned_set [of keys n s] assms(3) in auto)
  then have "fst (count_command cmd now \<lparr>args = str_bytes cmd # ?mine s\<rparr> (st s)) = Integer (int (key_count cmd ?L (?mine s)))"
    if "s \<in> set (owners keys n)" for s
    using count_command_spec(1) [OF owned_some [OF that]] by simp
  then have "mset replies = mset (map (\<lambda>s. (s, Integer (int (key_count cmd ?L (?mine s))))) (owners keys n))"
    unfolding replies_def fan_out_owners [OF assms(1)] by (intro arg_cong [of _ _ mset] map_cong) simp_all
  moreover have "int (key_count cmd ?L keys) \<le> 2 ^ 63 - 1"
    using key_count_le [of cmd ?L keys] assms(5) by linarith
  ultimately have "sum_integers replies = Integer (int (key_count cmd ?L keys))"
    using sum_integers_counts [of replies "\<lambda>s. key_count cmd ?L (?mine s)" "owners keys n"] by (simp only: owned_key_count)
  moreover have "fan_out_multikey remote run_local home n cmd \<lparr>args = verb # keys\<rparr> = sum_integers replies"
    using assms(2) by (auto simp: fan_out_multikey_def replies_def)
  moreover have "fst (count_command cmd now \<lparr>args = verb # keys\<rparr> whole) = Integer (int (key_count cmd ?L keys))"
    by (rule count_command_spec(1) [OF assms(4)])
  moreover have "k \<in> live_keys now (shard_after cmd now keys n st (owner_shard k n)) \<longleftrightarrow>
      k \<in> live_keys now (snd (count_command cmd now \<lparr>args = verb # keys\<rparr> whole))" for k
    unfolding shard_after_live count_command_spec(2) [OF assms(4)] keys_left_def owned_set
    using assms(3) by simp
  ultimately show ?thesis by simp
qed

text \<open>
  Two shards, the first one home, at time 10. The key \<open>a\<close> is live, \<open>b\<close> has no deadline and \<open>c\<close> has expired. Deleting
  \<open>a\<close> twice, \<open>b\<close> and \<open>c\<close> counts two keys and leaves none.
\<close>

definition demo_store :: shard_store where
  "demo_store = \<lparr>deadlines = [[0x61] \<mapsto> Some 20, [0x62] \<mapsto> None, [0x63] \<mapsto> Some 5], is_passive = False, lazy_expired = 0\<rparr>"

definition demo_shard :: "nat \<Rightarrow> shard_store" where
  "demo_shard s = demo_store\<lparr>deadlines := (\<lambda>k. if owner_shard k 2 = s then deadlines demo_store k else None)\<rparr>"

theorem count_fan_out_witness:
  "fan_out_multikey (\<lambda>s req. Replied (fst (count_command ''DEL'' 10 req (demo_shard s))))
     (\<lambda>req. fst (count_command ''DEL'' 10 req (demo_shard 0))) 0 2 ''DEL''
     \<lparr>args = [str_bytes ''del'', [0x61], [0x62], [0x61], [0x63]]\<rparr> = Integer 2 \<and>
   [0x61] \<notin> live_keys 10 (shard_after ''DEL'' 10 [[0x61], [0x62], [0x61], [0x63]] 2 demo_shard (owner_shard [0x61] 2))"
proof -
  let ?keys = "[[0x61], [0x62], [0x61], [0x63]] :: bytes list"
  have part: "\<forall>k. k \<in> live_keys 10 (demo_shard (owner_shard k 2)) \<longleftrightarrow> k \<in> live_keys 10 demo_store"
    by (simp add: live_keys_def demo_shard_def)
  have up: "all_up (\<lambda>s req. Replied (fst (count_command ''DEL'' 10 req (demo_shard s))))
      (\<lambda>req. fst (count_command ''DEL'' 10 req (demo_shard 0))) 0 (\<lambda>s req. fst (count_command ''DEL'' 10 req (demo_shard s)))"
    by (simp add: all_up_def)
  have run: "fst (count_command ''DEL'' 10 \<lparr>args = str_bytes ''del'' # ?keys\<rparr> demo_store) = Integer 2"
    by code_simp
  have "[0x61] \<notin> live_keys 10 (snd (count_command ''DEL'' 10 \<lparr>args = str_bytes ''del'' # ?keys\<rparr> demo_store))"
    by (subst count_command_spec(2)) (simp_all add: keys_left_def removes_keys_def)
  with count_fan_out [OF up _ part, of ?keys "str_bytes ''del''"] run show ?thesis by simp
qed

end
