(* ===== verification/Slot_Rebalance.thy ===== *)
theory Slot_Rebalance
  imports Slot_Routing
begin

text \<open>
  Rebalancing a cluster, from \<open>ironcache-cluster/src/lib.rs\<close>: the coalesced slot ranges, the balanced plan, the moves
  that realise it, and the step a driver takes next for one move. Slot numbers and node indices of the computations
  are natural numbers; a move carries the slot as the \<open>u16\<close> it is on the wire.
\<close>

subsection \<open>The code\<close>

fun range_step :: "slot_map \<Rightarrow> nat \<Rightarrow> (nat \<times> nat \<times> nat) list \<times> (nat \<times> nat) option \<Rightarrow>
    (nat \<times> nat \<times> nat) list \<times> (nat \<times> nat) option" where
  "range_step m slot (out, run_start) =
     (let own = owner m slot; fresh = (if own = UNASSIGNED then None else Some (slot, own))
      in case run_start of
           Some (start, owner_idx) \<Rightarrow>
             if own = owner_idx then (out, run_start) else (out @ [(start, slot - 1, owner_idx)], fresh)
         | None \<Rightarrow> (out, fresh))"

definition ranges :: "slot_map \<Rightarrow> (nat \<times> nat \<times> nat) list" where
  "ranges m =
     (let (out, run_start) = fold (range_step m) [0..<CLUSTER_SLOTS] ([], None)
      in case run_start of
           Some (start, owner_idx) \<Rightarrow> out @ [(start, CLUSTER_SLOTS - 1, owner_idx)]
         | None \<Rightarrow> out)"

record rebalance_target =
  rt_node_id :: string
  current_slots :: nat
  target_slots :: nat

definition u32_or_max :: "nat \<Rightarrow> nat" where
  "u32_or_max n = (if n \<le> u32_max then n else u32_max)"

text \<open>The balanced number of slots of node \<open>i\<close>: the first \<open>assigned mod n\<close> nodes get one more.\<close>

definition balanced_target :: "nat \<Rightarrow> nat \<Rightarrow> nat \<Rightarrow> nat" where
  "balanced_target assigned n i = assigned div n + (if u32_or_max i < assigned mod n then 1 else 0)"

definition rebalance_plan :: "slot_map \<Rightarrow> rebalance_target list" where
  "rebalance_plan m =
     (let ns = table_nodes m
      in if ns = [] then []
         else
           let current = fold (\<lambda>(start, fin, owner_idx) cs.
                   if owner_idx < length cs then cs[owner_idx := cs ! owner_idx + (fin - start) + 1] else cs)
                 (ranges m) (replicate (length ns) 0);
               assigned = sum_list current
           in map (\<lambda>(i, node). \<lparr>rt_node_id = ne_id node, current_slots = current ! i,
                    target_slots = balanced_target assigned (u32_or_max (length ns)) i\<rparr>)
                (List.enumerate 0 ns))"

record slot_move =
  sm_slot :: u16
  src_node_id :: string
  dst_node_id :: string

function next_receiver :: "int list \<Rightarrow> nat \<Rightarrow> nat" where
  "next_receiver surplus recv =
     (if recv < length surplus \<and> surplus ! recv \<ge> 0 then next_receiver surplus (recv + 1) else recv)"
  by pat_completeness auto
termination by (relation "measure (\<lambda>(surplus, recv). length surplus - recv)") auto

declare next_receiver.simps [simp del]

fun donate :: "node_entry list \<Rightarrow> nat \<Rightarrow> nat list \<Rightarrow> int list \<Rightarrow> nat \<Rightarrow> slot_move list \<Rightarrow>
    int list \<times> nat \<times> slot_move list" where
  "donate ns donor slots surplus recv moves =
     (if surplus ! donor > 0 then
        let recv = next_receiver surplus recv
        in if recv \<ge> length ns then (surplus, recv, moves)
           else
             (case slots of
                [] \<Rightarrow> (surplus, recv, moves)
              | slot # slots \<Rightarrow>
                  let move = \<lparr>sm_slot = of_nat slot, src_node_id = ne_id (ns ! donor), dst_node_id = ne_id (ns ! recv)\<rparr>;
                      surplus = surplus[donor := surplus ! donor - 1];
                      surplus = surplus[recv := surplus ! recv + 1]
                  in donate ns donor slots surplus recv (moves @ [move]))
      else (surplus, recv, moves))"

declare donate.simps [simp del]

definition owned_slots :: "slot_map \<Rightarrow> nat list list" where
  "owned_slots m =
     map sort (fold (\<lambda>(start, fin, owner_idx) ow.
         if owner_idx < length ow then ow[owner_idx := ow ! owner_idx @ [start..<Suc fin]] else ow)
       (ranges m) (replicate (length (table_nodes m)) []))"

definition rebalance_moves :: "slot_map \<Rightarrow> slot_move list" where
  "rebalance_moves m =
     (let ns = table_nodes m
      in if length ns < 2 then []
         else
           let owned = owned_slots m;
               assigned = sum_list (map (\<lambda>v. u32_or_max (length v)) owned);
               surplus = map (\<lambda>i. int (u32_or_max (length (owned ! i))) -
                                   int (balanced_target assigned (u32_or_max (length ns)) i)) [0..<length ns]
           in snd (snd (fold (\<lambda>donor (surplus, recv, moves). donate ns donor (owned ! donor) surplus recv moves)
                [0..<length ns] (surplus, 0, []))))"

datatype apply_step = StartMigration | AwaitCopy | Commit | Done

definition next_apply_step :: "bool \<Rightarrow> bool \<Rightarrow> bool \<Rightarrow> apply_step" where
  "next_apply_step owner_is_destination migration_in_flight destination_caught_up =
     (if owner_is_destination then Done
      else if \<not> migration_in_flight then StartMigration
      else if destination_caught_up then Commit
      else AwaitCopy)"

datatype set_slot_action = ActMigrating u16 string | ActImporting u16 string | ActNode u16 string

definition apply_actions :: "apply_step \<Rightarrow> slot_move \<Rightarrow> set_slot_action list" where
  "apply_actions step mv =
     (case step of
        StartMigration \<Rightarrow> [ActMigrating (sm_slot mv) (dst_node_id mv), ActImporting (sm_slot mv) (src_node_id mv)]
      | Commit \<Rightarrow> [ActNode (sm_slot mv) (dst_node_id mv)]
      | AwaitCopy \<Rightarrow> []
      | Done \<Rightarrow> [])"

subsection \<open>Ranges\<close>

definition slots_owned :: "slot_map \<Rightarrow> nat \<Rightarrow> nat list" where
  "slots_owned m i = filter (\<lambda>slot. owner m slot = i) [0..<CLUSTER_SLOTS]"

definition expand :: "nat \<Rightarrow> (nat \<times> nat \<times> nat) list \<Rightarrow> nat list" where
  "expand i out = concat (map (\<lambda>(start, fin, o_idx). if o_idx = i then [start..<Suc fin] else []) out)"

definition open_run :: "nat \<Rightarrow> nat \<Rightarrow> (nat \<times> nat) option \<Rightarrow> nat list" where
  "open_run i k run = (case run of Some (start, o_idx) \<Rightarrow> if o_idx = i then [start..<k] else [] | None \<Rightarrow> [])"

lemma range_fold:
  assumes "i \<noteq> UNASSIGNED"
  shows "case fold (range_step m) [0..<k] ([], None) of (out, run) \<Rightarrow>
    expand i out @ open_run i k run = filter (\<lambda>slot. owner m slot = i) [0..<k] \<and>
    (\<forall>start o_idx. run = Some (start, o_idx) \<longrightarrow> start < k \<and> o_idx \<noteq> UNASSIGNED)"
proof (induction k)
  case (Suc k)
  obtain out run where st: "fold (range_step m) [0..<k] ([], None) = (out, run)" by fastforce
  with Suc show ?case
    using assms by (cases run) (auto simp: expand_def open_run_def Let_def split: if_splits)
qed (simp add: expand_def open_run_def)

lemma ranges_expand:
  assumes "i \<noteq> UNASSIGNED"
  shows "expand i (ranges m) = slots_owned m i"
proof -
  obtain out run where st: "fold (range_step m) [0..<CLUSTER_SLOTS] ([], None) = (out, run)" by fastforce
  moreover have "Suc (CLUSTER_SLOTS - 1) = CLUSTER_SLOTS" by (simp add: CLUSTER_SLOTS_def)
  ultimately show ?thesis
    using range_fold [OF assms, where m = m and k = CLUSTER_SLOTS]
    by (cases run) (auto simp: ranges_def slots_owned_def expand_def open_run_def simp del: fold.simps)
qed

lemma ranges_ordered: "list_all (\<lambda>(start, fin, _). start \<le> fin) (ranges m)"
proof -
  have inv: "case fold (range_step m) [0..<k] ([], None) of (out, run) \<Rightarrow>
      list_all (\<lambda>(start, fin, _). start \<le> fin) out \<and> (\<forall>start o_idx. run = Some (start, o_idx) \<longrightarrow> start < k)" for k
  proof (induction k)
    case (Suc k)
    obtain out run where "fold (range_step m) [0..<k] ([], None) = (out, run)" by fastforce
    with Suc show ?case
      by (cases run) (auto simp: Let_def less_Suc_eq_le [symmetric] split: if_splits)
  qed simp
  obtain out run where st: "fold (range_step m) [0..<CLUSTER_SLOTS] ([], None) = (out, run)" by fastforce
  show ?thesis
    using inv [of CLUSTER_SLOTS] unfolding st ranges_def Let_def by (cases run) auto
qed

lemma count_ranges:
  assumes "length cs = n" "list_all (\<lambda>(start, fin, _). start \<le> fin) rs"
  shows "fold (\<lambda>(start, fin, owner_idx) cs.
      if owner_idx < length cs then cs[owner_idx := cs ! owner_idx + (fin - start) + 1] else cs) rs cs =
    map (\<lambda>i. cs ! i + length (expand i rs)) [0..<n]"
  using assms
proof (induction rs arbitrary: cs)
  case Nil
  then show ?case by (auto simp: expand_def map_nth)
next
  case (Cons r rs)
  obtain s e j where r: "r = (s, e, j)" by (cases r)
  show ?case
    using Cons.prems by (subst fold_simps, subst Cons.IH) (auto simp: r expand_def nth_list_update)
qed

lemma collect_ranges:
  assumes "length ow = n"
  shows "fold (\<lambda>(start, fin, owner_idx) ow.
      if owner_idx < length ow then ow[owner_idx := ow ! owner_idx @ [start..<Suc fin]] else ow) rs ow =
    map (\<lambda>i. ow ! i @ expand i rs) [0..<n]"
  using assms
proof (induction rs arbitrary: ow)
  case Nil
  then show ?case by (auto simp: expand_def map_nth)
next
  case (Cons r rs)
  obtain s e j where r: "r = (s, e, j)" by (cases r)
  show ?case
    using Cons.prems by (subst fold_simps, subst Cons.IH) (auto simp: r expand_def nth_list_update)
qed

lemma owned_slots_eq:
  assumes "table_ok m"
  shows "owned_slots m = map (slots_owned m) [0..<length (table_nodes m)]"
proof -
  have "sorted (slots_owned m i)" for i
    by (simp add: slots_owned_def sorted_wrt_filter)
  moreover have "i < length (table_nodes m) \<Longrightarrow> i \<noteq> UNASSIGNED" for i
    using assms by simp
  ultimately show ?thesis
    by (auto simp: owned_slots_def collect_ranges [OF length_replicate] ranges_expand sorted_sort_id)
qed

subsection \<open>Carrying out moves\<close>

definition slot_set :: "slot_map \<Rightarrow> nat \<Rightarrow> nat set" where
  "slot_set m i = {slot. slot < CLUSTER_SLOTS \<and> owner m slot = i}"

lemma set_slots_owned: "set (slots_owned m i) = slot_set m i"
  by (auto simp: slots_owned_def slot_set_def)

lemma finite_slot_set [simp]: "finite (slot_set m i)"
  by (simp add: slot_set_def)

lemma card_slot_set: "card (slot_set m i) = length (slots_owned m i)"
proof -
  have "distinct (slots_owned m i)" by (simp add: slots_owned_def)
  then show ?thesis by (metis distinct_card set_slots_owned)
qed

text \<open>The moves carried out one by one: each ends with the ownership flip.\<close>

fun carry_out :: "slot_move list \<Rightarrow> slot_map \<Rightarrow> slot_map option" where
  "carry_out [] m = Some m"
| "carry_out (mv # moves) m =
     (case set_slot_node (sm_slot mv) (dst_node_id mv) m of Some (Inr m') \<Rightarrow> carry_out moves m' | _ \<Rightarrow> None)"

lemma carry_out_append: "carry_out (xs @ ys) m = Option.bind (carry_out xs m) (carry_out ys)"
  by (induction xs arbitrary: m) (auto split: option.splits sum.splits)

lemma carry_out_move:
  assumes "wf_map m" "i < length (table_nodes m)" "slot < CLUSTER_SLOTS"
  shows "\<exists>m'. carry_out [\<lparr>sm_slot = of_nat slot, src_node_id = src, dst_node_id = ne_id (table_nodes m ! i)\<rparr>] m = Some m' \<and>
    wf_map m' \<and> table_nodes m' = table_nodes m \<and> owner m' = (owner m)(slot := i)"
proof -
  have slot: "unat (of_nat slot :: u16) = slot" "in_range (of_nat slot)"
    using assms(3) by (simp_all add: in_range_def CLUSTER_SLOTS_def unat_of_nat)
  have t: "table_ok m" using assms(1) by blast
  obtain m' where m': "set_slot_node (of_nat slot) (ne_id (table_nodes m ! i)) m = Some (Inr m')"
      "table_nodes m' = table_nodes m" "owner m' = (owner m)(slot := i)"
    using set_slot_node_eq [OF t assms(2) refl slot(2)] slot(1) by simp
  moreover have "wf_map m'"
    by (rule wf_set_slot_node [OF assms(1) m'(1)])
  ultimately show ?thesis by simp
qed

lemma slot_set_move:
  assumes "owner m' = (owner m)(slot := r)" "slot \<in> slot_set m d" "d \<noteq> r"
  shows "slot_set m' i = (if i = d then slot_set m d - {slot} else if i = r then insert slot (slot_set m r) else slot_set m i)"
  using assms by (auto simp: slot_set_def)

lemma next_receiver_spec:
  "recv \<le> next_receiver surplus recv \<and>
   (\<forall>i. recv \<le> i \<and> i < next_receiver surplus recv \<longrightarrow> surplus ! i \<ge> 0) \<and>
   (next_receiver surplus recv < length surplus \<longrightarrow> surplus ! next_receiver surplus recv < 0)"
proof (induction surplus recv rule: next_receiver.induct)
  case (1 surplus recv)
  show ?case
  proof (cases "recv < length surplus \<and> surplus ! recv \<ge> 0")
    case True
    then have eq: "next_receiver surplus recv = next_receiver surplus (recv + 1)"
      by (subst next_receiver.simps) simp
    show ?thesis
      unfolding eq using 1 [OF True] True by (auto simp: Suc_le_eq) (metis le_neq_implies_less)+
  qed (subst (1 2 3 4) next_receiver.simps, auto)
qed

lemma no_receiver:
  assumes "\<forall>i < length surplus. i < recv \<longrightarrow> 0 \<le> surplus ! i" "\<not> next_receiver surplus recv < length surplus"
  shows "\<forall>x \<in> set surplus. 0 \<le> x"
proof
  fix x assume "x \<in> set surplus"
  then obtain i where i: "i < length surplus" "x = surplus ! i"
    by (auto simp: in_set_conv_nth)
  show "0 \<le> x"
    using assms next_receiver_spec [of recv surplus] i by (cases "i < recv") simp_all
qed

lemma sum_zero_nonneg:
  assumes "sum_list xs = (0 :: int)" "\<forall>x \<in> set xs. 0 \<le> x" "i < length xs"
  shows "xs ! i = 0"
  using assms by (metis nth_mem sum_list_nonneg_eq_0_iff)

lemma sum_list_update_int: "k < length xs \<Longrightarrow> sum_list (xs[k := x]) = sum_list xs + x - (xs ! k :: int)"
proof (induction xs arbitrary: k)
  case (Cons a xs)
  then show ?case by (cases k) auto
qed simp

subsection \<open>The donation loop\<close>

text \<open>
  The state of the loop: the moves so far lead from \<open>m\<close> to \<open>m'\<close>, the surplus of every node is what it owns there beyond
  its target, receivers below the cursor are filled, no node crosses its target, nodes from \<open>a\<close> on that started with a
  surplus still own what they did, and nodes before \<open>b\<close> have none left.
\<close>

definition balancing ::
    "slot_map \<Rightarrow> (nat \<Rightarrow> int) \<Rightarrow> (nat \<Rightarrow> int) \<Rightarrow> nat \<Rightarrow> nat \<Rightarrow> slot_map \<Rightarrow> int list \<Rightarrow> nat \<Rightarrow> slot_move list \<Rightarrow> bool" where
  "balancing m t s0 a b m' surplus recv moves \<longleftrightarrow>
     carry_out moves m = Some m' \<and> wf_map m' \<and> table_nodes m' = table_nodes m \<and>
     length surplus = length (table_nodes m) \<and> sum_list surplus = 0 \<and>
     (\<forall>i < length surplus. int (card (slot_set m' i)) = surplus ! i + t i) \<and>
     (\<forall>i < length surplus. i < recv \<longrightarrow> 0 \<le> surplus ! i) \<and>
     (\<forall>i < length surplus. s0 i \<le> 0 \<longrightarrow> surplus ! i \<le> 0) \<and>
     (\<forall>i < length surplus. 0 \<le> s0 i \<longrightarrow> 0 \<le> surplus ! i) \<and>
     (\<forall>i < length surplus. a \<le> i \<and> 0 \<le> s0 i \<longrightarrow> slot_set m' i = slot_set m i) \<and>
     (\<forall>i < length surplus. i < b \<longrightarrow> surplus ! i \<le> 0)"

lemma move_balances:
  assumes bal: "balancing m t s0 (Suc d) d m' surplus recv moves" and d: "d < length surplus" "0 < surplus ! d"
    and r: "r = next_receiver surplus recv" "r < length surplus" and slot: "slot \<in> slot_set m' d"
  shows "\<exists>m''. balancing m t s0 (Suc d) d m'' ((surplus[d := surplus ! d - 1])[r := surplus ! r + 1]) r
           (moves @ [\<lparr>sm_slot = of_nat slot, src_node_id = src, dst_node_id = ne_id (table_nodes m ! r)\<rparr>]) \<and>
         slot_set m'' d = slot_set m' d - {slot}"
proof -
  note inv = bal [unfolded balancing_def]
  have neg: "surplus ! r < 0" and below: "\<forall>i < r. 0 \<le> surplus ! i"
    using next_receiver_spec [of recv surplus] r inv d by (auto simp: not_le) (metis le_less_linear less_trans)
  have dr: "d \<noteq> r" using d(2) neg by auto
  have "slot < CLUSTER_SLOTS" using slot by (simp add: slot_set_def)
  then obtain m'' where m'': "carry_out [\<lparr>sm_slot = of_nat slot, src_node_id = src,
        dst_node_id = ne_id (table_nodes m ! r)\<rparr>] m' = Some m''"
      "wf_map m''" "table_nodes m'' = table_nodes m" "owner m'' = (owner m')(slot := r)"
    using carry_out_move [of m' r slot src] inv r(2) by auto
  note sets = slot_set_move [OF m''(4) slot dr]
  have "card (slot_set m'' d) = card (slot_set m' d) - 1" "0 < card (slot_set m' d)"
    using slot by (auto simp: sets card_gt_0_iff)
  moreover have "slot \<notin> slot_set m' r"
    using slot dr by (simp add: slot_set_def)
  then have "card (slot_set m'' r) = card (slot_set m' r) + 1"
    using dr by (simp add: sets)
  moreover have "\<not> 0 \<le> s0 r" "\<not> s0 d \<le> 0"
    using inv r(2) d neg by force+
  moreover have "sum_list ((surplus[d := surplus ! d - 1])[r := surplus ! r + 1]) = 0"
    using inv d(1) r(2) dr by (simp only: sum_list_update_int length_list_update nth_list_update_neq) simp
  ultimately have "balancing m t s0 (Suc d) d m'' ((surplus[d := surplus ! d - 1])[r := surplus ! r + 1]) r
      (moves @ [\<lparr>sm_slot = of_nat slot, src_node_id = src, dst_node_id = ne_id (table_nodes m ! r)\<rparr>])"
    unfolding balancing_def
    using inv m'' below d r(2) dr neg
    by (intro conjI allI impI) (auto simp: carry_out_append nth_list_update sets)
  then show ?thesis using sets by auto
qed

lemma donor_done:
  assumes "balancing m t s0 (Suc d) d m' surplus recv moves" "\<not> 0 < surplus ! d"
  shows "balancing m t s0 (Suc d) (Suc d) m' surplus recv moves"
proof -
  have "\<forall>i < length surplus. i < d \<longrightarrow> surplus ! i \<le> 0"
    using assms(1) unfolding balancing_def by (elim conjE) assumption
  then have "\<forall>i < length surplus. i < Suc d \<longrightarrow> surplus ! i \<le> 0"
    using assms(2) by (auto simp: less_Suc_eq)
  then show ?thesis
    using assms(1) unfolding balancing_def by (elim conjE) (intro conjI; assumption)
qed

lemma donate_balances:
  assumes "balancing m t s0 (Suc d) d m' surplus recv moves" "d < length (table_nodes m)"
    and "distinct slots" "0 < surplus ! d \<Longrightarrow> set slots = slot_set m' d" "\<And>i. 0 \<le> t i"
  shows "\<exists>m'' surplus' recv' moves'. donate (table_nodes m) d slots surplus recv moves = (surplus', recv', moves') \<and>
    balancing m t s0 (Suc d) (Suc d) m'' surplus' recv' moves'"
  using assms(1,3,4)
proof (induction slots arbitrary: m' surplus recv moves)
  case Nil
  then have "\<not> 0 < surplus ! d"
    using assms(2) assms(5) [of d] by (auto simp: balancing_def)
  then have "donate (table_nodes m) d [] surplus recv moves = (surplus, recv, moves)"
    by (subst donate.simps) simp
  moreover have "balancing m t s0 (Suc d) (Suc d) m' surplus recv moves"
    by (rule donor_done [OF Nil.prems(1) \<open>\<not> 0 < surplus ! d\<close>])
  ultimately show ?case by blast
next
  case (Cons slot slots)
  note inv = Cons.prems(1) [unfolded balancing_def]
  have len: "length surplus = length (table_nodes m)" and dl: "d < length surplus"
    using inv assms(2) by auto
  show ?case
  proof (cases "0 < surplus ! d")
    case False
    then have "donate (table_nodes m) d (slot # slots) surplus recv moves = (surplus, recv, moves)"
      by (subst donate.simps) simp
    moreover have "balancing m t s0 (Suc d) (Suc d) m' surplus recv moves"
      by (rule donor_done [OF Cons.prems(1) False])
    ultimately show ?thesis by blast
  next
    case True
    let ?r = "next_receiver surplus recv"
    have r: "?r < length surplus"
    proof (rule ccontr)
      assume "\<not> ?r < length surplus"
      then have "\<forall>x \<in> set surplus. 0 \<le> x"
        using inv by (intro no_receiver) auto
      then show False
        using sum_zero_nonneg [of surplus d] inv assms(2) True by simp
    qed
    let ?mv = "\<lparr>sm_slot = of_nat slot, src_node_id = ne_id (table_nodes m ! d), dst_node_id = ne_id (table_nodes m ! ?r)\<rparr>"
    let ?s = "(surplus[d := surplus ! d - 1])[?r := surplus ! ?r + 1]"
    have slot: "slot \<in> slot_set m' d"
      using Cons.prems(3) [OF True] by auto
    obtain m'' where m'': "balancing m t s0 (Suc d) d m'' ?s ?r (moves @ [?mv])" "slot_set m'' d = slot_set m' d - {slot}"
      using move_balances [OF Cons.prems(1) dl True refl r slot, of "ne_id (table_nodes m ! d)"] by blast
    have "?r \<noteq> d"
      using next_receiver_spec [of recv surplus] r True by auto
    then have "donate (table_nodes m) d (slot # slots) surplus recv moves =
        donate (table_nodes m) d slots ?s ?r (moves @ [?mv])"
      using True r len by (subst donate.simps) (simp add: Let_def)
    moreover have "set slots = slot_set m'' d"
      using Cons.prems(2,3) True m''(2) by auto
    ultimately show ?thesis
      using Cons.IH [OF m''(1)] Cons.prems(2) by simp
  qed
qed

lemma donors_balance:
  assumes "balancing m t s0 0 0 m surplus 0 []" "\<And>i. 0 \<le> t i" "k \<le> length (table_nodes m)"
  shows "case fold (\<lambda>donor (surplus, recv, moves). donate (table_nodes m) donor (slots_owned m donor) surplus recv moves)
      [0..<k] (surplus, 0, []) of (surplus', recv', moves') \<Rightarrow> \<exists>m'. balancing m t s0 k k m' surplus' recv' moves'"
  using assms(3)
proof (induction k)
  case 0
  show ?case by (simp, rule exI [of _ m], rule assms(1))
next
  case (Suc k)
  obtain surplus' recv' moves' where st: "fold (\<lambda>donor (surplus, recv, moves).
      donate (table_nodes m) donor (slots_owned m donor) surplus recv moves) [0..<k] (surplus, 0, []) = (surplus', recv', moves')"
    by (rule prod_cases3)
  obtain m' where bal: "balancing m t s0 k k m' surplus' recv' moves'"
    using Suc.IH Suc.prems unfolding st by auto
  then have weak: "balancing m t s0 (Suc k) k m' surplus' recv' moves'"
    by (auto simp: balancing_def)
  have "set (slots_owned m k) = slot_set m' k" if "0 < surplus' ! k"
  proof -
    have k: "k < length surplus'"
      using bal Suc.prems by (simp add: balancing_def)
    moreover have "\<not> s0 k \<le> 0"
      using bal k that unfolding balancing_def by (meson leD)
    ultimately show ?thesis
      using bal unfolding set_slots_owned balancing_def by auto
  qed
  moreover have "distinct (slots_owned m k)" by (simp add: slots_owned_def)
  ultimately obtain m'' surplus'' recv'' moves'' where
    "donate (table_nodes m) k (slots_owned m k) surplus' recv' moves' = (surplus'', recv'', moves'')"
    "balancing m t s0 (Suc k) (Suc k) m'' surplus'' recv'' moves''"
    using donate_balances [OF weak _ _ _ assms(2), of "slots_owned m k"] Suc.prems by auto
  then show ?case
    by (simp add: st) blast
qed

lemma sum_balanced_targets:
  assumes "0 < n" "n \<le> u32_max"
  shows "(\<Sum>i \<leftarrow> [0..<n]. balanced_target assigned n i) = assigned"
proof -
  have "(\<Sum>i \<leftarrow> [0..<k]. balanced_target assigned n i) = k * (assigned div n) + min k (assigned mod n)" if "k \<le> n" for k
    using that assms(2) by (induction k) (auto simp: balanced_target_def u32_or_max_def min_def)
  moreover have "min n (assigned mod n) = assigned mod n"
    using assms(1) by (simp add: min_absorb2 less_imp_le)
  ultimately show ?thesis by simp
qed

text \<open>The number of assigned slots, and the surplus every node starts with.\<close>

abbreviation (input) assigned_slots :: "slot_map \<Rightarrow> nat" where
  "assigned_slots m \<equiv> \<Sum>i \<leftarrow> [0..<length (table_nodes m)]. length (slots_owned m i)"

abbreviation (input) target_of :: "slot_map \<Rightarrow> nat \<Rightarrow> nat" where
  "target_of m i \<equiv> balanced_target (assigned_slots m) (length (table_nodes m)) i"

lemma table_length_u32: "table_ok m \<Longrightarrow> u32_or_max (length (table_nodes m)) = length (table_nodes m)"
  by (simp add: table_ok_def u32_or_max_def u32_max_def UNASSIGNED_def)

lemma owned_length_u32: "u32_or_max (length (slots_owned m i)) = length (slots_owned m i)"
  using length_filter_le [of "\<lambda>slot. owner m slot = i" "[0..<CLUSTER_SLOTS]"]
  by (simp add: slots_owned_def u32_or_max_def u32_max_def CLUSTER_SLOTS_def)

lemma rebalance_moves_eq:
  assumes "table_ok m" "2 \<le> length (table_nodes m)"
  shows "rebalance_moves m =
    snd (snd (fold (\<lambda>donor (surplus, recv, moves). donate (table_nodes m) donor (slots_owned m donor) surplus recv moves)
      [0..<length (table_nodes m)]
      (map (\<lambda>i. int (length (slots_owned m i)) - int (target_of m i)) [0..<length (table_nodes m)], 0, [])))"
proof -
  let ?n = "length (table_nodes m)"
  have owned: "owned_slots m = map (slots_owned m) [0..<?n]"
    by (rule owned_slots_eq [OF assms(1)])
  have loop: "fold (\<lambda>donor (surplus, recv, moves). donate (table_nodes m) donor (owned_slots m ! donor) surplus recv moves)
      [0..<?n] st = fold (\<lambda>donor (surplus, recv, moves). donate (table_nodes m) donor (slots_owned m donor) surplus recv moves)
      [0..<?n] st" for st
    by (rule fold_cong) (auto simp: owned)
  have start: "map (\<lambda>i. int (u32_or_max (length (owned_slots m ! i))) - int (balanced_target a b i)) [0..<?n] =
      map (\<lambda>i. int (length (slots_owned m i)) - int (balanced_target a b i)) [0..<?n]" for a b
    by (simp add: owned owned_length_u32)
  have sum: "sum_list (map (\<lambda>v. u32_or_max (length v)) (owned_slots m)) = assigned_slots m"
    by (simp add: owned owned_length_u32 comp_def)
  show ?thesis
    using assms(2) unfolding rebalance_moves_def Let_def loop sum table_length_u32 [OF assms(1)] start by simp
qed

lemma rebalance_plan_eq:
  assumes "table_ok m"
  shows "map target_slots (rebalance_plan m) = map (target_of m) [0..<length (table_nodes m)]"
    and "map current_slots (rebalance_plan m) = map (\<lambda>i. length (slots_owned m i)) [0..<length (table_nodes m)]"
proof -
  let ?n = "length (table_nodes m)"
  have "map (\<lambda>i. replicate ?n 0 ! i + length (expand i (ranges m))) [0..<?n] = map (\<lambda>i. length (slots_owned m i)) [0..<?n]"
    using assms by (auto simp: ranges_expand)
  then have cur: "fold (\<lambda>(start, fin, owner_idx) cs.
      if owner_idx < length cs then cs[owner_idx := cs ! owner_idx + (fin - start) + 1] else cs)
      (ranges m) (replicate ?n 0) = map (\<lambda>i. length (slots_owned m i)) [0..<?n]"
    using count_ranges [of "replicate ?n 0" ?n "ranges m"] ranges_ordered by simp
  show "map target_slots (rebalance_plan m) = map (target_of m) [0..<?n]"
    "map current_slots (rebalance_plan m) = map (\<lambda>i. length (slots_owned m i)) [0..<?n]"
    using assms unfolding rebalance_plan_def Let_def cur
    by (auto simp: table_length_u32 nth_enumerate_eq intro!: nth_equalityI)
qed

lemma balancing_start:
  assumes "wf_map m" "2 \<le> length (table_nodes m)"
  shows "balancing m (\<lambda>i. int (target_of m i)) (\<lambda>i. int (length (slots_owned m i)) - int (target_of m i)) 0 0 m
    (map (\<lambda>i. int (length (slots_owned m i)) - int (target_of m i)) [0..<length (table_nodes m)]) 0 []"
proof -
  let ?n = "length (table_nodes m)"
  have "?n \<le> u32_max"
    using assms(1) by (simp add: wf_map_def table_ok_def UNASSIGNED_def u32_max_def)
  then have "(\<Sum>i \<leftarrow> [0..<?n]. target_of m i) = assigned_slots m"
    using assms(2) by (intro sum_balanced_targets) auto
  moreover have "(\<Sum>i \<leftarrow> xs. int (f i) - int (g i)) = int (\<Sum>i \<leftarrow> xs. f i) - int (\<Sum>i \<leftarrow> xs. g i)"
    for f g :: "nat \<Rightarrow> nat" and xs
    by (induction xs) auto
  ultimately have "(\<Sum>i \<leftarrow> [0..<?n]. int (length (slots_owned m i)) - int (target_of m i)) = 0"
    by simp
  then show ?thesis
    using assms(1) by (simp add: balancing_def card_slot_set)
qed

lemma balancing_end:
  assumes "balancing m t s0 n n m' surplus recv moves" "n = length (table_nodes m)" "i < n"
  shows "int (card (slot_set m' i)) = t i"
proof -
  note inv = assms(1) [unfolded balancing_def]
  have "\<forall>x \<in> set (map uminus surplus). 0 \<le> x"
    using inv assms(2) by (auto simp: in_set_conv_nth)
  moreover have "sum_list (map uminus xs) = - sum_list xs" for xs :: "int list"
    by (induction xs) auto
  then have "sum_list (map uminus surplus) = 0"
    using inv by simp
  ultimately have "map uminus surplus ! i = 0"
    using assms(2,3) inv by (intro sum_zero_nonneg) auto
  then show ?thesis
    using inv assms(2,3) by auto
qed

text \<open>
  C18: Carrying out the moves that \<open>rebalance_moves\<close> plans succeeds, leaves every node with exactly the number of slots
  that \<open>rebalance_plan\<close> announced for it, and no two nodes differ by more than one slot.
\<close>
theorem rebalance_reaches_plan:
  assumes "wf_map m" "2 \<le> length (table_nodes m)"
  shows "\<exists>m'. carry_out (rebalance_moves m) m = Some m' \<and> wf_map m' \<and> table_nodes m' = table_nodes m \<and>
    map (\<lambda>i. length (slots_owned m' i)) [0..<length (table_nodes m)] = map target_slots (rebalance_plan m) \<and>
    (\<forall>i < length (table_nodes m). \<forall>j < length (table_nodes m).
       length (slots_owned m' i) \<le> length (slots_owned m' j) + 1)"
proof -
  let ?n = "length (table_nodes m)" and ?t = "\<lambda>i. int (target_of m i)"
  let ?s = "\<lambda>i. int (length (slots_owned m i)) - int (target_of m i)"
  have t: "table_ok m" using assms(1) by blast
  obtain surplus recv moves where fold: "fold (\<lambda>donor (surplus, recv, moves).
      donate (table_nodes m) donor (slots_owned m donor) surplus recv moves) [0..<?n] (map ?s [0..<?n], 0, []) =
      (surplus, recv, moves)"
    by (rule prod_cases3)
  have moves: "rebalance_moves m = moves"
    by (simp only: rebalance_moves_eq [OF t assms(2)] fold snd_conv)
  obtain m' where m': "balancing m ?t ?s ?n ?n m' surplus recv moves"
    using donors_balance [OF balancing_start [OF assms], of ?n] unfolding fold by auto
  have owned: "length (slots_owned m' i) = target_of m i" if "i < ?n" for i
    using balancing_end [OF m' refl that] by (simp add: card_slot_set)
  moreover have "map (\<lambda>i. length (slots_owned m' i)) [0..<?n] = map target_slots (rebalance_plan m)"
    unfolding rebalance_plan_eq(1) [OF t] using owned by simp
  ultimately show ?thesis
    using m' unfolding moves balancing_def by (auto simp: balanced_target_def)
qed

text \<open>A node and the peer it has met, which owns one slot.\<close>

abbreviation (input) demo_uneven :: slot_map where
  "demo_uneven \<equiv> meet \<lparr>ne_id = ''b'', ne_host = ''h'', ne_port = 7001\<rparr> (empty_self ''a'' ''h'' 7000)"

theorem rebalance_reaches_plan_witness:
  "\<exists>m m'. set_slot_node 5 ''b'' demo_uneven = Some (Inr m) \<and> carry_out (rebalance_moves m) m = Some m' \<and>
     map (\<lambda>i. length (slots_owned m' i)) [0, 1] = map target_slots (rebalance_plan m)"
proof -
  have wf: "wf_map demo_uneven"
    by (rule wf_meet [OF wf_empty_self]) (simp add: empty_self_def UNASSIGNED_def)
  then have t: "table_ok demo_uneven" by blast
  have nodes: "length (table_nodes demo_uneven) = 2" "ne_id (table_nodes demo_uneven ! 1) = ''b''"
    by (simp_all add: meet_def empty_self_def)
  have "in_range 5" by (simp add: in_range_def CLUSTER_SLOTS_def)
  then obtain m where m: "set_slot_node 5 ''b'' demo_uneven = Some (Inr m)" "table_nodes m = table_nodes demo_uneven"
    using set_slot_node_eq [OF t _ nodes(2)] nodes(1) by simp
  have n: "length (table_nodes m) = 2" by (simp add: m(2) nodes)
  have "wf_map m" by (rule wf_set_slot_node [OF wf m(1)])
  moreover have "[0..<2] = [0, 1 :: nat]" by (simp add: upt_rec)
  ultimately show ?thesis
    using rebalance_reaches_plan [of m] m(1) unfolding n by auto
qed

end
