(* ===== verification/Slot_Dedup.thy ===== *)
theory Slot_Dedup
  imports Slot_Routing
begin

text \<open>
  Collapsing the table entries that share an endpoint (\<open>dedup_nodes_by_endpoint\<close> of
  \<open>ironcache-cluster/src/lib.rs\<close>), and what it keeps: every redirect, every replica and this node's own identity.
\<close>

subsection \<open>The code\<close>

definition canonical_step :: "node_entry list \<Rightarrow> nat \<Rightarrow> nat \<Rightarrow> nat list \<Rightarrow> nat list" where
  "canonical_step ns self i canonical =
     (case List.find (\<lambda>j. canonical ! j = j \<and> same_endpoint (ns ! j) (ns ! i)) [0..<i] of
        None \<Rightarrow> canonical
      | Some j \<Rightarrow>
          if i = self then (map (\<lambda>c. if c = j then i else c) canonical)[i := i]
          else canonical[i := canonical ! j])"

definition canonical_of :: "node_entry list \<Rightarrow> nat \<Rightarrow> nat list" where
  "canonical_of ns self = fold (canonical_step ns self) [0..<length ns] [0..<length ns]"

definition compact_step ::
    "slot_map \<Rightarrow> nat list \<Rightarrow> nat \<Rightarrow> nat list \<times> node_entry list \<times> nat list \<times> nat \<Rightarrow> nat list \<times> node_entry list \<times> nat list \<times> nat" where
  "compact_step m canonical i st =
     (case st of (old_to_new, ns, es, next_new) \<Rightarrow>
        if canonical ! i = i
        then (old_to_new[i := next_new], ns @ [table_nodes m ! i], es @ [config_epochs m ! i], next_new + 1)
        else st)"

definition dedup_nodes_by_endpoint :: "slot_map \<Rightarrow> (nat \<times> slot_map) option" where
  "dedup_nodes_by_endpoint m =
     (let n = length (table_nodes m); canonical = canonical_of (table_nodes m) (self_idx m)
      in if \<not> list_ex (\<lambda>i. canonical ! i \<noteq> i) [0..<n] then Some (0, m)
         else if \<not> list_all (\<lambda>slot. cell_ok m (owner m slot) \<and> cell_ok m (replicas m slot) \<and> cell_ok m (mig_peer m slot))
                [0..<CLUSTER_SLOTS] \<or> self_idx m \<ge> n then None
         else
           let (old_to_new, ns, es, next_new) =
                 fold (compact_step m canonical) [0..<n] (replicate n UNASSIGNED, [], [], 0);
               remap = (\<lambda>idx. if idx = UNASSIGNED then idx else canonical ! idx);
               translate = (\<lambda>idx. if idx = UNASSIGNED then idx else old_to_new ! idx)
           in Some (n - length ns,
                m\<lparr>owner := (\<lambda>slot. translate (remap (owner m slot))),
                  replicas := (\<lambda>slot. translate (remap (replicas m slot))),
                  mig_peer := (\<lambda>slot. translate (remap (mig_peer m slot))),
                  self_idx := old_to_new ! (canonical ! self_idx m),
                  table_nodes := ns, config_epochs := es\<rparr>))"

subsection \<open>The kept entries\<close>

definition leads :: "nat list \<Rightarrow> nat \<Rightarrow> bool" where
  "leads canonical c \<longleftrightarrow> canonical ! c = c"

definition canonical_ok :: "node_entry list \<Rightarrow> nat \<Rightarrow> nat \<Rightarrow> nat list \<Rightarrow> bool" where
  "canonical_ok ns self k canonical \<longleftrightarrow>
     length canonical = length ns \<and>
     (\<forall>i < k. canonical ! i < k \<and> leads canonical (canonical ! i) \<and>
        same_endpoint (ns ! (canonical ! i)) (ns ! i)) \<and>
     (\<forall>i < k. \<forall>j < k. same_endpoint (ns ! i) (ns ! j) \<longrightarrow> canonical ! i = canonical ! j) \<and>
     (self < k \<longrightarrow> leads canonical self) \<and>
     (\<forall>i. k \<le> i \<and> i < length ns \<longrightarrow> leads canonical i)"

lemma canonical_okI:
  assumes "length canonical = length ns"
    and "\<And>i. i < k \<Longrightarrow> canonical ! i < k \<and> leads canonical (canonical ! i) \<and> same_endpoint (ns ! (canonical ! i)) (ns ! i)"
    and "\<And>i j. i < k \<Longrightarrow> j < k \<Longrightarrow> same_endpoint (ns ! i) (ns ! j) \<Longrightarrow> canonical ! i = canonical ! j"
    and "self < k \<Longrightarrow> leads canonical self" "\<And>i. k \<le> i \<Longrightarrow> i < length ns \<Longrightarrow> leads canonical i"
  shows "canonical_ok ns self k canonical"
  using assms unfolding canonical_ok_def by blast

lemma canonical_okD:
  assumes "canonical_ok ns self k canonical"
  shows "length canonical = length ns"
    and "i < k \<Longrightarrow> canonical ! i < k" "i < k \<Longrightarrow> leads canonical (canonical ! i)"
    and "i < k \<Longrightarrow> endpoint (ns ! (canonical ! i)) = endpoint (ns ! i)"
    and "i < k \<Longrightarrow> j < k \<Longrightarrow> endpoint (ns ! i) = endpoint (ns ! j) \<Longrightarrow> canonical ! i = canonical ! j"
    and "self < k \<Longrightarrow> leads canonical self" "k \<le> i \<Longrightarrow> i < length ns \<Longrightarrow> leads canonical i"
  using assms unfolding canonical_ok_def same_endpoint_iff by blast+

lemma canonical_fresh:
  assumes ok: "canonical_ok ns self k canonical" and k: "k < length ns"
    and fresh: "\<And>j. j < k \<Longrightarrow> leads canonical j \<Longrightarrow> endpoint (ns ! j) \<noteq> endpoint (ns ! k)"
  shows "canonical_ok ns self (Suc k) canonical"
proof -
  note D = canonical_okD [OF ok]
  have new: "endpoint (ns ! j) \<noteq> endpoint (ns ! k)" if "j < k" for j
    using fresh [of "canonical ! j"] D(2,3,4) [OF that] by simp
  have kk: "canonical ! k = k"
    using D(7) [of k] k by (simp add: leads_def)
  show ?thesis
  proof (rule canonical_okI)
    fix i assume "i < Suc k"
    then show "canonical ! i < Suc k \<and> leads canonical (canonical ! i) \<and> same_endpoint (ns ! (canonical ! i)) (ns ! i)"
      using D(2,3,4) [of i] kk by (cases "i = k") (auto simp: leads_def same_endpoint_iff)
  next
    fix i j assume "i < Suc k" "j < Suc k" "same_endpoint (ns ! i) (ns ! j)"
    then show "canonical ! i = canonical ! j"
      using D(5) [of i j] new [of i] new [of j] by (auto simp: less_Suc_eq same_endpoint_iff)
  next
    show "self < Suc k \<Longrightarrow> leads canonical self"
      using D(6) kk by (cases "self = k") (simp_all add: leads_def)
  qed (use D(1,7) in auto)
qed

lemma canonical_alias:
  assumes ok: "canonical_ok ns self k canonical" and k: "k < length ns" "k \<noteq> self"
    and j: "j < k" "leads canonical j" "endpoint (ns ! j) = endpoint (ns ! k)"
  shows "canonical_ok ns self (Suc k) (canonical[k := j])"
proof -
  note D = canonical_okD [OF ok]
  have old: "canonical[k := j] ! i = canonical ! i" if "i \<noteq> k" for i
    using that by simp
  have new: "canonical[k := j] ! k = j"
    using D(1) k by simp
  have leads: "leads (canonical[k := j]) i" if "leads canonical i" "i \<noteq> k" for i
    using that by (simp add: leads_def)
  have same: "canonical ! i = j" if "i < k" "endpoint (ns ! i) = endpoint (ns ! k)" for i
    using D(5) [OF that(1) j(1)] that(2) j(2,3) by (simp add: leads_def)
  show ?thesis
  proof (rule canonical_okI)
    fix i assume "i < Suc k"
    then show "canonical[k := j] ! i < Suc k \<and> leads (canonical[k := j]) (canonical[k := j] ! i) \<and>
        same_endpoint (ns ! (canonical[k := j] ! i)) (ns ! i)"
      using D(2,3,4) [of i] new j leads [of "canonical ! i"] leads [of j]
      by (cases "i = k") (auto simp: same_endpoint_iff)
  next
    fix i i' assume "i < Suc k" "i' < Suc k" "same_endpoint (ns ! i) (ns ! i')"
    then show "canonical[k := j] ! i = canonical[k := j] ! i'"
      using D(5) [of i i'] same [of i] same [of i'] new by (auto simp: less_Suc_eq same_endpoint_iff)
  next
    show "self < Suc k \<Longrightarrow> leads (canonical[k := j]) self"
      using leads [of self] D(6) k(2) by simp
  next
    show "Suc k \<le> i \<Longrightarrow> i < length ns \<Longrightarrow> leads (canonical[k := j]) i" for i
      using leads [of i] D(7) [of i] by simp
  qed (use D(1) in simp)
qed

lemma canonical_self:
  assumes ok: "canonical_ok ns k k canonical" and k: "k < length ns"
    and j: "j < k" "leads canonical j" "endpoint (ns ! j) = endpoint (ns ! k)"
  shows "canonical_ok ns k (Suc k) ((map (\<lambda>c. if c = j then k else c) canonical)[k := k])" (is "canonical_ok _ _ _ ?new")
proof -
  note D = canonical_okD [OF ok]
  have at_k: "?new ! k = k"
    using D(1) k by simp
  have old: "?new ! i = (if canonical ! i = j then k else canonical ! i)" if "i \<noteq> k" "i < length ns" for i
    using that D(1) by simp
  have group: "canonical ! i = j \<longleftrightarrow> endpoint (ns ! i) = endpoint (ns ! k)" if "i < k" for i
    using D(4) [OF that] D(5) [OF that j(1)] j(2,3) by (auto simp: leads_def)
  have leader: "leads ?new (canonical ! i)" if i: "i < k" "canonical ! i \<noteq> j" for i
  proof -
    have "canonical ! i \<noteq> k" "canonical ! i < length ns" using D(2) [OF i(1)] k by simp_all
    then show ?thesis
      using old [of "canonical ! i"] D(3) [OF i(1)] i(2) unfolding leads_def by simp
  qed
  show ?thesis
  proof (rule canonical_okI)
    fix i assume i: "i < Suc k"
    show "?new ! i < Suc k \<and> leads ?new (?new ! i) \<and> same_endpoint (ns ! (?new ! i)) (ns ! i)"
    proof (cases "i = k")
      case True
      then show ?thesis by (simp only: at_k leads_def same_endpoint_refl) simp
    next
      case False
      with i k have b: "i < k" "?new ! i = (if canonical ! i = j then k else canonical ! i)" using old [of i] by simp_all
      have "leads ?new k" by (simp only: leads_def at_k)
      then show ?thesis
        unfolding b(2) using D(2,4) [OF b(1)] group [OF b(1)] leader [OF b(1)] by (simp add: same_endpoint_iff)
    qed
  next
    fix i i' assume i: "i < Suc k" "i' < Suc k" "same_endpoint (ns ! i) (ns ! i')"
    have v: "?new ! x = (if endpoint (ns ! x) = endpoint (ns ! k) then k else canonical ! x)" if "x < Suc k" for x
      using old [of x] group [of x] at_k that k by (cases "x = k") simp_all
    show "?new ! i = ?new ! i'"
      unfolding v [OF i(1)] v [OF i(2)] using D(5) [of i i'] i by (auto simp: same_endpoint_iff less_Suc_eq)
  next
    show "leads ?new i" if "Suc k \<le> i" "i < length ns" for i
      using old [of i] D(7) [of i] that j(1) unfolding leads_def by simp
  next
    show "leads ?new k" by (simp only: leads_def at_k)
  qed (use D(1) in simp)
qed

lemma canonical_step_ok:
  assumes ok: "canonical_ok ns self k canonical" and k: "k < length ns"
  shows "canonical_ok ns self (Suc k) (canonical_step ns self k canonical)"
proof (cases "List.find (\<lambda>j. canonical ! j = j \<and> same_endpoint (ns ! j) (ns ! k)) [0..<k]")
  case None
  then have "canonical_ok ns self (Suc k) canonical"
    by (intro canonical_fresh [OF ok k]) (auto simp: find_None_iff leads_def same_endpoint_iff)
  with None show ?thesis by (simp add: canonical_step_def)
next
  case (Some j)
  then have j: "j < k" "canonical ! j = j" "endpoint (ns ! j) = endpoint (ns ! k)"
    by (auto simp: find_Some_iff same_endpoint_iff)
  then have l: "leads canonical j" by (simp add: leads_def)
  show ?thesis
  proof (cases "k = self")
    case True
    have "canonical_ok ns k k canonical" using ok True by simp
    from canonical_self [OF this k j(1) l j(3)] Some show ?thesis
      by (simp add: canonical_step_def True [symmetric] del: map_update)
  next
    case False
    with canonical_alias [OF ok k False j(1) l j(3)] Some j(2) show ?thesis
      by (simp add: canonical_step_def)
  qed
qed

lemma canonical_of_ok: "canonical_ok ns self (length ns) (canonical_of ns self)"
proof -
  have "k \<le> length ns \<Longrightarrow> canonical_ok ns self k (fold (canonical_step ns self) [0..<k] [0..<length ns])" for k
  proof (induction k)
    case 0
    show ?case by (rule canonical_okI) (simp_all add: leads_def)
  next
    case (Suc k)
    with canonical_step_ok [of ns self k] show ?case by simp
  qed
  then show ?thesis by (simp add: canonical_of_def)
qed

subsection \<open>Compaction\<close>

lemma compact_step_tuple:
  "compact_step m canonical i (old_to_new, ns, es, next_new) =
     (if leads canonical i
      then (old_to_new[i := next_new], ns @ [table_nodes m ! i], es @ [config_epochs m ! i], next_new + 1)
      else (old_to_new, ns, es, next_new))"
  by (simp add: compact_step_def leads_def)

lemma compaction:
  fixes canonical :: "nat list"
  assumes "k \<le> n"
  defines "kept \<equiv> filter (leads canonical) [0..<k]"
  obtains o2n where "fold (compact_step m canonical) [0..<k] (replicate n UNASSIGNED, [], [], 0) =
      (o2n, map (nth (table_nodes m)) kept, map (nth (config_epochs m)) kept, length kept)"
    "length o2n = n" "\<And>i. i < k \<Longrightarrow> leads canonical i \<Longrightarrow> o2n ! i < length kept \<and> kept ! (o2n ! i) = i"
  using assms(1) unfolding kept_def
proof (induction k arbitrary: thesis)
  case 0
  then show ?case by simp
next
  case (Suc k)
  let ?kept = "filter (leads canonical) [0..<k]"
  obtain o2n where o: "fold (compact_step m canonical) [0..<k] (replicate n UNASSIGNED, [], [], 0) =
      (o2n, map (nth (table_nodes m)) ?kept, map (nth (config_epochs m)) ?kept, length ?kept)"
    "length o2n = n" "\<And>i. i < k \<Longrightarrow> leads canonical i \<Longrightarrow> o2n ! i < length ?kept \<and> ?kept ! (o2n ! i) = i"
    using Suc.IH Suc.prems(2) by auto
  show ?case
  proof (cases "leads canonical k")
    case True
    show ?thesis
    proof (rule Suc.prems(1))
      show "fold (compact_step m canonical) [0..<Suc k] (replicate n UNASSIGNED, [], [], 0) =
          (o2n[k := length ?kept], map (nth (table_nodes m)) (filter (leads canonical) [0..<Suc k]),
           map (nth (config_epochs m)) (filter (leads canonical) [0..<Suc k]), length (filter (leads canonical) [0..<Suc k]))"
        using True o(1) by (simp add: compact_step_tuple)
      fix i assume "i < Suc k" "leads canonical i"
      then show "o2n[k := length ?kept] ! i < length (filter (leads canonical) [0..<Suc k]) \<and>
          filter (leads canonical) [0..<Suc k] ! (o2n[k := length ?kept] ! i) = i"
        using True o(2) o(3) [of i] Suc.prems(2) by (cases "i = k") (auto simp: nth_append less_Suc_eq)
    qed (use o(2) in simp)
  next
    case False
    show ?thesis
    proof (rule Suc.prems(1) [of o2n])
      show "o2n ! i < length (filter (leads canonical) [0..<Suc k]) \<and> filter (leads canonical) [0..<Suc k] ! (o2n ! i) = i"
        if "i < Suc k" "leads canonical i" for i
        using False o(3) [of i] that by (cases "i = k") simp_all
    qed (use False o(1,2) in \<open>simp_all add: compact_step_tuple\<close>)
  qed
qed

text \<open>The index map \<open>f\<close> takes every index of the old table to the entry of the new one with its endpoint.\<close>

definition collapses :: "(nat \<Rightarrow> nat) \<Rightarrow> slot_map \<Rightarrow> slot_map \<Rightarrow> bool" where
  "collapses f m m' \<longleftrightarrow>
     length (table_nodes m') \<le> length (table_nodes m) \<and> length (config_epochs m') = length (table_nodes m') \<and>
     (\<forall>i < length (table_nodes m). f i < length (table_nodes m') \<and> endpoint (table_nodes m' ! f i) = endpoint (table_nodes m ! i)) \<and>
     (\<forall>j < length (table_nodes m'). \<exists>i < length (table_nodes m). table_nodes m' ! j = table_nodes m ! i) \<and>
     distinct (map ne_id (table_nodes m')) \<and> distinct (map endpoint (table_nodes m')) \<and>
     self_idx m' = f (self_idx m) \<and> table_nodes m' ! self_idx m' = table_nodes m ! self_idx m \<and>
     (\<forall>slot < CLUSTER_SLOTS.
        owner m' slot = (if owner m slot = UNASSIGNED then UNASSIGNED else f (owner m slot)) \<and>
        replicas m' slot = (if replicas m slot = UNASSIGNED then UNASSIGNED else f (replicas m slot)) \<and>
        mig_peer m' slot = (if mig_peer m slot = UNASSIGNED then UNASSIGNED else f (mig_peer m slot))) \<and>
     mine m' = mine m \<and> mig_state m' = mig_state m"

lemma collapsesD:
  assumes "collapses f m m'"
  shows "length (table_nodes m') \<le> length (table_nodes m)" "length (config_epochs m') = length (table_nodes m')"
    "i < length (table_nodes m) \<Longrightarrow> f i < length (table_nodes m')"
    "i < length (table_nodes m) \<Longrightarrow> endpoint (table_nodes m' ! f i) = endpoint (table_nodes m ! i)"
    "i < length (table_nodes m') \<Longrightarrow> \<exists>k < length (table_nodes m). table_nodes m' ! i = table_nodes m ! k"
    "distinct (map ne_id (table_nodes m'))" "distinct (map endpoint (table_nodes m'))"
    "self_idx m' = f (self_idx m)" "table_nodes m' ! self_idx m' = table_nodes m ! self_idx m"
    "slot < CLUSTER_SLOTS \<Longrightarrow> owner m' slot = (if owner m slot = UNASSIGNED then UNASSIGNED else f (owner m slot))"
    "slot < CLUSTER_SLOTS \<Longrightarrow> replicas m' slot = (if replicas m slot = UNASSIGNED then UNASSIGNED else f (replicas m slot))"
    "slot < CLUSTER_SLOTS \<Longrightarrow> mig_peer m' slot = (if mig_peer m slot = UNASSIGNED then UNASSIGNED else f (mig_peer m slot))"
    "mine m' = mine m" "mig_state m' = mig_state m"
  using assms unfolding collapses_def by blast+

lemma dedup_some:
  assumes t: "table_ok m" and cells: "\<And>slot. slot < CLUSTER_SLOTS \<Longrightarrow> slot_ok m slot"
  obtains f m' where "dedup_nodes_by_endpoint m = Some (length (table_nodes m) - length (table_nodes m'), m')"
    "collapses f m m'"
proof -
  let ?ns = "table_nodes m" and ?n = "length (table_nodes m)"
  define canonical where "canonical = canonical_of ?ns (self_idx m)"
  note D = canonical_okD [OF canonical_of_ok [of ?ns "self_idx m"], folded canonical_def]
  have t': "distinct (map ne_id ?ns)" "self_idx m < ?n" "length (config_epochs m) = ?n" "?n \<le> UNASSIGNED"
    using t by (simp_all add: table_ok_def)
  show thesis
  proof (cases "list_ex (\<lambda>i. canonical ! i \<noteq> i) [0..<?n]")
    case False
    then have id: "canonical ! i = i" if "i < ?n" for i using that by (auto simp: list_ex_iff)
    have "i = j" if "i < ?n" "j < ?n" "endpoint (?ns ! i) = endpoint (?ns ! j)" for i j
      using D(5) [OF that] id [OF that(1)] id [OF that(2)] by simp
    then have "distinct (map endpoint ?ns)" by (auto simp: distinct_conv_nth)
    moreover have "dedup_nodes_by_endpoint m = Some (0, m)"
      using False by (simp add: dedup_nodes_by_endpoint_def Let_def canonical_def)
    ultimately show thesis
      by (intro that [of m id]) (use t' in \<open>auto simp: collapses_def\<close>)
  next
    case True
    let ?kept = "filter (leads canonical) [0..<?n]"
    obtain o2n where o: "fold (compact_step m canonical) [0..<?n] (replicate ?n UNASSIGNED, [], [], 0) =
        (o2n, map (nth ?ns) ?kept, map (nth (config_epochs m)) ?kept, length ?kept)"
      "length o2n = ?n" "\<And>i. i < ?n \<Longrightarrow> leads canonical i \<Longrightarrow> o2n ! i < length ?kept \<and> ?kept ! (o2n ! i) = i"
      using compaction [of ?n ?n m canonical] by blast
    define f where "f = (\<lambda>i. o2n ! (canonical ! i))"
    define g where "g = (\<lambda>idx. let r = (if idx = UNASSIGNED then idx else canonical ! idx) in if r = UNASSIGNED then r else o2n ! r)"
    define m' where "m' = m\<lparr>owner := (\<lambda>slot. g (owner m slot)), replicas := (\<lambda>slot. g (replicas m slot)),
      mig_peer := (\<lambda>slot. g (mig_peer m slot)), self_idx := f (self_idx m),
      table_nodes := map (nth ?ns) ?kept, config_epochs := map (nth (config_epochs m)) ?kept\<rparr>"
    have kept: "k \<in> set ?kept \<longleftrightarrow> k < ?n \<and> leads canonical k" for k by auto
    have f: "f i < length ?kept" "?kept ! f i = canonical ! i" if "i < ?n" for i
      using o(3) [of "canonical ! i"] D(2,3) [OF that] by (simp_all add: f_def)
    have le: "length ?kept \<le> ?n" by (rule order_trans [OF length_filter_le]) simp
    have "cell_ok m (owner m slot) \<and> cell_ok m (replicas m slot) \<and> cell_ok m (mig_peer m slot)" if "slot < CLUSTER_SLOTS" for slot
      using cells [OF that] by (simp add: slot_ok_def)
    then have "list_all (\<lambda>slot. cell_ok m (owner m slot) \<and> cell_ok m (replicas m slot) \<and> cell_ok m (mig_peer m slot)) [0..<CLUSTER_SLOTS]"
      by (auto simp: list_all_iff)
    then have ret: "dedup_nodes_by_endpoint m = Some (?n - length (table_nodes m'), m')"
      using True o(1) t'(2) unfolding dedup_nodes_by_endpoint_def Let_def canonical_def [symmetric] o(1)
      by (simp add: m'_def f_def g_def Let_def)
    have g: "g idx = (if idx = UNASSIGNED then UNASSIGNED else f idx)" if "cell_ok m idx" for idx
      using that D(2) [of idx] t'(4) by (auto simp: g_def f_def cell_ok_def Let_def)
    have len: "length (table_nodes m') = length ?kept" by (simp add: m'_def)
    have node: "table_nodes m' ! j = ?ns ! (?kept ! j)" if "j < length ?kept" for j
      using that by (simp add: m'_def)
    have inj_id: "inj_on (\<lambda>i. ne_id (?ns ! i)) (set ?kept)"
    proof (rule inj_onI)
      fix i j assume "i \<in> set ?kept" "j \<in> set ?kept" and e: "ne_id (?ns ! i) = ne_id (?ns ! j)"
      then have "i < ?n" "j < ?n" by simp_all
      then show "i = j" using nth_eq_iff_index_eq [OF t'(1)] e by simp
    qed
    have inj_endpoint: "inj_on (\<lambda>i. endpoint (?ns ! i)) (set ?kept)"
    proof (rule inj_onI)
      fix i j assume "i \<in> set ?kept" "j \<in> set ?kept" and e: "endpoint (?ns ! i) = endpoint (?ns ! j)"
      then have l: "i < ?n" "j < ?n" "canonical ! i = i" "canonical ! j = j" by (simp_all add: leads_def)
      have "canonical ! i = canonical ! j" by (rule D(5) [OF l(1,2) e])
      then show "i = j" by (simp only: l(3,4))
    qed
    show thesis
    proof (rule that [of m' f, OF ret], unfold collapses_def, intro conjI allI impI)
      show "distinct (map ne_id (table_nodes m'))" "distinct (map endpoint (table_nodes m'))"
        using inj_id inj_endpoint by (simp_all add: m'_def distinct_map comp_def)
      show "table_nodes m' ! self_idx m' = ?ns ! self_idx m"
        using f [OF t'(2)] D(6) t'(2) by (simp add: m'_def leads_def)
      show "\<exists>i < ?n. table_nodes m' ! j = ?ns ! i" if "j < length (table_nodes m')" for j
        using that nth_mem [of j ?kept] unfolding len by (intro exI [of _ "?kept ! j"]) (simp add: node)
    qed (use f node le D(4) cells g in \<open>simp_all add: len slot_ok_def, simp_all add: m'_def\<close>)
  qed
qed

subsection \<open>What collapsing keeps\<close>

lemma collapsed_table:
  assumes "table_ok m" and "collapses f m m'"
  shows "table_ok m'"
  using assms(1) collapsesD(1,2,6) [OF assms(2)] collapsesD(3) [OF assms(2), of "self_idx m"] collapsesD(8) [OF assms(2)]
  by (simp add: table_ok_def)

lemma collapsed_cell:
  assumes "table_ok m" and "collapses f m m'" and "cell_ok m idx"
  shows "cell_ok m' (if idx = UNASSIGNED then UNASSIGNED else f idx)"
    and "map_option endpoint (entry_of_cell m' (if idx = UNASSIGNED then UNASSIGNED else f idx)) = map_option endpoint (entry_of_cell m idx)"
    and "(if idx = UNASSIGNED then UNASSIGNED else f idx) = UNASSIGNED \<longleftrightarrow> idx = UNASSIGNED"
proof -
  note t' = collapsed_table [OF assms(1,2)] and f = collapsesD(3,4) [OF assms(2)]
  have "f idx \<noteq> UNASSIGNED \<and> idx \<noteq> UNASSIGNED" if "idx < length (table_nodes m)"
    using f(1) [OF that] that assms(1) t' by (auto simp: table_ok_def)
  then show "cell_ok m' (if idx = UNASSIGNED then UNASSIGNED else f idx)"
    "map_option endpoint (entry_of_cell m' (if idx = UNASSIGNED then UNASSIGNED else f idx)) = map_option endpoint (entry_of_cell m idx)"
    "(if idx = UNASSIGNED then UNASSIGNED else f idx) = UNASSIGNED \<longleftrightarrow> idx = UNASSIGNED"
    using assms(3) f [of idx] assms(1) t' by (auto simp: cell_ok_def simp del: table_index)
qed

lemma names_self_endpoint:
  "names_self n idx \<longleftrightarrow> map_option endpoint (entry_of_cell n idx) = Some (endpoint (table_nodes n ! self_idx n))"
  by (auto simp: names_self_iff same_endpoint_iff)

lemma is_replica_endpoint:
  "is_replica_of_self n slot =
    map_option (\<lambda>idx. map_option endpoint (entry_of_cell n idx) = map_option endpoint (me n) \<and> me n \<noteq> None) (load (replicas n) slot)"
  by (cases "load (replicas n) slot"; cases "entry_of_cell n (the (load (replicas n) slot))"; cases "me n")
    (simp_all add: is_replica_of_self_def me_def [symmetric] same_endpoint_iff)

lemma collapsed_wf:
  assumes "wf_map m" and "collapses f m m'"
  shows "wf_map m'"
proof -
  have t: "table_ok m" using assms(1) by blast
  note cell = collapsed_cell [OF t assms(2)] and self = collapsesD(8,9) [OF assms(2)] and cells = collapsesD(10,11,12) [OF assms(2)]
    and same = collapsesD(13,14) [OF assms(2)]
  have "slot_ok m' slot" if s: "slot < CLUSTER_SLOTS" for slot
    using wf_slot [OF assms(1) s] cell [of "owner m slot"] cell [of "replicas m slot"] cell [of "mig_peer m slot"]
    unfolding slot_ok_def cells [OF s] same names_self_endpoint self(2) by (auto split del: if_split)
  then show ?thesis using collapsed_table [OF t assms(2)] by (simp add: wf_map_def)
qed

lemma collapsed_endpoints:
  assumes "collapses f m m'"
  shows "endpoint ` set (table_nodes m') = endpoint ` set (table_nodes m)"
proof
  show "endpoint ` set (table_nodes m') \<subseteq> endpoint ` set (table_nodes m)"
    using collapsesD(5) [OF assms] by (auto simp: in_set_conv_nth) (metis image_eqI nth_mem)
  show "endpoint ` set (table_nodes m) \<subseteq> endpoint ` set (table_nodes m')"
    using collapsesD(3,4) [OF assms] by (auto simp: in_set_conv_nth) (metis image_eqI nth_mem)
qed

lemma collapsed_me:
  assumes "table_ok m" and "collapses f m m'"
  shows "me m' = me m"
  using assms(1) collapsed_table [OF assms] collapsesD(9) [OF assms(2)] by (simp add: me_def table_ok_def get_nth)

lemma collapsed_slot:
  assumes "wf_map m" and "collapses f m m'"
  shows "moved_target m' slot = moved_target m slot \<and> owns m' slot = owns m slot \<and>
    is_replica_of_self m' slot = is_replica_of_self m slot \<and> migration_state m' slot = migration_state m slot \<and>
    migration_peer_endpoint m' slot = migration_peer_endpoint m slot"
proof (cases "unat slot < CLUSTER_SLOTS")
  case True
  have t: "table_ok m" using assms(1) by blast
  note cell = collapsed_cell(2) [OF t assms(2)] and cells = collapsesD(10,11,12) [OF assms(2)] and same = collapsesD(13,14) [OF assms(2)]
  have ok: "cell_ok m (owner m (unat slot))" "cell_ok m (replicas m (unat slot))" "cell_ok m (mig_peer m (unat slot))"
    using wf_slot [OF assms(1) True] by (simp_all add: slot_ok_def)
  show ?thesis
    using True cell [OF ok(1)] cell [OF ok(2)] cell [OF ok(3)]
    by (simp add: moved_target_def owns_def migration_state_def migration_peer_endpoint_def is_replica_endpoint load_def in_range_def
        cells same collapsed_me [OF t assms(2)] split del: if_split cong: if_cong)
next
  case False
  then show ?thesis
    by (simp add: moved_target_def owns_def migration_state_def migration_peer_endpoint_def is_replica_endpoint load_def in_range_def)
qed

text \<open>
  C19: collapsing a well-formed map never panics and returns how many entries it removed. Afterwards no two entries share
  an endpoint, the set of endpoints is the same, this node's entry is the same, and no client sees a difference: every
  slot redirects to the same endpoint, is owned and replicated by this node exactly when it was, and migrates to the
  same peer.
\<close>

theorem dedup_keeps_routing:
  assumes "wf_map m"
  shows "\<exists>m'. dedup_nodes_by_endpoint m = Some (length (table_nodes m) - length (table_nodes m'), m') \<and>
    wf_map m' \<and> length (table_nodes m') \<le> length (table_nodes m) \<and> distinct (map endpoint (table_nodes m')) \<and>
    endpoint ` set (table_nodes m') = endpoint ` set (table_nodes m) \<and> me m' = me m \<and>
    (\<forall>slot. moved_target m' slot = moved_target m slot \<and> owns m' slot = owns m slot \<and>
       is_replica_of_self m' slot = is_replica_of_self m slot \<and>
       migration_state m' slot = migration_state m slot \<and>
       migration_peer_endpoint m' slot = migration_peer_endpoint m slot)"
proof -
  have t: "table_ok m" using assms by blast
  obtain f m' where ret: "dedup_nodes_by_endpoint m = Some (length (table_nodes m) - length (table_nodes m'), m')"
    and c: "collapses f m m'"
    using dedup_some [OF t wf_slot [OF assms]] by blast
  show ?thesis
    using ret collapsed_wf [OF assms c] collapsesD(1,7) [OF c] collapsed_endpoints [OF c] collapsed_me [OF t c] collapsed_slot [OF assms c]
    by blast
qed

theorem dedup_keeps_routing_witness:
  "\<exists>m'. dedup_nodes_by_endpoint (meet \<lparr>ne_id = ''b'', ne_host = ''h'', ne_port = 7000\<rparr> (empty_self ''a'' ''h'' 7000)) =
       Some (1, m') \<and> wf_map m' \<and> table_nodes m' = [\<lparr>ne_id = ''a'', ne_host = ''h'', ne_port = 7000\<rparr>]"
proof -
  let ?a = "\<lparr>ne_id = ''a'', ne_host = ''h'', ne_port = 7000\<rparr> :: node_entry"
  let ?b = "\<lparr>ne_id = ''b'', ne_host = ''h'', ne_port = 7000\<rparr> :: node_entry"
  let ?m = "meet ?b (empty_self ''a'' ''h'' 7000)"
  have wf: "wf_map ?m"
    by (rule wf_meet [OF wf_empty_self]) (simp add: empty_self_def UNASSIGNED_def)
  have nodes: "table_nodes ?m = [?a, ?b]" "self_idx ?m = 0"
    by (simp_all add: meet_def empty_self_def)
  have self0: "self_idx (empty_self ''a'' ''h'' 7000) = 0" by (simp add: empty_self_def)
  obtain m' where ret: "dedup_nodes_by_endpoint ?m = Some (length (table_nodes ?m) - length (table_nodes m'), m')"
    and wf': "wf_map m'" and len: "distinct (map endpoint (table_nodes m'))"
      "endpoint ` set (table_nodes m') = endpoint ` set (table_nodes ?m)" and me: "me m' = me ?m"
    using dedup_keeps_routing [OF wf] by blast
  have "card (set (map endpoint (table_nodes m'))) = length (table_nodes m')"
    using distinct_card [OF len(1)] by simp
  moreover have "set (map endpoint (table_nodes m')) = {(''h'', 7000)}"
    using len(2) by (simp add: nodes endpoint_def)
  ultimately have l: "length (table_nodes m') = Suc 0" by simp
  moreover have "self_idx m' = 0" "table_nodes m' ! 0 = ?a"
    using me wf_table [OF wf'] l by (auto simp: me_def table_ok_def nodes get_nth self0)
  ultimately have "table_nodes m' = [?a]" by (auto simp: length_Suc_conv)
  with ret wf' l show ?thesis by (auto simp: nodes)
qed

end
