(* ===== verification/Slot_Build.thy ===== *)
theory Slot_Build
  imports Slot_Routing
begin

text \<open>
  Building the slot map from a static topology (\<open>SlotMap::build\<close> of \<open>ironcache-cluster/src/lib.rs\<close>): the topologies it
  accepts, the map it returns for them, and when it panics instead of reporting an error. The code is in \<open>Slot_Map\<close>.
\<close>

subsection \<open>The slots a topology assigns\<close>

definition range_ok :: "u16 \<times> u16 \<Rightarrow> bool" where
  "range_ok = (\<lambda>(start, fin). start \<le> fin \<and> unat fin < CLUSTER_SLOTS)"

definition slots_of :: "(u16 \<times> u16) list \<Rightarrow> nat list" where
  "slots_of ranges = concat (map (\<lambda>(start, fin). [unat start..<Suc (unat fin)]) ranges)"

definition topology_slots :: "(node_entry \<times> (u16 \<times> u16) list) list \<Rightarrow> nat list" where
  "topology_slots ns = concat (map (slots_of \<circ> snd) ns)"

text \<open>A topology that covers every slot exactly once, with valid and distinct ids, this node's among them.\<close>

definition topology_ok :: "(node_entry \<times> (u16 \<times> u16) list) list \<Rightarrow> string \<Rightarrow> bool" where
  "topology_ok ns self_id \<longleftrightarrow>
     list_all (is_valid_node_id \<circ> ne_id \<circ> fst) ns \<and> distinct (map (ne_id \<circ> fst) ns) \<and>
     list_all (list_all range_ok \<circ> snd) ns \<and>
     distinct (topology_slots ns) \<and> set (topology_slots ns) = {0..<CLUSTER_SLOTS} \<and>
     self_id \<in> set (map (ne_id \<circ> fst) ns)"

fun owner_after :: "nat \<Rightarrow> (node_entry \<times> (u16 \<times> u16) list) list \<Rightarrow> nat slot_array \<Rightarrow> nat slot_array" where
  "owner_after k [] ow = ow"
| "owner_after k (n # ns) ow = owner_after (Suc k) ns (\<lambda>s. if s \<in> set (slots_of (snd n)) then k else ow s)"

lemma slots_of_simps [simp]:
  "slots_of [] = []" "slots_of ((a, b) # rs) = [unat a..<Suc (unat b)] @ slots_of rs"
  by (simp_all add: slots_of_def)

lemma topology_slots_simps [simp]:
  "topology_slots [] = []" "topology_slots (n # ns) = slots_of (snd n) @ topology_slots ns"
  by (simp_all add: topology_slots_def)

lemma owner_after_outside: "s \<notin> set (topology_slots ns) \<Longrightarrow> owner_after k ns ow s = ow s"
  by (induction ns arbitrary: k ow) auto

lemma owner_after_at:
  "distinct (topology_slots ns) \<Longrightarrow> i < length ns \<Longrightarrow> s \<in> set (slots_of (snd (ns ! i))) \<Longrightarrow> owner_after k ns ow s = k + i"
proof (induction ns arbitrary: k ow i)
  case (Cons n ns)
  show ?case
  proof (cases i)
    case 0
    with Cons.prems have "s \<notin> set (topology_slots ns)" "s \<in> set (slots_of (snd n))" by auto
    then show ?thesis by (simp add: owner_after_outside 0)
  next
    case (Suc j)
    with Cons show ?thesis by simp
  qed
qed simp

lemma topology_slots_node: "s \<in> set (topology_slots ns) \<longleftrightarrow> (\<exists>i < length ns. s \<in> set (slots_of (snd (ns ! i))))"
  by (simp add: topology_slots_def) (metis in_set_conv_nth)

subsection \<open>The claims\<close>

lemma bind_result:
  "(do { r \<leftarrow> x; (case r of Inl e \<Rightarrow> Some (Inl e) | Inr w \<Rightarrow> f w) }) = Some (Inr y) \<longleftrightarrow> (\<exists>w. x = Some (Inr w) \<and> f w = Some (Inr y))"
  by (cases x; cases "the x") auto

lemma claim_slots_ok:
  assumes "as_u16 idx = idx" "idx \<noteq> UNASSIGNED"
  shows "claim_slots entries i idx slots ow = Some (Inr ow') \<longleftrightarrow>
    distinct slots \<and> (\<forall>s \<in> set slots. ow s = UNASSIGNED) \<and> ow' = (\<lambda>s. if s \<in> set slots then idx else ow s)"
  using assms by (induction slots arbitrary: ow) (auto simp: bind_eq_Some_conv fun_eq_iff)

lemma claim_ranges_ok:
  assumes "as_u16 idx = idx" "idx \<noteq> UNASSIGNED"
  shows "claim_ranges entries i idx ranges ow = Some (Inr ow') \<longleftrightarrow>
    list_all range_ok ranges \<and> distinct (slots_of ranges) \<and> (\<forall>s \<in> set (slots_of ranges). ow s = UNASSIGNED) \<and>
    ow' = (\<lambda>s. if s \<in> set (slots_of ranges) then idx else ow s)"
proof (induction ranges arbitrary: ow)
  case Nil
  then show ?case by auto
next
  case (Cons r ranges)
  obtain a b where r: "r = (a, b)" by (cases r)
  let ?S = "[unat a..<Suc (unat b)]"
  let ?ow = "\<lambda>s. if s \<in> set ?S then idx else ow s"
  have "claim_ranges entries i idx (r # ranges) ow = Some (Inr ow') \<longleftrightarrow>
      range_ok r \<and> (\<forall>s \<in> set ?S. ow s = UNASSIGNED) \<and> claim_ranges entries i idx ranges ?ow = Some (Inr ow')"
    unfolding r claim_ranges.simps by (simp add: bind_result claim_slots_ok [OF assms] range_ok_def not_less not_le del: upt_Suc)
  also have "\<dots> \<longleftrightarrow> list_all range_ok (r # ranges) \<and> distinct (slots_of (r # ranges)) \<and>
      (\<forall>s \<in> set (slots_of (r # ranges)). ow s = UNASSIGNED) \<and>
      ow' = (\<lambda>s. if s \<in> set (slots_of (r # ranges)) then idx else ow s)"
    unfolding Cons.IH using assms(2) by (auto simp: r fun_eq_iff simp del: upt_Suc)
  finally show ?case .
qed

lemma claim_nodes_ok:
  assumes "length entries + length ns \<le> UNASSIGNED"
  shows "claim_nodes entries ns ow = Some (Inr (es, ow')) \<longleftrightarrow>
    list_all (is_valid_node_id \<circ> ne_id \<circ> fst) ns \<and> distinct (map (ne_id \<circ> fst) ns) \<and>
    set (map (ne_id \<circ> fst) ns) \<inter> ne_id ` set entries = {} \<and>
    list_all (list_all range_ok \<circ> snd) ns \<and> distinct (topology_slots ns) \<and>
    (\<forall>s \<in> set (topology_slots ns). ow s = UNASSIGNED) \<and>
    es = entries @ map fst ns \<and> ow' = owner_after (length entries) ns ow"
  using assms
proof (induction ns arbitrary: entries ow)
  case Nil
  then show ?case by auto
next
  case (Cons n ns)
  obtain e rs where n: "n = (e, rs)" by (cases n)
  let ?ow = "\<lambda>s. if s \<in> set (slots_of rs) then length entries else ow s"
  have idx: "as_u16 (length entries) = length entries" "length entries \<noteq> UNASSIGNED"
    using Cons.prems by (simp_all add: UNASSIGNED_def)
  have head: "claim_nodes entries (n # ns) ow = Some (Inr (es, ow')) \<longleftrightarrow>
      is_valid_node_id (ne_id e) \<and> ne_id e \<notin> ne_id ` set entries \<and> list_all range_ok rs \<and> distinct (slots_of rs) \<and>
      (\<forall>s \<in> set (slots_of rs). ow s = UNASSIGNED) \<and> claim_nodes (entries @ [e]) ns ?ow = Some (Inr (es, ow'))"
    unfolding n claim_nodes.simps by (simp add: bind_result claim_ranges_ok [OF idx] list_ex_key)
  have tail: "claim_nodes (entries @ [e]) ns ?ow = Some (Inr (es, ow')) \<longleftrightarrow>
    list_all (is_valid_node_id \<circ> ne_id \<circ> fst) ns \<and> distinct (map (ne_id \<circ> fst) ns) \<and>
    set (map (ne_id \<circ> fst) ns) \<inter> ne_id ` set (entries @ [e]) = {} \<and>
    list_all (list_all range_ok \<circ> snd) ns \<and> distinct (topology_slots ns) \<and>
    (\<forall>s \<in> set (topology_slots ns). ?ow s = UNASSIGNED) \<and>
    es = (entries @ [e]) @ map fst ns \<and> ow' = owner_after (length (entries @ [e])) ns ?ow"
    using Cons.prems by (intro Cons.IH) simp
  have free: "(\<forall>s \<in> set (slots_of rs). ow s = UNASSIGNED) \<and> (\<forall>s \<in> set (topology_slots ns). ?ow s = UNASSIGNED) \<longleftrightarrow>
      set (slots_of rs) \<inter> set (topology_slots ns) = {} \<and>
      (\<forall>s \<in> set (slots_of rs). ow s = UNASSIGNED) \<and> (\<forall>s \<in> set (topology_slots ns). ow s = UNASSIGNED)"
    using idx(2) by auto
  have ids: "ne_id e \<notin> ne_id ` set entries \<and> set (map (ne_id \<circ> fst) ns) \<inter> ne_id ` set (entries @ [e]) = {} \<longleftrightarrow>
      ne_id e \<notin> set (map (ne_id \<circ> fst) ns) \<and> set (map (ne_id \<circ> fst) (n # ns)) \<inter> ne_id ` set entries = {}"
    by (auto simp: n)
  show ?case
    unfolding head tail using free ids
    by (simp only: n list.map list.pred_inject distinct.simps topology_slots_simps distinct_append set_append ball_Un
        fst_conv snd_conv comp_def owner_after.simps append_assoc append.simps length_append_singleton) argo
qed

subsection \<open>What the builder returns\<close>

lemma build_ok_iff:
  assumes "length ns \<le> UNASSIGNED"
  shows "build ns self_id = Some (Inr m) \<longleftrightarrow>
    topology_ok ns self_id \<and> (\<exists>idx < length ns. ne_id (fst (ns ! idx)) = self_id \<and>
      m = \<lparr>table_nodes = map fst ns, config_epochs = replicate (length ns) 0,
           mine = (\<lambda>slot. owner_after 0 ns (\<lambda>_. UNASSIGNED) slot = idx), owner = owner_after 0 ns (\<lambda>_. UNASSIGNED),
           replicas = (\<lambda>_. UNASSIGNED), mig_state = (\<lambda>_. MIG_NONE), mig_peer = (\<lambda>_. UNASSIGNED),
           self_idx = idx, my_epoch = 0, current_epoch = 0\<rparr>)"
proof -
  let ?ow = "owner_after 0 ns (\<lambda>_. UNASSIGNED)"
  define found where "found = claim_nodes [] ns (\<lambda>_. UNASSIGNED)"
  have ok: "found = Some (Inr (es, ow)) \<longleftrightarrow>
      list_all (is_valid_node_id \<circ> ne_id \<circ> fst) ns \<and> distinct (map (ne_id \<circ> fst) ns) \<and>
      list_all (list_all range_ok \<circ> snd) ns \<and> distinct (topology_slots ns) \<and> es = map fst ns \<and> ow = ?ow" for es ow
    using claim_nodes_ok [of "[]" ns "\<lambda>_. UNASSIGNED" es ow] assms by (simp add: found_def)
  have gap: "List.find (\<lambda>slot. ?ow slot = UNASSIGNED) [0..<CLUSTER_SLOTS] = None \<longleftrightarrow> {0..<CLUSTER_SLOTS} \<subseteq> set (topology_slots ns)"
    if "distinct (topology_slots ns)"
  proof -
    have "?ow s = UNASSIGNED \<longleftrightarrow> s \<notin> set (topology_slots ns)" for s
      using owner_after_outside [of s ns 0] owner_after_at [OF that, of _ s 0] assms by (auto simp: topology_slots_node)
    then show ?thesis by (auto simp: find_None_iff)
  qed
  have bound: "set (topology_slots ns) \<subseteq> {0..<CLUSTER_SLOTS}" if "list_all (list_all range_ok \<circ> snd) ns"
    using that by (fastforce simp: topology_slots_def slots_of_def list_all_iff range_ok_def)
  let ?m = "\<lambda>idx. \<lparr>table_nodes = map fst ns, config_epochs = replicate (length ns) 0,
           mine = (\<lambda>slot. ?ow slot = idx), owner = ?ow,
           replicas = (\<lambda>_. UNASSIGNED), mig_state = (\<lambda>_. MIG_NONE), mig_peer = (\<lambda>_. UNASSIGNED),
           self_idx = idx, my_epoch = 0, current_epoch = 0\<rparr>"
  show ?thesis
  proof (cases "\<exists>es ow. found = Some (Inr (es, ow))")
    case False
    then have "build ns self_id \<noteq> Some (Inr m)"
      unfolding build_def found_def [symmetric] by (cases found; cases "the found") auto
    moreover have "\<not> topology_ok ns self_id"
      using False ok unfolding topology_ok_def by blast
    ultimately show ?thesis by blast
  next
    case True
    then have T: "list_all (is_valid_node_id \<circ> ne_id \<circ> fst) ns" "distinct (map (ne_id \<circ> fst) ns)"
        "list_all (list_all range_ok \<circ> snd) ns" "distinct (topology_slots ns)"
      and f: "found = Some (Inr (map fst ns, ?ow))"
      using ok by blast+
    have full: "List.find (\<lambda>slot. ?ow slot = UNASSIGNED) [0..<CLUSTER_SLOTS] = None \<longleftrightarrow> set (topology_slots ns) = {0..<CLUSTER_SLOTS}"
      using gap [OF T(4)] bound [OF T(3)] by blast
    have idx: "position (\<lambda>e. ne_id e = self_id) (map fst ns) = Some idx \<longleftrightarrow> idx < length ns \<and> ne_id (fst (ns ! idx)) = self_id" for idx
      using position_key_iff [of ne_id "map fst ns" self_id idx] T(2) by auto
    have none: "position (\<lambda>e. ne_id e = self_id) (map fst ns) = None \<longleftrightarrow> self_id \<notin> set (map (ne_id \<circ> fst) ns)"
      by (auto simp: position_None)
    have cast: "as_u16 idx = idx" if "idx < length ns" for idx
      using that assms by (simp add: UNASSIGNED_def)
    have b: "ns \<noteq> [] \<Longrightarrow> build ns self_id = (case List.find (\<lambda>slot. ?ow slot = UNASSIGNED) [0..<CLUSTER_SLOTS] of
        Some slot \<Rightarrow> Some (Inl (Gap slot))
      | None \<Rightarrow> (case position (\<lambda>e. ne_id e = self_id) (map fst ns) of None \<Rightarrow> Some (Inl (SelfNotPresent self_id))
                 | Some idx \<Rightarrow> Some (Inr (?m (as_u16 idx)))))"
      unfolding build_def found_def [symmetric] f by (simp split: option.split)
    have tok: "topology_ok ns self_id \<longleftrightarrow> set (topology_slots ns) = {0..<CLUSTER_SLOTS} \<and> self_id \<in> set (map (ne_id \<circ> fst) ns)"
      using T by (simp only: topology_ok_def simp_thms)
    consider "ns = []" | "ns \<noteq> []" "set (topology_slots ns) \<noteq> {0..<CLUSTER_SLOTS}"
      | "ns \<noteq> []" "set (topology_slots ns) = {0..<CLUSTER_SLOTS}" "self_id \<notin> set (map (ne_id \<circ> fst) ns)"
      | idx where "ns \<noteq> []" "set (topology_slots ns) = {0..<CLUSTER_SLOTS}" "idx < length ns" "ne_id (fst (ns ! idx)) = self_id"
    proof -
      have "\<exists>idx < length ns. ne_id (fst (ns ! idx)) = self_id" if "self_id \<in> set (map (ne_id \<circ> fst) ns)"
        using that unfolding in_set_conv_nth by auto
      with that show thesis by blast
    qed
    then show ?thesis
    proof cases
      case 1
      then show ?thesis by (simp add: build_def)
    next
      case 2
      then obtain s where "List.find (\<lambda>slot. ?ow slot = UNASSIGNED) [0..<CLUSTER_SLOTS] = Some s" using full by blast
      with 2 b tok show ?thesis by simp
    next
      case 3
      with full none have "List.find (\<lambda>slot. ?ow slot = UNASSIGNED) [0..<CLUSTER_SLOTS] = None"
        "position (\<lambda>e. ne_id e = self_id) (map fst ns) = None" by blast+
      with 3 b tok show ?thesis by simp
    next
      case 4
      have p: "position (\<lambda>e. ne_id e = self_id) (map fst ns) = Some idx" using idx 4 by blast
      then have top: "topology_ok ns self_id" using tok 4 none by (metis option.distinct(1))
      have res: "build ns self_id = Some (Inr (?m idx))" using b 4 full p cast by simp
      have "(\<exists>j < length ns. ne_id (fst (ns ! j)) = self_id \<and> m = M j) \<longleftrightarrow> M idx = m" for M
        using idx p by (metis option.inject)
      from this [of ?m] show ?thesis
        unfolding res by (simp only: top option.inject sum.inject simp_thms)
    qed
  qed
qed

lemma topology_ok_self:
  assumes "topology_ok ns self_id"
  shows "\<exists>idx < length ns. ne_id (fst (ns ! idx)) = self_id"
proof -
  have "self_id \<in> set (map (ne_id \<circ> fst) ns)" using assms by (simp only: topology_ok_def)
  then show ?thesis unfolding in_set_conv_nth by auto
qed

text \<open>The only index the builder can miss is the node's own, which is pushed after its ranges.\<close>

lemma claim_slots_panic:
  assumes "\<And>s. ow s = UNASSIGNED \<or> ow s < length entries \<or> s \<in> claimed" and "claim_slots entries i idx slots ow = None"
  shows "\<not> (distinct slots \<and> set slots \<inter> claimed = {})"
  using assms
proof (induction slots arbitrary: ow claimed)
  case (Cons slot slots)
  show ?case
  proof (cases "ow slot = UNASSIGNED")
    case True
    have "\<not> (distinct slots \<and> set slots \<inter> insert slot claimed = {})"
    proof (rule Cons.IH)
      show "claim_slots entries i idx slots (ow(slot := as_u16 idx)) = None" using Cons.prems(2) True by simp
    qed (use Cons.prems(1) in auto)
    then show ?thesis by auto
  next
    case False
    then have "\<not> ow slot < length entries" using Cons.prems(2) by (auto simp: get_nth)
    then show ?thesis using False Cons.prems(1) [of slot] by auto
  qed
qed simp

lemma claim_ranges_panic:
  assumes "as_u16 idx = idx" "idx \<noteq> UNASSIGNED"
    and "\<And>s. ow s = UNASSIGNED \<or> ow s < length entries \<or> s \<in> claimed" and "claim_ranges entries i idx ranges ow = None"
  shows "\<not> (distinct (slots_of ranges) \<and> set (slots_of ranges) \<inter> claimed = {})"
  using assms(3,4)
proof (induction ranges arbitrary: ow claimed)
  case (Cons r ranges)
  obtain a b where r: "r = (a, b)" by (cases r)
  let ?S = "[unat a..<Suc (unat b)]"
  show ?case
  proof (cases "claim_slots entries i idx ?S ow")
    case None
    with claim_slots_panic [OF Cons.prems(1) None] show ?thesis by (auto simp: r simp del: upt_Suc)
  next
    case (Some res)
    then obtain ow1 where ow1: "claim_slots entries i idx ?S ow = Some (Inr ow1)" "claim_ranges entries i idx ranges ow1 = None"
      using Cons.prems(2) by (cases res) (simp_all add: r del: upt_Suc split: if_split_asm)
    then have "ow1 = (\<lambda>s. if s \<in> set ?S then idx else ow s)" using claim_slots_ok [OF assms(1,2)] by blast
    then have "ow1 s = UNASSIGNED \<or> ow1 s < length entries \<or> s \<in> set ?S \<union> claimed" for s
      using Cons.prems(1) [of s] by auto
    from Cons.IH [OF this ow1(2)] show ?thesis by (auto simp: r simp del: upt_Suc)
  qed
qed simp

lemma claim_nodes_panic:
  assumes "length entries + length ns \<le> UNASSIGNED" "\<And>s. ow s = UNASSIGNED \<or> ow s < length entries"
    and "claim_nodes entries ns ow = None"
  shows "\<exists>n \<in> set ns. \<not> distinct (slots_of (snd n))"
  using assms
proof (induction ns arbitrary: entries ow)
  case (Cons n ns)
  obtain e rs where n: "n = (e, rs)" by (cases n)
  have idx: "as_u16 (length entries) = length entries" "length entries \<noteq> UNASSIGNED"
    using Cons.prems(1) by (simp_all add: UNASSIGNED_def)
  show ?case
  proof (cases "claim_ranges entries (ne_id e) (length entries) rs ow")
    case None
    with claim_ranges_panic [OF idx _ None, of "{}"] Cons.prems(2) show ?thesis by (auto simp: n)
  next
    case (Some res)
    then obtain ow1 where ow1: "claim_ranges entries (ne_id e) (length entries) rs ow = Some (Inr ow1)"
        "claim_nodes (entries @ [e]) ns ow1 = None"
      using Cons.prems(3) by (cases res) (auto simp: n split: if_splits)
    then have "ow1 = (\<lambda>s. if s \<in> set (slots_of rs) then length entries else ow s)" using claim_ranges_ok [OF idx] by blast
    then have "ow1 s = UNASSIGNED \<or> ow1 s < length (entries @ [e])" for s
      using Cons.prems(2) [of s] by auto
    from Cons.IH [OF _ this ow1(2)] Cons.prems(1) show ?thesis by auto
  qed
qed simp

lemma build_panic:
  assumes "length ns \<le> UNASSIGNED" and "build ns self_id = None"
  shows "\<exists>n \<in> set ns. \<not> distinct (slots_of (snd n))"
proof -
  have "claim_nodes [] ns (\<lambda>_. UNASSIGNED) = None"
  proof (rule ccontr)
    assume "claim_nodes [] ns (\<lambda>_. UNASSIGNED) \<noteq> None"
    then obtain res where "claim_nodes [] ns (\<lambda>_. UNASSIGNED) = Some res" by blast
    with assms(2) show False
      unfolding build_def by (cases res) (simp_all split: if_split_asm option.split_asm prod.split_asm)
  qed
  with assms(1) claim_nodes_panic [of "[]" ns "\<lambda>_. UNASSIGNED"] show ?thesis by simp
qed

text \<open>The map of an accepted topology.\<close>

lemma build_map:
  assumes "length ns \<le> UNASSIGNED" and "build ns self_id = Some (Inr m)"
  obtains idx where "idx < length ns" "ne_id (fst (ns ! idx)) = self_id" "topology_ok ns self_id" "table_ok m"
    "table_nodes m = map fst ns" "self_idx m = idx" "owner m = owner_after 0 ns (\<lambda>_. UNASSIGNED)"
    "mine m = (\<lambda>slot. owner_after 0 ns (\<lambda>_. UNASSIGNED) slot = idx)"
    "replicas m = (\<lambda>_. UNASSIGNED)" "mig_state m = (\<lambda>_. MIG_NONE)" "mig_peer m = (\<lambda>_. UNASSIGNED)"
proof -
  let ?ow = "owner_after 0 ns (\<lambda>_. UNASSIGNED)"
  from assms(2) obtain idx where top: "topology_ok ns self_id" and idx: "idx < length ns" "ne_id (fst (ns ! idx)) = self_id"
    and m: "m = \<lparr>table_nodes = map fst ns, config_epochs = replicate (length ns) 0,
           mine = (\<lambda>slot. ?ow slot = idx), owner = ?ow,
           replicas = (\<lambda>_. UNASSIGNED), mig_state = (\<lambda>_. MIG_NONE), mig_peer = (\<lambda>_. UNASSIGNED),
           self_idx = idx, my_epoch = 0, current_epoch = 0\<rparr>"
    unfolding build_ok_iff [OF assms(1)] by blast
  have "distinct (map (ne_id \<circ> fst) ns)" using top by (simp only: topology_ok_def)
  then have "table_ok m" using idx(1) assms(1) by (simp add: table_ok_def m)
  then show ?thesis using top idx by (intro that [of idx]) (simp_all add: m)
qed

lemma topology_owner:
  assumes "topology_ok ns self_id" and "i < length ns" and "s \<in> set (slots_of (snd (ns ! i)))"
  shows "owner_after 0 ns (\<lambda>_. UNASSIGNED) s = i"
proof -
  have "distinct (topology_slots ns)" using assms(1) by (simp only: topology_ok_def)
  from owner_after_at [OF this assms(2,3), of 0] show ?thesis by simp
qed

lemma topology_slot_set: "topology_ok ns self_id \<Longrightarrow> set (topology_slots ns) = {0..<CLUSTER_SLOTS}"
  by (simp only: topology_ok_def)

lemma build_routes:
  assumes "length ns \<le> UNASSIGNED" and "build ns self_id = Some (Inr m)"
    and i: "i < length ns" "unat slot \<in> set (slots_of (snd (ns ! i)))"
  shows "moved_target m slot = Some (Some (endpoint (fst (ns ! i)))) \<and> owns m slot = Some (ne_id (fst (ns ! i)) = self_id)"
proof -
  obtain idx where idx: "idx < length ns" "ne_id (fst (ns ! idx)) = self_id" and top: "topology_ok ns self_id" and t: "table_ok m"
    and f: "table_nodes m = map fst ns" "self_idx m = idx" "owner m = owner_after 0 ns (\<lambda>_. UNASSIGNED)"
      "mine m = (\<lambda>slot. owner_after 0 ns (\<lambda>_. UNASSIGNED) slot = idx)"
    by (rule build_map [OF assms(1,2)])
  have "distinct (map (ne_id \<circ> fst) ns)" using top by (simp only: topology_ok_def)
  then have inj: "ne_id (fst (ns ! i)) = self_id \<longleftrightarrow> i = idx"
    using idx i(1) by (auto simp: distinct_conv_nth)
  have "unat slot \<in> set (topology_slots ns)" using i topology_slots_node by blast
  then have r: "in_range slot" unfolding topology_slot_set [OF top] by (simp add: in_range_def)
  have "entry_of_cell m i = Some (fst (ns ! i))" using t i(1) by (simp add: f)
  with r topology_owner [OF top i] inj show ?thesis
    by (simp add: moved_target_def owns_def load_def f)
qed

lemma build_wf:
  assumes "length ns \<le> UNASSIGNED" and "build ns self_id = Some (Inr m)" and d: "distinct (map (endpoint \<circ> fst) ns)"
  shows "wf_map m"
proof -
  obtain idx where idx: "idx < length ns" and top: "topology_ok ns self_id" and t: "table_ok m"
    and f: "table_nodes m = map fst ns" "self_idx m = idx" "owner m = owner_after 0 ns (\<lambda>_. UNASSIGNED)"
      "mine m = (\<lambda>slot. owner_after 0 ns (\<lambda>_. UNASSIGNED) slot = idx)"
      "replicas m = (\<lambda>_. UNASSIGNED)" "mig_state m = (\<lambda>_. MIG_NONE)" "mig_peer m = (\<lambda>_. UNASSIGNED)"
    by (rule build_map [OF assms(1,2)])
  have "slot_ok m s" if "s < CLUSTER_SLOTS" for s
  proof -
    have "s \<in> set (topology_slots ns)" using that unfolding topology_slot_set [OF top] by simp
    then obtain i where i: "i < length ns" "s \<in> set (slots_of (snd (ns ! i)))" using topology_slots_node by blast
    have "endpoint (fst (ns ! i)) = endpoint (fst (ns ! idx)) \<longleftrightarrow> i = idx"
      using d i(1) idx by (auto simp: distinct_conv_nth)
    then show ?thesis
      using t i(1) idx topology_owner [OF top i] by (simp add: slot_ok_def f cell_ok_def names_self_def same_endpoint_iff)
  qed
  with t show ?thesis by (simp add: wf_map_def)
qed

text \<open>
  C20: the builder accepts exactly the topologies that give every slot to exactly one node, with valid and distinct ids
  and this node among them. The map it returns redirects every slot to the node whose ranges hold it, and says it is
  owned here exactly when that node is this one; when no two nodes share an endpoint the map is well formed.
\<close>

theorem build_accepts:
  assumes "length ns \<le> UNASSIGNED"
  shows "((\<exists>m. build ns self_id = Some (Inr m)) \<longleftrightarrow> topology_ok ns self_id) \<and>
    (\<forall>m. build ns self_id = Some (Inr m) \<longrightarrow>
      table_ok m \<and> table_nodes m = map fst ns \<and> map_option ne_id (me m) = Some self_id \<and>
      (\<forall>i < length ns. \<forall>slot. unat slot \<in> set (slots_of (snd (ns ! i))) \<longrightarrow>
         moved_target m slot = Some (Some (endpoint (fst (ns ! i)))) \<and>
         owns m slot = Some (ne_id (fst (ns ! i)) = self_id)) \<and>
      (distinct (map (endpoint \<circ> fst) ns) \<longrightarrow> wf_map m))"
proof (intro conjI allI impI)
  show "(\<exists>m. build ns self_id = Some (Inr m)) \<longleftrightarrow> topology_ok ns self_id"
    unfolding build_ok_iff [OF assms] using topology_ok_self by blast
next
  fix m assume b: "build ns self_id = Some (Inr m)"
  show "table_ok m" "table_nodes m = map fst ns" by (rule build_map [OF assms b]; simp)+
  show "map_option ne_id (me m) = Some self_id"
    by (rule build_map [OF assms b]) (simp add: me_def get_nth)
  show "moved_target m slot = Some (Some (endpoint (fst (ns ! i))))" "owns m slot = Some (ne_id (fst (ns ! i)) = self_id)"
    if "i < length ns" "unat slot \<in> set (slots_of (snd (ns ! i)))" for i slot
    using build_routes [OF assms b that] by simp_all
  show "wf_map m" if "distinct (map (endpoint \<circ> fst) ns)"
    by (rule build_wf [OF assms b that])
qed

definition full_topology :: "(node_entry \<times> (u16 \<times> u16) list) list" where
  "full_topology = [(\<lparr>ne_id = replicate 40 CHR ''a'', ne_host = ''h'', ne_port = 7000\<rparr>, [(0, 8191)]),
                    (\<lparr>ne_id = replicate 40 CHR ''b'', ne_host = ''h'', ne_port = 7001\<rparr>, [(8192, 16383)])]"

theorem build_accepts_witness:
  "\<exists>m. build full_topology (replicate 40 CHR ''a'') = Some (Inr m) \<and> wf_map m \<and>
     moved_target m 9000 = Some (Some (''h'', 7001)) \<and> owns m 9000 = Some False \<and> owns m 12 = Some True"
proof -
  have s: "topology_slots full_topology = [0..<16384]"
    using upt_add_eq_append [of 0 8192 8192] by (simp add: full_topology_def del: upt_Suc upt_rec_numeral)
  have ok: "topology_ok full_topology (replicate 40 CHR ''a'')"
    unfolding topology_ok_def s
    by (simp add: full_topology_def is_valid_node_id_def list_all_iff range_ok_def CLUSTER_SLOTS_def del: upt_Suc upt_rec_numeral)
  note b = build_accepts [of full_topology "replicate 40 CHR ''a''"]
  have len: "length full_topology \<le> UNASSIGNED" by (simp add: full_topology_def UNASSIGNED_def)
  obtain m where m: "build full_topology (replicate 40 CHR ''a'') = Some (Inr m)" using b [OF len] ok by blast
  have "wf_map m" using b [OF len] m by (simp add: full_topology_def endpoint_def)
  moreover have "moved_target m slot = Some (Some (endpoint (fst (full_topology ! i)))) \<and>
      owns m slot = Some (ne_id (fst (full_topology ! i)) = replicate 40 CHR ''a'')"
    if "i < length full_topology" "unat slot \<in> set (slots_of (snd (full_topology ! i)))" for i slot
    using b [OF len] m that by blast
  from this [of 0 12] this [of 1 9000]
  have "moved_target m 9000 = Some (Some (''h'', 7001)) \<and> owns m 9000 = Some False \<and> owns m 12 = Some True"
    by (simp add: full_topology_def endpoint_def del: upt_Suc upt_rec_numeral)
  ultimately show ?thesis using m by blast
qed

text \<open>
  C38: the builder panics only on a topology in which one node's own ranges overlap, and it does panic on the
  topology of one node with two overlapping ranges, where two nodes that overlap get the \<open>Overlap\<close> error: the first owner
  is looked up in the table before the node being read is pushed to it.
\<close>

theorem build_panics_on_self_overlap:
  "(length ns \<le> UNASSIGNED \<and> build ns self_id = None \<longrightarrow> (\<exists>n \<in> set ns. \<not> distinct (slots_of (snd n)))) \<and>
   build [(\<lparr>ne_id = replicate 40 CHR ''a'', ne_host = h, ne_port = p\<rparr>, [(0, 5), (3, 8)])] self_id = None"
proof
  show "length ns \<le> UNASSIGNED \<and> build ns self_id = None \<longrightarrow> (\<exists>n \<in> set ns. \<not> distinct (slots_of (snd n)))"
    using build_panic by blast
  have "[0..<Suc 5] = [0, 1, 2, 3, 4, 5]" "[3..<Suc 8] = [3, 4, 5, 6, 7, 8]" by (simp_all add: upt_rec)
  then show "build [(\<lparr>ne_id = replicate 40 CHR ''a'', ne_host = h, ne_port = p\<rparr>, [(0, 5), (3, 8)])] self_id = None"
    by (simp add: build_def is_valid_node_id_def list_all_iff UNASSIGNED_def CLUSTER_SLOTS_def get_def del: upt_Suc)
qed

theorem build_panics_on_self_overlap_witness:
  "build [(\<lparr>ne_id = replicate 40 CHR ''a'', ne_host = ''h'', ne_port = 7000\<rparr>, [(0, 5), (3, 8)])] ''x'' = None \<and>
   (\<exists>n \<in> set [(\<lparr>ne_id = replicate 40 CHR ''a'', ne_host = ''h'', ne_port = 7000\<rparr> :: node_entry, [(0, 5), (3, 8 :: u16)])].
      \<not> distinct (slots_of (snd n)))"
proof -
  let ?ns = "[(\<lparr>ne_id = replicate 40 CHR ''a'', ne_host = ''h'', ne_port = 7000\<rparr> :: node_entry, [(0, 5), (3, 8 :: u16)])]"
  note p = build_panics_on_self_overlap [of ?ns "''x''" "''h''" 7000]
  have "length ?ns \<le> UNASSIGNED" by (simp add: UNASSIGNED_def)
  with p show ?thesis by blast
qed

end
