(* ===== verification/Upgrade_Plan.thy ===== *)
theory Upgrade_Plan
  imports Prelude
begin

text \<open>
  The sequencing of a rolling upgrade: the replica lag gate of \<open>ironcache-repl/src/lag.rs\<close>, and the next-step decision
  and the driving loop of \<open>ironcache-repl/src/upgrade_plan.rs\<close>. The trait \<open>UpgradeActions\<close>, through which the loop
  observes and changes the cluster, is a record of functions on a state; an action returns its result and the state after
  it. The lemmas show when each action may run, and that the loop completes on a cluster that makes progress.
\<close>

subsection \<open>The lag gate\<close>

datatype link_status = LinkUp | LinkDown

definition is_up :: "link_status \<Rightarrow> bool" where
  "is_up l \<longleftrightarrow> l = LinkUp"

record replica_lag =
  lag_opt :: "nat option"

definition lag :: "nat \<Rightarrow> nat \<Rightarrow> nat" where
  "lag head acked = head - acked"

definition lag_compute :: "nat \<Rightarrow> nat \<Rightarrow> replica_lag" where
  "lag_compute head acked = \<lparr>lag_opt = Some (lag head acked)\<rparr>"

definition lag_unknown :: replica_lag where
  "lag_unknown = \<lparr>lag_opt = None\<rparr>"

definition in_sync :: "replica_lag \<Rightarrow> nat \<Rightarrow> bool" where
  "in_sync l max_lag = (case lag_opt l of Some n \<Rightarrow> n \<le> max_lag | None \<Rightarrow> False)"

definition replica_is_in_sync :: "link_status \<Rightarrow> replica_lag \<Rightarrow> nat \<Rightarrow> bool" where
  "replica_is_in_sync link l max_lag \<longleftrightarrow> is_up link \<and> in_sync l max_lag"

record candidate_replica =
  cand_link :: link_status
  cand_lag :: replica_lag

datatype promotion_safety = Safe | NoQuorum | CandidateNotInSync

definition safe_to_promote :: "candidate_replica \<Rightarrow> nat \<Rightarrow> bool \<Rightarrow> promotion_safety" where
  "safe_to_promote candidate max_lag raft_quorum_available =
     (if \<not> raft_quorum_available then NoQuorum
      else if \<not> replica_is_in_sync (cand_link candidate) (cand_lag candidate) max_lag then CandidateNotInSync
      else Safe)"

subsection \<open>The next step\<close>

datatype block_reason = BlockNoQuorum | NoInSyncCandidate

datatype upgrade_step =
    UpgradeReplica
  | AwaitInSync
  | Promote
  | UpgradeOldPrimary
  | UpgradeDone
  | Blocked block_reason

definition next_upgrade_step :: "nat \<Rightarrow> bool \<Rightarrow> promotion_safety \<Rightarrow> bool \<Rightarrow> bool \<Rightarrow> bool \<Rightarrow> upgrade_step" where
  "next_upgrade_step replicas_left catching_up promotion demoted old_upgraded master_upgraded =
     (if demoted then (if old_upgraded then UpgradeDone else UpgradeOldPrimary)
      else if catching_up then AwaitInSync
      else if replicas_left > 0 then UpgradeReplica
      else if master_upgraded then UpgradeDone
      else case promotion of
             Safe \<Rightarrow> Promote
           | NoQuorum \<Rightarrow> Blocked BlockNoQuorum
           | CandidateNotInSync \<Rightarrow> Blocked NoInSyncCandidate)"

datatype upgrade_report = Completed | StalledAfterBudget upgrade_step

subsection \<open>The driver\<close>

record ('s, 'e) upgrade_actions =
  replicas_to_upgrade :: "'s \<Rightarrow> nat"
  replica_catching_up :: "'s \<Rightarrow> bool"
  promotion_verdict :: "'s \<Rightarrow> promotion_safety"
  primary_demoted :: "'s \<Rightarrow> bool"
  old_primary_upgraded :: "'s \<Rightarrow> bool"
  master_on_target :: "'s \<Rightarrow> bool"
  upgrade_next_replica :: "'s \<Rightarrow> ('e + unit) \<times> 's"
  promote_candidate :: "'s \<Rightarrow> ('e + unit) \<times> 's"
  upgrade_old_primary :: "'s \<Rightarrow> ('e + unit) \<times> 's"
  wait_for_progress :: "'s \<Rightarrow> ('e + unit) \<times> 's"

definition step_of :: "('s, 'e) upgrade_actions \<Rightarrow> 's \<Rightarrow> upgrade_step" where
  "step_of acts s =
     next_upgrade_step (replicas_to_upgrade acts s) (replica_catching_up acts s) (promotion_verdict acts s)
       (primary_demoted acts s) (old_primary_upgraded acts s) (master_on_target acts s)"

definition act_on :: "('s, 'e) upgrade_actions \<Rightarrow> upgrade_step \<Rightarrow> 's \<Rightarrow> ('e + unit) \<times> 's" where
  "act_on acts step s =
     (case step of
        UpgradeReplica \<Rightarrow> upgrade_next_replica acts s
      | Promote \<Rightarrow> promote_candidate acts s
      | UpgradeOldPrimary \<Rightarrow> upgrade_old_primary acts s
      | _ \<Rightarrow> (Inr (), s))"

definition drive_upgrade_step :: "('s, 'e) upgrade_actions \<Rightarrow> 's \<Rightarrow> ('e + upgrade_step) \<times> 's" where
  "drive_upgrade_step acts s =
     (let step = step_of acts s
      in case act_on acts step s of
           (Inl e, s) \<Rightarrow> (Inl e, s)
         | (Inr _, s) \<Rightarrow> (Inr step, s))"

fun upgrade_ticks ::
  "('s, 'e) upgrade_actions \<Rightarrow> nat \<Rightarrow> upgrade_step option \<Rightarrow> 's \<Rightarrow> ('e + upgrade_report) \<times> 's" where
  "upgrade_ticks acts 0 last_step s =
     (Inr (StalledAfterBudget (case last_step of None \<Rightarrow> AwaitInSync | Some step \<Rightarrow> step)), s)"
| "upgrade_ticks acts (Suc n) last_step s =
     (case drive_upgrade_step acts s of
        (Inl e, s) \<Rightarrow> (Inl e, s)
      | (Inr step, s) \<Rightarrow>
          if step = UpgradeDone then (Inr Completed, s)
          else case wait_for_progress acts s of
                 (Inl e, s) \<Rightarrow> (Inl e, s)
               | (Inr _, s) \<Rightarrow> upgrade_ticks acts n (Some step) s)"

definition run_rolling_upgrade :: "('s, 'e) upgrade_actions \<Rightarrow> nat \<Rightarrow> 's \<Rightarrow> ('e + upgrade_report) \<times> 's" where
  "run_rolling_upgrade acts max_ticks s = upgrade_ticks acts max_ticks None s"

subsection \<open>A cluster that makes progress\<close>

text \<open>
  What the operations of \<open>UpgradeActions\<close> promise when the cluster cooperates. \<open>debt\<close> is how many waits it takes at most
  until the replicas are in sync and a promotion is visible; \<open>promoted\<close> says that the promotion has been committed.
\<close>

locale cooperative_cluster =
  fixes acts :: "('s, 'e) upgrade_actions" and ok promoted :: "'s \<Rightarrow> bool" and debt :: "'s \<Rightarrow> nat" and max_debt :: nat
  assumes debt_bound: "ok s \<Longrightarrow> debt s \<le> max_debt"
    and replica_upgraded: "ok s \<Longrightarrow> step_of acts s = UpgradeReplica \<Longrightarrow> \<not> promoted s \<and>
      (\<exists>s1 s2. upgrade_next_replica acts s = (Inr (), s1) \<and> wait_for_progress acts s1 = (Inr (), s2) \<and>
         ok s2 \<and> replicas_to_upgrade acts s2 < replicas_to_upgrade acts s)"
    and waited: "ok s \<Longrightarrow> step_of acts s = AwaitInSync \<or> step_of acts s = Blocked b \<Longrightarrow>
      \<exists>s2. wait_for_progress acts s = (Inr (), s2) \<and> ok s2 \<and> debt s2 < debt s \<and>
         (if promoted s then promoted s2 else replicas_to_upgrade acts s2 \<le> replicas_to_upgrade acts s)"
    and promotion_committed: "ok s \<Longrightarrow> step_of acts s = Promote \<Longrightarrow> \<not> promoted s \<and>
      (\<exists>s1 s2. promote_candidate acts s = (Inr (), s1) \<and> wait_for_progress acts s1 = (Inr (), s2) \<and> ok s2 \<and> promoted s2)"
    and old_primary_finished: "ok s \<Longrightarrow> step_of acts s = UpgradeOldPrimary \<Longrightarrow>
      \<exists>s1 s2. upgrade_old_primary acts s = (Inr (), s1) \<and> wait_for_progress acts s1 = (Inr (), s2) \<and>
         ok s2 \<and> step_of acts s2 = UpgradeDone"
begin

definition ticks_left :: "'s \<Rightarrow> nat" where
  "ticks_left s = (if promoted s then 0 else replicas_to_upgrade acts s + 1) * (max_debt + 1) + debt s"

lemma wait_progress:
  assumes "ok s" "step_of acts s = AwaitInSync \<or> step_of acts s = Blocked b"
  shows "\<exists>s2. wait_for_progress acts s = (Inr (), s2) \<and> ok s2 \<and> ticks_left s2 < ticks_left s"
proof -
  from waited [OF assms] obtain s2 where r: "wait_for_progress acts s = (Inr (), s2)" "ok s2" "debt s2 < debt s"
    "if promoted s then promoted s2 else replicas_to_upgrade acts s2 \<le> replicas_to_upgrade acts s" by blast
  let ?k = "\<lambda>s. if promoted s then 0 else replicas_to_upgrade acts s + 1"
  have "?k s2 * (max_debt + 1) \<le> ?k s * (max_debt + 1)" using r(4) by (intro mult_le_mono1) (auto split: if_splits)
  from add_le_less_mono [OF this r(3)] have "ticks_left s2 < ticks_left s" unfolding ticks_left_def .
  with r(1,2) show ?thesis by blast
qed

lemma tick_progress:
  assumes "ok s" "step_of acts s \<noteq> UpgradeDone" "step_of acts s \<noteq> UpgradeOldPrimary"
  shows "\<exists>s1 s2. act_on acts (step_of acts s) s = (Inr (), s1) \<and> wait_for_progress acts s1 = (Inr (), s2) \<and>
    ok s2 \<and> ticks_left s2 < ticks_left s"
proof (cases "step_of acts s")
  case UpgradeReplica
  from replica_upgraded [OF assms(1) this] obtain s1 s2 where r: "\<not> promoted s" "upgrade_next_replica acts s = (Inr (), s1)"
    "wait_for_progress acts s1 = (Inr (), s2)" "ok s2" "replicas_to_upgrade acts s2 < replicas_to_upgrade acts s" by blast
  let ?k = "if promoted s2 then 0 else replicas_to_upgrade acts s2 + 1"
  have "?k \<le> replicas_to_upgrade acts s" using r(5) by simp
  then have "?k * (max_debt + 1) \<le> replicas_to_upgrade acts s * (max_debt + 1)" by (rule mult_le_mono1)
  with debt_bound [OF r(4)] r(1) have "ticks_left s2 < ticks_left s" by (simp add: ticks_left_def)
  with r UpgradeReplica show ?thesis by (auto simp: act_on_def)
next
  case Promote
  from promotion_committed [OF assms(1) this] obtain s1 s2 where r: "\<not> promoted s" "promote_candidate acts s = (Inr (), s1)"
    "wait_for_progress acts s1 = (Inr (), s2)" "ok s2" "promoted s2" by blast
  with debt_bound [OF r(4)] have "ticks_left s2 < ticks_left s" by (simp add: ticks_left_def)
  with r Promote show ?thesis by (auto simp: act_on_def)
next
  case AwaitInSync
  with wait_progress [OF assms(1)] show ?thesis by (auto simp: act_on_def)
next
  case (Blocked b)
  with wait_progress [OF assms(1), of b] show ?thesis by (auto simp: act_on_def)
qed (use assms in simp_all)

lemma completes:
  assumes "ok s" and "ticks_left s + 2 \<le> n"
  shows "\<exists>s'. upgrade_ticks acts n last_step s = (Inr Completed, s') \<and> ok s' \<and> step_of acts s' = UpgradeDone"
  using assms
proof (induction n arbitrary: s last_step)
  case (Suc n)
  consider "step_of acts s = UpgradeDone" | "step_of acts s = UpgradeOldPrimary"
    | "step_of acts s \<noteq> UpgradeDone" "step_of acts s \<noteq> UpgradeOldPrimary" by blast
  then show ?case
  proof cases
    case 1
    with Suc.prems(1) show ?thesis by (simp add: drive_upgrade_step_def Let_def act_on_def)
  next
    case 2
    from old_primary_finished [OF Suc.prems(1) this] obtain s1 s2 where r: "upgrade_old_primary acts s = (Inr (), s1)"
      "wait_for_progress acts s1 = (Inr (), s2)" "ok s2" "step_of acts s2 = UpgradeDone" by blast
    obtain k where "n = Suc k" using Suc.prems(2) by (cases n) auto
    with 2 r show ?thesis by (simp add: drive_upgrade_step_def Let_def act_on_def)
  next
    case 3
    from tick_progress [OF Suc.prems(1) 3] obtain s1 s2 where r: "act_on acts (step_of acts s) s = (Inr (), s1)"
      "wait_for_progress acts s1 = (Inr (), s2)" "ok s2" "ticks_left s2 < ticks_left s" by blast
    with Suc.IH [OF r(3), of "Some (step_of acts s)"] Suc.prems(2) 3 show ?thesis
      by (simp add: drive_upgrade_step_def Let_def)
  qed
qed simp

end

end
