(* ===== verification/Upgrade_Driver.thy ===== *)
theory Upgrade_Driver
  imports Upgrade_Plan "HOL-Library.List_Lexorder" "HOL-Library.Char_ord"
begin

text \<open>
  The live rolling upgrade of a shard: the observers of a cluster snapshot (\<open>ironcache/src/cluster_upgrade.rs\<close>) and the
  driver that assembles the snapshot from the wire and acts on it (\<open>ironcache/src/cluster_upgrade_driver.rs\<close>). The
  traits \<open>ClusterClient\<close>, \<open>NodeUpgrader\<close>, \<open>Pauser\<close> and \<open>Sleeper\<close> behind which the driver reaches the nodes are a record
  of functions on a state \<open>world\<close>; the driver is a record that holds that state beside its own fields.
\<close>

subsection \<open>The cluster snapshot\<close>

datatype node_role = Master | Replica

record node_view =
  nv_id :: string
  nv_version :: string
  nv_role :: node_role
  nv_link :: link_status
  nv_lag :: "replica_lag option"

definition is_upgraded :: "node_view \<Rightarrow> string \<Rightarrow> bool" where
  "is_upgraded n target = (nv_version n = target)"

text \<open>The test \<open>self.lag.is_some_and(|l| l.in_sync(max_lag))\<close> of an observed replica.\<close>

definition lag_in_sync :: "node_view \<Rightarrow> nat \<Rightarrow> bool" where
  "lag_in_sync n bound = (case nv_lag n of None \<Rightarrow> False | Some l \<Rightarrow> in_sync l bound)"

definition is_promotable :: "node_view \<Rightarrow> string \<Rightarrow> nat \<Rightarrow> bool" where
  "is_promotable n target bound \<longleftrightarrow>
     nv_role n = Replica \<and> is_upgraded n target \<and> is_up (nv_link n) \<and> lag_in_sync n bound"

record cluster_view =
  cv_nodes :: "node_view list"
  cv_target_version :: string
  cv_max_lag :: nat
  cv_raft_quorum :: bool
  cv_old_primary_id :: "string option"

definition view_replicas_to_upgrade :: "cluster_view \<Rightarrow> nat" where
  "view_replicas_to_upgrade v =
     length (filter (\<lambda>n. nv_role n = Replica \<and> \<not> is_upgraded n (cv_target_version v)) (cv_nodes v))"

definition view_replica_catching_up :: "cluster_view \<Rightarrow> bool" where
  "view_replica_catching_up v =
     list_ex (\<lambda>n. nv_role n = Replica \<and> is_upgraded n (cv_target_version v) \<and>
                  \<not> (is_up (nv_link n) \<and> lag_in_sync n (cv_max_lag v))) (cv_nodes v)"

fun min_by_key :: "('a \<Rightarrow> nat) \<Rightarrow> 'a list \<Rightarrow> 'a option" where
  "min_by_key f [] = None"
| "min_by_key f (x # xs) = (case min_by_key f xs of None \<Rightarrow> Some x | Some y \<Rightarrow> Some (if f x \<le> f y then x else y))"

definition select_promote_candidate :: "cluster_view \<Rightarrow> node_view option" where
  "select_promote_candidate v =
     min_by_key (\<lambda>n. case nv_lag n of None \<Rightarrow> u64_max | Some l \<Rightarrow> (case lag_opt l of None \<Rightarrow> u64_max | Some k \<Rightarrow> k))
       (filter (\<lambda>n. is_promotable n (cv_target_version v) (cv_max_lag v)) (cv_nodes v))"

definition view_promotion_safety :: "cluster_view \<Rightarrow> promotion_safety" where
  "view_promotion_safety v =
     (case select_promote_candidate v of
        Some c \<Rightarrow> safe_to_promote \<lparr>cand_link = nv_link c, cand_lag = (case nv_lag c of None \<Rightarrow> lag_unknown | Some l \<Rightarrow> l)\<rparr>
                    (cv_max_lag v) (cv_raft_quorum v)
      | None \<Rightarrow> if \<not> cv_raft_quorum v then NoQuorum else CandidateNotInSync)"

definition view_primary_demoted :: "cluster_view \<Rightarrow> bool" where
  "view_primary_demoted v =
     (case cv_old_primary_id v of None \<Rightarrow> False
      | Some i \<Rightarrow> list_ex (\<lambda>n. nv_id n = i \<and> nv_role n = Replica) (cv_nodes v))"

definition view_old_primary_upgraded :: "cluster_view \<Rightarrow> bool" where
  "view_old_primary_upgraded v =
     (case cv_old_primary_id v of None \<Rightarrow> False
      | Some i \<Rightarrow> list_ex (\<lambda>n. nv_id n = i \<and> is_upgraded n (cv_target_version v)) (cv_nodes v))"

definition view_master_on_target :: "cluster_view \<Rightarrow> bool" where
  "view_master_on_target v =
     list_ex (\<lambda>n. nv_role n = Master \<and> is_upgraded n (cv_target_version v)) (cv_nodes v)"

definition shard_fully_upgraded :: "cluster_view \<Rightarrow> bool" where
  "shard_fully_upgraded v \<longleftrightarrow> cv_nodes v \<noteq> [] \<and> list_all (\<lambda>n. is_upgraded n (cv_target_version v)) (cv_nodes v)"

subsection \<open>Versions and addresses\<close>

text \<open>The UTF-8 encodings of the characters that \<open>str::trim\<close> removes.\<close>

definition white_space :: "string list" where
  "white_space =
     map (\<lambda>c. [char_of (c :: nat)]) [9, 10, 11, 12, 13, 32] @
     map (map (char_of :: nat \<Rightarrow> char))
       ([[194, 133], [194, 160], [225, 154, 128]] @ map (\<lambda>k. [226, 128, k]) [128..<139] @
        [[226, 128, 168], [226, 128, 169], [226, 128, 175], [226, 129, 159], [227, 128, 128]])"

definition strip_prefix :: "string \<Rightarrow> string \<Rightarrow> string option" where
  "strip_prefix p s = (if take (length p) s = p then Some (drop (length p) s) else None)"

fun trim_start_fuel :: "string list \<Rightarrow> nat \<Rightarrow> string \<Rightarrow> string" where
  "trim_start_fuel ws 0 s = s"
| "trim_start_fuel ws (Suc n) s =
     (case List.find (\<lambda>w. strip_prefix w s \<noteq> None) ws of
        None \<Rightarrow> s
      | Some w \<Rightarrow> trim_start_fuel ws n (drop (length w) s))"

definition trim :: "string \<Rightarrow> string" where
  "trim s =
     (let s = trim_start_fuel white_space (length s) s
      in rev (trim_start_fuel (map rev white_space) (length s) (rev s)))"

definition is_digit :: "char \<Rightarrow> bool" where
  "is_digit c \<longleftrightarrow> CHR ''0'' \<le> c \<and> c \<le> CHR ''9''"

definition normalize_version :: "string \<Rightarrow> string" where
  "normalize_version raw =
     (let trimmed = trim raw;
          unprefixed = (case trimmed of
             c # d # rest \<Rightarrow> if (c = CHR ''v'' \<or> c = CHR ''V'') \<and> is_digit d then d # rest else trimmed
           | _ \<Rightarrow> trimmed)
      in trim (takeWhile (\<lambda>c. c \<noteq> CHR ''+'') unprefixed))"

text \<open>\<open>str::parse::<u16>\<close>: an optional plus sign and at least one digit, within range.\<close>

definition parse_u16 :: "string \<Rightarrow> u16 option" where
  "parse_u16 s =
     (let digits = (case s of [] \<Rightarrow> [] | c # cs \<Rightarrow> if c = CHR ''+'' then cs else s);
          n = foldl (\<lambda>n c. n * 10 + (of_char c - 48 :: nat)) 0 digits
      in if digits = [] \<or> \<not> list_all is_digit digits \<or> n > 65535 then None else Some (of_nat n))"

definition split_host_port :: "string \<Rightarrow> (string \<times> u16) option" where
  "split_host_port addr =
     (if CHR '':'' \<notin> set addr then None
      else
        let port = rev (takeWhile (\<lambda>c. c \<noteq> CHR '':'') (rev addr));
            host = take (length addr - length port - 1) addr
        in map_option (Pair host) (parse_u16 port))"

subsection \<open>What the driver sees and can do\<close>

record actuation_target =
  at_id :: string
  resp_addr :: string
  at_auth :: "string option"
  ssh :: string
  upgrade_source :: string

record slave_entry =
  se_host :: string
  se_port :: u16
  se_lag :: nat

record node_observation =
  obs_role :: node_role
  obs_version :: string
  obs_link :: link_status
  obs_slaves :: "slave_entry list"
  obs_shards :: nat

record quorum_observation =
  state_ok :: bool
  raft_leader_present :: bool

definition has_quorum :: "quorum_observation \<Rightarrow> bool" where
  "has_quorum q \<longleftrightarrow> state_ok q \<and> raft_leader_present q"

record shard_member =
  mem_id :: string
  mem_role :: node_role

record pause_target =
  pt_resp_addr :: string
  pt_auth :: "string option"
  pt_window_ms :: nat

datatype pause_error =
    PauseConnect string string
  | PauseIo string
  | PauseAuth string
  | PauseRejected string string
  | PauseProtocol string string
  | PauseTimeout nat

datatype cluster_upgrade_error =
    ClientError string string
  | ObserveError string string
  | Discover string
  | Failover string string
  | UpgradeError string string
  | PauseFailed pause_error
  | MembershipDrift string string
  | OldPrimaryUnknown
  | UnknownUpgradeNode string
  | NoCandidate
  | NoReplicaToUpgrade
  | DrainTimeout string nat
  | MultiShardUnsupported string nat
  | IncompleteRoll string string string

type_synonym 'a outcome = "cluster_upgrade_error + 'a"

record 'w seams =
  discover_members :: "actuation_target \<Rightarrow> 'w \<Rightarrow> shard_member list outcome \<times> 'w"
  observe_node :: "actuation_target \<Rightarrow> 'w \<Rightarrow> node_observation outcome \<times> 'w"
  observe_quorum :: "actuation_target \<Rightarrow> 'w \<Rightarrow> quorum_observation outcome \<times> 'w"
  cluster_failover :: "actuation_target \<Rightarrow> 'w \<Rightarrow> unit outcome \<times> 'w"
  node_upgrade :: "actuation_target \<Rightarrow> 'w \<Rightarrow> unit outcome \<times> 'w"
  freeze :: "pause_target \<Rightarrow> 'w \<Rightarrow> (pause_error + unit) \<times> 'w"
  unfreeze :: "pause_target \<Rightarrow> 'w \<Rightarrow> (pause_error + unit) \<times> 'w"
  sleep :: "nat \<Rightarrow> 'w \<Rightarrow> 'w"

definition slave_lag_for :: "slave_entry list \<Rightarrow> string \<Rightarrow> nat option" where
  "slave_lag_for slaves addr =
     (case split_host_port addr of
        None \<Rightarrow> None
      | Some (host, port) \<Rightarrow> map_option se_lag (List.find (\<lambda>s. se_host s = host \<and> se_port s = port) slaves))"

definition known_lag :: "nat \<Rightarrow> replica_lag" where
  "known_lag n = lag_compute n 0"

subsection \<open>The live driver\<close>

record freeze_cfg =
  pause_window_ms :: nat
  max_drain_polls :: nat
  drain_poll_delay :: nat

definition freeze_cfg_default :: freeze_cfg where
  "freeze_cfg_default = \<lparr>pause_window_ms = 30000, max_drain_polls = 600, drain_poll_delay = 100000000\<rparr>"

record driver_config =
  cfg_inventory :: "actuation_target list"
  cfg_target_version :: string
  cfg_max_lag :: nat
  cfg_tick_delay :: nat
  cfg_freeze :: freeze_cfg

record 'w live_cluster =
  world :: 'w
  inventory :: "actuation_target list"
  target_version :: string
  max_lag :: nat
  old_primary_id :: "string option"
  view :: cluster_view
  tick_delay :: nat
  freeze_tuning :: freeze_cfg

definition live_new :: "'w \<Rightarrow> driver_config \<Rightarrow> 'w live_cluster" where
  "live_new w config =
     \<lparr>world = w, inventory = cfg_inventory config, target_version = cfg_target_version config,
      max_lag = cfg_max_lag config, old_primary_id = None,
      view = \<lparr>cv_nodes = [], cv_target_version = normalize_version (cfg_target_version config),
              cv_max_lag = cfg_max_lag config, cv_raft_quorum = False, cv_old_primary_id = None\<rparr>,
      tick_delay = cfg_tick_delay config, freeze_tuning = cfg_freeze config\<rparr>"

definition inventory_get :: "actuation_target list \<Rightarrow> string \<Rightarrow> actuation_target option" where
  "inventory_get ts i = List.find (\<lambda>t. at_id t = i) ts"

definition join_ids :: "string list \<Rightarrow> string" where
  "join_ids ids =
     (case sort (remdups ids) of [] \<Rightarrow> [] | i # rest \<Rightarrow> i @ concat (map (\<lambda>j. CHR '','' # j) rest))"

text \<open>A call of one of the seams.\<close>

definition call :: "('w \<Rightarrow> 'r \<times> 'w) \<Rightarrow> 'w live_cluster \<Rightarrow> 'r \<times> 'w live_cluster" where
  "call f s = (let (r, w) = f (world s) in (r, s\<lparr>world := w\<rparr>))"

text \<open>The first inventory node that answers; \<open>err\<close> is the last error seen.\<close>

fun any_seed ::
  "(actuation_target \<Rightarrow> 'w \<Rightarrow> 'a outcome \<times> 'w) \<Rightarrow> actuation_target list \<Rightarrow> cluster_upgrade_error \<Rightarrow>
   'w live_cluster \<Rightarrow> 'a outcome \<times> 'w live_cluster" where
  "any_seed f [] err s = (Inl err, s)"
| "any_seed f (seed # seeds) err s =
     (case call (f seed) s of
        (Inr x, s) \<Rightarrow> (Inr x, s)
      | (Inl e, s) \<Rightarrow> any_seed f seeds e s)"

definition shard_role :: "shard_member list \<Rightarrow> actuation_target \<Rightarrow> node_observation \<Rightarrow> node_role" where
  "shard_role members t obs =
     (case List.find (\<lambda>m. mem_id m = at_id t) members of Some m \<Rightarrow> mem_role m | None \<Rightarrow> obs_role obs)"

fun observe_all ::
  "'w seams \<Rightarrow> shard_member list \<Rightarrow> actuation_target list \<Rightarrow>
   'w live_cluster \<Rightarrow> (actuation_target \<times> node_observation \<times> node_role) list outcome \<times> 'w live_cluster" where
  "observe_all sm members [] s = (Inr [], s)"
| "observe_all sm members (t # ts) s =
     (case call (observe_node sm t) s of
        (Inl e, s) \<Rightarrow> (Inl e, s)
      | (Inr obs, s) \<Rightarrow>
          (case observe_all sm members ts s of
             (Inl e, s) \<Rightarrow> (Inl e, s)
           | (Inr rest, s) \<Rightarrow> (Inr ((t, obs, shard_role members t obs) # rest), s)))"

definition node_view_of ::
  "slave_entry list \<Rightarrow> actuation_target \<times> node_observation \<times> node_role \<Rightarrow> node_view" where
  "node_view_of master_slaves =
     (\<lambda>(t, obs, role).
        let (link, l) = (case role of
              Master \<Rightarrow> (LinkDown, None)
            | Replica \<Rightarrow>
                if is_up (obs_link obs)
                then (LinkUp, Some (case slave_lag_for master_slaves (resp_addr t) of None \<Rightarrow> lag_unknown | Some n \<Rightarrow> known_lag n))
                else (LinkDown, Some lag_unknown))
        in \<lparr>nv_id = at_id t, nv_version = normalize_version (obs_version obs), nv_role = role, nv_link = link, nv_lag = l\<rparr>)"

text \<open>\<open>LiveCluster::refresh\<close> after the nodes were observed: the refusal of a node with several shards, the node views, the
  capture of the old primary, the quorum, and the new snapshot.\<close>

definition master_view :: "(actuation_target \<times> node_observation \<times> node_role) list \<Rightarrow> slave_entry list" where
  "master_view observed =
     (case List.find (\<lambda>(t, obs, role). role = Master) observed of Some (t, obs, role) \<Rightarrow> obs_slaves obs | None \<Rightarrow> [])"

definition capture_primary :: "node_view list \<Rightarrow> string option \<Rightarrow> string option" where
  "capture_primary nodes old =
     (if old = None then map_option nv_id (List.find (\<lambda>n. nv_role n = Master) nodes) else old)"

definition assemble_view ::
  "'w seams \<Rightarrow> (actuation_target \<times> node_observation \<times> node_role) list \<Rightarrow>
   'w live_cluster \<Rightarrow> cluster_view outcome \<times> 'w live_cluster" where
  "assemble_view sm observed s =
     (case List.find (\<lambda>(t, obs, role). obs_shards obs > 1) observed of
        Some (t, obs, role) \<Rightarrow> (Inl (MultiShardUnsupported (at_id t) (obs_shards obs)), s)
      | None \<Rightarrow>
          let nodes = map (node_view_of (master_view observed)) observed;
              s = s\<lparr>old_primary_id := capture_primary nodes (old_primary_id s)\<rparr>
          in case any_seed (observe_quorum sm) (inventory s) (Discover ''no inventory nodes to read quorum from'') s of
               (Inl e, s) \<Rightarrow> (Inl e, s)
             | (Inr q, s) \<Rightarrow>
                 let v = \<lparr>cv_nodes = nodes, cv_target_version = normalize_version (target_version s),
                          cv_max_lag = max_lag s, cv_raft_quorum = has_quorum q,
                          cv_old_primary_id = old_primary_id s\<rparr>
                 in (Inr v, s\<lparr>view := v\<rparr>))"

definition refresh :: "'w seams \<Rightarrow> 'w live_cluster \<Rightarrow> cluster_view outcome \<times> 'w live_cluster" where
  "refresh sm s =
     (case any_seed (discover_members sm) (inventory s) (Discover ''no inventory nodes to query'') s of
        (Inl e, s) \<Rightarrow> (Inl e, s)
      | (Inr members, s) \<Rightarrow>
          let discovered = map mem_id members; ids = map at_id (inventory s)
          in if set discovered \<noteq> set ids then (Inl (MembershipDrift (join_ids ids) (join_ids discovered)), s)
             else case observe_all sm members (inventory s) s of
                    (Inl e, s) \<Rightarrow> (Inl e, s)
                  | (Inr observed, s) \<Rightarrow> assemble_view sm observed s)"

definition upgrade_node :: "'w seams \<Rightarrow> string \<Rightarrow> 'w live_cluster \<Rightarrow> unit outcome \<times> 'w live_cluster" where
  "upgrade_node sm i s =
     (case inventory_get (inventory s) i of
        None \<Rightarrow> (Inl (UnknownUpgradeNode i), s)
      | Some t \<Rightarrow> call (node_upgrade sm t) s)"

fun drain_polls ::
  "'w seams \<Rightarrow> actuation_target \<Rightarrow> actuation_target \<Rightarrow> nat \<Rightarrow> 'w live_cluster \<Rightarrow> unit outcome \<times> 'w live_cluster" where
  "drain_polls sm old_primary candidate 0 s =
     (Inl (DrainTimeout (at_id candidate) (max_drain_polls (freeze_tuning s))), s)"
| "drain_polls sm old_primary candidate (Suc n) s =
     (case call (observe_node sm old_primary) s of
        (Inl e, s) \<Rightarrow> (Inl e, s)
      | (Inr obs, s) \<Rightarrow>
          if slave_lag_for (obs_slaves obs) (resp_addr candidate) = Some 0 then (Inr (), s)
          else drain_polls sm old_primary candidate n (s\<lparr>world := sleep sm (drain_poll_delay (freeze_tuning s)) (world s)\<rparr>))"

definition drain_candidate_to_zero ::
  "'w seams \<Rightarrow> actuation_target \<Rightarrow> actuation_target \<Rightarrow> 'w live_cluster \<Rightarrow> unit outcome \<times> 'w live_cluster" where
  "drain_candidate_to_zero sm old_primary candidate s =
     drain_polls sm old_primary candidate (max_drain_polls (freeze_tuning s)) s"

definition live_upgrade_next_replica :: "'w seams \<Rightarrow> 'w live_cluster \<Rightarrow> unit outcome \<times> 'w live_cluster" where
  "live_upgrade_next_replica sm s =
     (case map nv_id (filter (\<lambda>n. nv_role n = Replica \<and> nv_version n \<noteq> cv_target_version (view s)) (cv_nodes (view s))) of
        [] \<Rightarrow> (Inl NoReplicaToUpgrade, s)
      | i # ids \<Rightarrow> upgrade_node sm (fold min ids i) s)"

text \<open>The bounded wait until the promotion is visible, in which a failing observation is ignored.\<close>

fun confirm_polls :: "'w seams \<Rightarrow> nat \<Rightarrow> 'w live_cluster \<Rightarrow> 'w live_cluster" where
  "confirm_polls sm 0 s = s"
| "confirm_polls sm (Suc n) s =
     (let (r, s) = refresh sm s
      in if isl r \<or> \<not> view_primary_demoted (view s)
         then confirm_polls sm n (s\<lparr>world := sleep sm (drain_poll_delay (freeze_tuning s)) (world s)\<rparr>)
         else s)"

definition live_promote_candidate :: "'w seams \<Rightarrow> 'w live_cluster \<Rightarrow> unit outcome \<times> 'w live_cluster" where
  "live_promote_candidate sm s =
     (case select_promote_candidate (view s) of
        None \<Rightarrow> (Inl NoCandidate, s)
      | Some c \<Rightarrow>
     (case old_primary_id s of
        None \<Rightarrow> (Inl OldPrimaryUnknown, s)
      | Some old_id \<Rightarrow>
     (case inventory_get (inventory s) old_id of
        None \<Rightarrow> (Inl (UnknownUpgradeNode old_id), s)
      | Some old_primary \<Rightarrow>
     (case inventory_get (inventory s) (nv_id c) of
        None \<Rightarrow> (Inl (UnknownUpgradeNode (nv_id c)), s)
      | Some candidate \<Rightarrow>
          let target = \<lparr>pt_resp_addr = resp_addr old_primary, pt_auth = at_auth old_primary,
                        pt_window_ms = pause_window_ms (freeze_tuning s)\<rparr>
          in case call (freeze sm target) s of
               (Inl e, s) \<Rightarrow> (Inl (PauseFailed e), s)
             | (Inr _, s) \<Rightarrow>
          (case drain_candidate_to_zero sm old_primary candidate s of
             (Inl e, s) \<Rightarrow> (Inl e, snd (call (unfreeze sm target) s))
           | (Inr _, s) \<Rightarrow>
          (case call (cluster_failover sm candidate) s of
             (Inl e, s) \<Rightarrow> (Inl e, snd (call (unfreeze sm target) s))
           | (Inr _, s) \<Rightarrow>
               let s = snd (call (unfreeze sm target) s)
               in (Inr (), confirm_polls sm (max_drain_polls (freeze_tuning s)) s)))))))"

definition live_upgrade_old_primary :: "'w seams \<Rightarrow> 'w live_cluster \<Rightarrow> unit outcome \<times> 'w live_cluster" where
  "live_upgrade_old_primary sm s =
     (case old_primary_id s of
        None \<Rightarrow> (Inl OldPrimaryUnknown, s)
      | Some i \<Rightarrow> upgrade_node sm i s)"

definition live_wait_for_progress :: "'w seams \<Rightarrow> 'w live_cluster \<Rightarrow> unit outcome \<times> 'w live_cluster" where
  "live_wait_for_progress sm s =
     (case refresh sm (s\<lparr>world := sleep sm (tick_delay s) (world s)\<rparr>) of
        (Inl e, s) \<Rightarrow> (Inl e, s)
      | (Inr _, s) \<Rightarrow> (Inr (), s))"

definition live_actions :: "'w seams \<Rightarrow> ('w live_cluster, cluster_upgrade_error) upgrade_actions" where
  "live_actions sm =
     \<lparr>replicas_to_upgrade = (\<lambda>s. view_replicas_to_upgrade (view s)),
      replica_catching_up = (\<lambda>s. view_replica_catching_up (view s)),
      promotion_verdict = (\<lambda>s. view_promotion_safety (view s)),
      primary_demoted = (\<lambda>s. view_primary_demoted (view s)),
      old_primary_upgraded = (\<lambda>s. view_old_primary_upgraded (view s)),
      master_on_target = (\<lambda>s. view_master_on_target (view s)),
      upgrade_next_replica = live_upgrade_next_replica sm,
      promote_candidate = live_promote_candidate sm,
      upgrade_old_primary = live_upgrade_old_primary sm,
      wait_for_progress = live_wait_for_progress sm\<rparr>"

definition run_cluster_upgrade :: "'w seams \<Rightarrow> nat \<Rightarrow> 'w live_cluster \<Rightarrow> upgrade_report outcome \<times> 'w live_cluster" where
  "run_cluster_upgrade sm max_ticks s =
     (case refresh sm s of
        (Inl e, s) \<Rightarrow> (Inl e, s)
      | (Inr v, s) \<Rightarrow>
          if shard_fully_upgraded (view s) then (Inr Completed, s)
          else case run_rolling_upgrade (live_actions sm) max_ticks s of
                 (Inl e, s) \<Rightarrow> (Inl e, s)
               | (Inr report, s) \<Rightarrow>
                   if report = Completed
                   then (case refresh sm s of
                           (Inl e, s) \<Rightarrow> (Inl e, s)
                         | (Inr v, s) \<Rightarrow>
                             let target = cv_target_version (view s)
                             in case List.find (\<lambda>n. nv_version n \<noteq> target) (cv_nodes (view s)) of
                                  Some n \<Rightarrow> (Inl (IncompleteRoll (nv_id n) (nv_version n) target), s)
                                | None \<Rightarrow> (Inr report, s))
                   else (Inr report, s))"

end
