(* ===== verification/Upgrade_Safety.thy ===== *)
theory Upgrade_Safety
  imports Upgrade_Driver
begin

text \<open>
  What a rolling upgrade may do to a cluster, whatever the cluster answers. The driver runs against seams that record
  every call and its answer in a trace; the properties are about that trace, for arbitrary answers and failures.
\<close>

subsection \<open>Recording the calls\<close>

datatype event =
    EvDiscover actuation_target "shard_member list outcome"
  | EvObserve actuation_target "node_observation outcome"
  | EvQuorum actuation_target "quorum_observation outcome"
  | EvFailover actuation_target "unit outcome"
  | EvUpgrade actuation_target "unit outcome"
  | EvFreeze pause_target "pause_error + unit"
  | EvUnfreeze pause_target "pause_error + unit"
  | EvSleep nat

definition log_call :: "('r \<Rightarrow> event) \<Rightarrow> ('w \<Rightarrow> 'r \<times> 'w) \<Rightarrow> 'w \<times> event list \<Rightarrow> 'r \<times> 'w \<times> event list" where
  "log_call ev f = (\<lambda>(w, tr). let (r, w) = f w in (r, (w, tr @ [ev r])))"

definition logged :: "'w seams \<Rightarrow> ('w \<times> event list) seams" where
  "logged sm =
     \<lparr>discover_members = (\<lambda>t. log_call (EvDiscover t) (discover_members sm t)),
      observe_node = (\<lambda>t. log_call (EvObserve t) (observe_node sm t)),
      observe_quorum = (\<lambda>t. log_call (EvQuorum t) (observe_quorum sm t)),
      cluster_failover = (\<lambda>t. log_call (EvFailover t) (cluster_failover sm t)),
      node_upgrade = (\<lambda>t. log_call (EvUpgrade t) (node_upgrade sm t)),
      freeze = (\<lambda>t. log_call (EvFreeze t) (freeze sm t)),
      unfreeze = (\<lambda>t. log_call (EvUnfreeze t) (unfreeze sm t)),
      sleep = (\<lambda>d (w, tr). (sleep sm d w, tr @ [EvSleep d]))\<rparr>"

subsection \<open>What the trace says about the cluster\<close>

fun is_discover :: "event \<Rightarrow> bool" where
  "is_discover (EvDiscover t r) = True"
| "is_discover e = False"

fun members_step :: "shard_member list option \<Rightarrow> event \<Rightarrow> shard_member list option" where
  "members_step m (EvDiscover t (Inr members)) = Some members"
| "members_step m e = m"

text \<open>The role the latest answered \<open>CLUSTER SHARDS\<close> gave to a node.\<close>

definition committed_role :: "event list \<Rightarrow> string \<Rightarrow> node_role option" where
  "committed_role tr i =
     (case foldl members_step None tr of
        None \<Rightarrow> None
      | Some members \<Rightarrow> map_option mem_role (List.find (\<lambda>m. mem_id m = i) members))"

text \<open>The node was seen on this version since then.\<close>

definition seen_on :: "event list \<Rightarrow> string \<Rightarrow> string \<Rightarrow> bool" where
  "seen_on tr i v =
     list_ex (\<lambda>e. case e of EvObserve t (Inr obs) \<Rightarrow> at_id t = i \<and> normalize_version (obs_version obs) = v | _ \<Rightarrow> False)
       (takeWhile (\<lambda>e. \<not> is_discover e) (rev tr))"

fun observing :: "event \<Rightarrow> bool" where
  "observing (EvDiscover t r) = True"
| "observing (EvObserve t r) = True"
| "observing (EvQuorum t r) = True"
| "observing (EvSleep d) = True"
| "observing e = False"

definition on_target :: "string \<Rightarrow> event \<Rightarrow> bool" where
  "on_target target e =
     (case e of EvObserve t (Inr obs) \<Rightarrow> normalize_version (obs_version obs) = target | _ \<Rightarrow> True)"

subsection \<open>What is allowed\<close>

text \<open>
  A failover to \<open>c\<close> is fenced: writes are frozen on the current owner \<open>p\<close>, nothing but looking at the owner happens
  since, the last look shows \<open>c\<close> with no lag, and before the freeze every replica had been seen on the new version.
\<close>

definition fenced :: "actuation_target list \<Rightarrow> string \<Rightarrow> event list \<Rightarrow> actuation_target \<Rightarrow> bool" where
  "fenced ts target tr c \<longleftrightarrow>
     (\<exists>pre pt mid p obs.
        tr = pre @ EvFreeze pt (Inr ()) # mid @ [EvObserve p (Inr obs)] \<and>
        p \<in> set ts \<and> pt_resp_addr pt = resp_addr p \<and> list_all observing mid \<and>
        slave_lag_for (obs_slaves obs) (resp_addr c) = Some 0 \<and>
        committed_role pre (at_id p) = Some Master \<and> committed_role pre (at_id c) = Some Replica \<and>
        (\<forall>i. committed_role pre i = Some Replica \<longrightarrow> seen_on pre i target))"

definition allowed :: "actuation_target list \<Rightarrow> string \<Rightarrow> event list \<Rightarrow> event \<Rightarrow> bool" where
  "allowed ts target tr e =
     (case e of
        EvUpgrade t r \<Rightarrow> committed_role tr (at_id t) = Some Replica
      | EvFailover c r \<Rightarrow> fenced ts target tr c
      | _ \<Rightarrow> True)"

definition safe_trace :: "actuation_target list \<Rightarrow> string \<Rightarrow> event list \<Rightarrow> bool" where
  "safe_trace ts target tr \<longleftrightarrow> (\<forall>pre e post. tr = pre @ e # post \<longrightarrow> allowed ts target pre e)"

subsection \<open>Traces\<close>

abbreviation (input) trace :: "('w \<times> event list) live_cluster \<Rightarrow> event list" where
  "trace s \<equiv> snd (world s)"

lemma committed_role_append:
  "committed_role (tr @ [EvDiscover t (Inr members)]) i = map_option mem_role (List.find (\<lambda>m. mem_id m = i) members)"
  by (simp add: committed_role_def)

lemma foldl_members_quiet: "list_all (\<lambda>e. \<not> is_discover e) ext \<Longrightarrow> foldl members_step m ext = m"
proof (induction ext arbitrary: m)
  case (Cons e ext)
  then show ?case by (cases e) auto
qed simp

lemma committed_role_quiet:
  "list_all (\<lambda>e. \<not> is_discover e) ext \<Longrightarrow> committed_role (tr @ ext) = committed_role tr"
  by (simp add: committed_role_def [abs_def] foldl_members_quiet)

lemma takeWhile_all_append: "list_all P xs \<Longrightarrow> takeWhile P (xs @ ys) = xs @ takeWhile P ys"
  by (induction xs) auto

lemma seen_on_append:
  assumes "list_all (\<lambda>e. \<not> is_discover e) ext" and "EvObserve t (Inr obs) \<in> set ext" "at_id t = i"
  shows "seen_on (tr @ ext) i (normalize_version (obs_version obs))"
proof -
  have "list_all (\<lambda>e. \<not> is_discover e) (rev ext)" using assms(1) by (simp add: list_all_iff)
  then show ?thesis
    using assms(2,3) by (auto simp: seen_on_def takeWhile_all_append list_ex_iff intro!: bexI [of _ "EvObserve t (Inr obs)"])
qed

lemma seen_on_quiet:
  assumes "seen_on tr i v" and "list_all (\<lambda>e. \<not> is_discover e) ext"
  shows "seen_on (tr @ ext) i v"
proof -
  have "list_all (\<lambda>e. \<not> is_discover e) (rev ext)" using assms(2) by (simp add: list_all_iff)
  then show ?thesis using assms(1) by (simp add: seen_on_def takeWhile_all_append)
qed

lemma safe_trace_Nil [simp]: "safe_trace ts target []"
  by (simp add: safe_trace_def)

lemma safe_trace_snoc: "safe_trace ts target (tr @ [e]) \<longleftrightarrow> safe_trace ts target tr \<and> allowed ts target tr e"
proof
  assume s: "safe_trace ts target (tr @ [e])"
  have "allowed ts target pre e'" if "tr = pre @ e' # post" for pre e' post
    using s that unfolding safe_trace_def by (metis append_Cons append_assoc)
  with s show "safe_trace ts target tr \<and> allowed ts target tr e"
    unfolding safe_trace_def by blast
next
  assume s: "safe_trace ts target tr \<and> allowed ts target tr e"
  show "safe_trace ts target (tr @ [e])"
    unfolding safe_trace_def
  proof (intro allI impI)
    fix pre e' post assume "tr @ [e] = pre @ e' # post"
    then show "allowed ts target pre e'"
      using s by (cases post rule: rev_cases) (auto simp: safe_trace_def)
  qed
qed

lemma allowed_quiet:
  "observing e \<Longrightarrow> allowed ts target tr e" "allowed ts target tr (EvFreeze pt r)" "allowed ts target tr (EvUnfreeze pt r')"
  by (cases e) (simp_all add: allowed_def)

lemma safe_trace_observing: "safe_trace ts target tr \<Longrightarrow> list_all observing ext \<Longrightarrow> safe_trace ts target (tr @ ext)"
  by (induction ext rule: rev_induct) (simp_all add: safe_trace_snoc allowed_quiet flip: append_assoc)

subsection \<open>Calls of the driver\<close>

lemma logged_calls:
  "call (discover_members (logged sm) t) s =
     (let (r, w) = discover_members sm t (fst (world s)) in (r, s\<lparr>world := (w, trace s @ [EvDiscover t r])\<rparr>))"
  "call (observe_node (logged sm) t) s =
     (let (r, w) = observe_node sm t (fst (world s)) in (r, s\<lparr>world := (w, trace s @ [EvObserve t r])\<rparr>))"
  "call (observe_quorum (logged sm) t) s =
     (let (r, w) = observe_quorum sm t (fst (world s)) in (r, s\<lparr>world := (w, trace s @ [EvQuorum t r])\<rparr>))"
  "call (cluster_failover (logged sm) t) s =
     (let (r, w) = cluster_failover sm t (fst (world s)) in (r, s\<lparr>world := (w, trace s @ [EvFailover t r])\<rparr>))"
  "call (node_upgrade (logged sm) t) s =
     (let (r, w) = node_upgrade sm t (fst (world s)) in (r, s\<lparr>world := (w, trace s @ [EvUpgrade t r])\<rparr>))"
  "call (freeze (logged sm) pt) s =
     (let (r, w) = freeze sm pt (fst (world s)) in (r, s\<lparr>world := (w, trace s @ [EvFreeze pt r])\<rparr>))"
  "call (unfreeze (logged sm) pt) s =
     (let (r, w) = unfreeze sm pt (fst (world s)) in (r, s\<lparr>world := (w, trace s @ [EvUnfreeze pt r])\<rparr>))"
  "sleep (logged sm) d (world s) = (sleep sm d (fst (world s)), trace s @ [EvSleep d])"
  by (simp_all add: call_def logged_def log_call_def split_beta Let_def)

text \<open>The configuration, which no operation changes, and the trace, which only grows.\<close>

definition continues :: "('w \<times> event list) live_cluster \<Rightarrow> ('w \<times> event list) live_cluster \<Rightarrow> bool" where
  "continues s s' \<longleftrightarrow> inventory s' = inventory s \<and> target_version s' = target_version s \<and>
     freeze_tuning s' = freeze_tuning s \<and> (\<exists>ext. trace s' = trace s @ ext)"

lemma continues_trans: "continues s s1 \<Longrightarrow> continues s1 s2 \<Longrightarrow> continues s s2"
  by (auto simp: continues_def)

text \<open>The state after some calls: only the world and the trace change, and the trace grows by \<open>ext\<close>.\<close>

definition extends :: "('w \<times> event list) live_cluster \<Rightarrow> event list \<Rightarrow> ('w \<times> event list) live_cluster \<Rightarrow> bool" where
  "extends s ext s' \<longleftrightarrow> (\<exists>w. s' = s\<lparr>world := (w, trace s @ ext)\<rparr>)"

lemma extends_refl: "extends s [] s"
  by (cases s) (auto simp: extends_def)

lemma extends_trans: "extends s a s1 \<Longrightarrow> extends s1 b s2 \<Longrightarrow> extends s (a @ b) s2"
  by (auto simp: extends_def)

lemma extends_step: "extends s [e] (s\<lparr>world := (w, trace s @ [e])\<rparr>)"
  by (auto simp: extends_def)

lemma extendsD:
  assumes "extends s ext s'"
  shows "trace s' = trace s @ ext" "continues s s'" "old_primary_id s' = old_primary_id s" "view s' = view s"
    "inventory s' = inventory s" "target_version s' = target_version s"
  using assms by (auto simp: extends_def continues_def)

definition logs :: "(actuation_target \<Rightarrow> 'w \<times> event list \<Rightarrow> 'r \<times> 'w \<times> event list) \<Rightarrow> (actuation_target \<Rightarrow> 'r \<Rightarrow> event) \<Rightarrow> bool" where
  "logs f ev \<longleftrightarrow> (\<forall>t s r s1. call (f t) s = (r, s1) \<longrightarrow> extends s [ev t r] s1)"

lemma logs_logged:
  "logs (discover_members (logged sm)) EvDiscover" "logs (observe_node (logged sm)) EvObserve"
  "logs (observe_quorum (logged sm)) EvQuorum" "logs (cluster_failover (logged sm)) EvFailover"
  "logs (node_upgrade (logged sm)) EvUpgrade"
  unfolding logs_def logged_calls by (auto simp: extends_step split: prod.splits)

lemma logsD: "logs f ev \<Longrightarrow> call (f t) s = (r, s1) \<Longrightarrow> extends s [ev t r] s1"
  by (simp add: logs_def)

lemma any_seed_extends:
  assumes "logs f ev" and "any_seed f seeds err s = (r, s')"
  shows "\<exists>ext. extends s ext s' \<and> (\<forall>e \<in> set ext. \<exists>t x. e = ev t x) \<and>
    (\<forall>x. r = Inr x \<longrightarrow> (\<exists>ext' t. ext = ext' @ [ev t (Inr x)]))"
  using assms(2)
proof (induction seeds arbitrary: err s)
  case Nil
  then show ?case using extends_refl by (intro exI [of _ "[]"]) auto
next
  case (Cons seed seeds)
  obtain x s1 where c: "call (f seed) s = (x, s1)" by (cases "call (f seed) s")
  note r1 = logsD [OF assms(1) c]
  show ?case
  proof (cases x)
    case (Inr y)
    with Cons.prems c have "r = Inr y" "s' = s1" by auto
    with r1 Inr show ?thesis by (intro exI [of _ "[ev seed x]"]) auto
  next
    case (Inl e)
    with Cons.prems c have "any_seed f seeds e s1 = (r, s')" by simp
    from Cons.IH [OF this] obtain ext where ext: "extends s1 ext s'" "\<forall>e \<in> set ext. \<exists>t x. e = ev t x"
      "\<forall>x. r = Inr x \<longrightarrow> (\<exists>ext' t. ext = ext' @ [ev t (Inr x)])" by blast
    show ?thesis
    proof (intro exI conjI)
      show "extends s ([ev seed x] @ ext) s'" by (rule extends_trans [OF r1 ext(1)])
      show "\<forall>x'. r = Inr x' \<longrightarrow> (\<exists>ext' t. [ev seed x] @ ext = ext' @ [ev t (Inr x')])"
        using ext(3) by (metis append_assoc)
    qed (use ext(2) in auto)
  qed
qed

lemma observe_all_extends:
  assumes "observe_all (logged sm) members ts s = (r, s')"
  shows "\<exists>ext. extends s ext s' \<and> (\<forall>e \<in> set ext. \<exists>t x. e = EvObserve t x) \<and>
    (\<forall>obs. r = Inr obs \<longrightarrow> map fst obs = ts \<and>
       (\<forall>p \<in> set obs. EvObserve (fst p) (Inr (fst (snd p))) \<in> set ext \<and>
          snd (snd p) = shard_role members (fst p) (fst (snd p))))"
  using assms
proof (induction ts arbitrary: s r s')
  case Nil
  then show ?case using extends_refl by (intro exI [of _ "[]"]) auto
next
  case (Cons t ts)
  obtain x s1 where c: "call (observe_node (logged sm) t) s = (x, s1)" by (cases "call (observe_node (logged sm) t) s")
  note r1 = logsD [OF logs_logged(2) c]
  show ?case
  proof (cases x)
    case (Inl e)
    with Cons.prems c have "r = Inl e" "s' = s1" by auto
    with r1 show ?thesis by (intro exI [of _ "[EvObserve t x]"]) auto
  next
    case (Inr o1)
    obtain r2 s2 where rest: "observe_all (logged sm) members ts s1 = (r2, s2)" by (cases "observe_all (logged sm) members ts s1")
    from Cons.IH [OF this] obtain ext where ext: "extends s1 ext s2" "\<forall>e \<in> set ext. \<exists>t x. e = EvObserve t x"
      "\<And>obs. r2 = Inr obs \<Longrightarrow> map fst obs = ts \<and>
       (\<forall>p \<in> set obs. EvObserve (fst p) (Inr (fst (snd p))) \<in> set ext \<and>
          snd (snd p) = shard_role members (fst p) (fst (snd p)))"
      by blast
    have s': "s' = s2" using Cons.prems c Inr rest by (auto simp: Let_def split: sum.splits)
    show ?thesis
    proof (intro exI conjI allI impI)
      show "extends s ([EvObserve t x] @ ext) s'" unfolding s' by (rule extends_trans [OF r1 ext(1)])
      show "\<forall>e \<in> set ([EvObserve t x] @ ext). \<exists>t x. e = EvObserve t x" using ext(2) by auto
      fix obs assume "r = Inr obs"
      then obtain rest' where "r2 = Inr rest'" "obs = (t, o1, shard_role members t o1) # rest'"
        using Cons.prems c Inr rest by (auto simp: Let_def split: sum.splits)
      with ext(3) Inr show "map fst obs = t # ts"
        "\<forall>p \<in> set obs. EvObserve (fst p) (Inr (fst (snd p))) \<in> set ([EvObserve t x] @ ext) \<and>
          snd (snd p) = shard_role members (fst p) (fst (snd p))"
        by auto
    qed
  qed
qed

subsection \<open>An observation\<close>

text \<open>The snapshot the driver holds is what the trace shows.\<close>

definition view_fresh :: "('w \<times> event list) live_cluster \<Rightarrow> bool" where
  "view_fresh s \<longleftrightarrow>
     map nv_id (cv_nodes (view s)) = map at_id (inventory s) \<and>
     (\<forall>n \<in> set (cv_nodes (view s)).
        committed_role (trace s) (nv_id n) = Some (nv_role n) \<and> seen_on (trace s) (nv_id n) (nv_version n)) \<and>
     (\<forall>i. committed_role (trace s) i \<noteq> None \<longrightarrow> i \<in> set (map at_id (inventory s))) \<and>
     cv_target_version (view s) = normalize_version (target_version s) \<and>
     cv_old_primary_id (view s) = old_primary_id s"

lemma view_freshD:
  assumes "view_fresh s"
  shows "map nv_id (cv_nodes (view s)) = map at_id (inventory s)"
    and "n \<in> set (cv_nodes (view s)) \<Longrightarrow> committed_role (trace s) (nv_id n) = Some (nv_role n)"
    and "n \<in> set (cv_nodes (view s)) \<Longrightarrow> seen_on (trace s) (nv_id n) (nv_version n)"
    and "committed_role (trace s) i \<noteq> None \<Longrightarrow> i \<in> nv_id ` set (cv_nodes (view s))"
    and "cv_target_version (view s) = normalize_version (target_version s)"
    and "cv_old_primary_id (view s) = old_primary_id s"
  using assms unfolding view_fresh_def by (blast, blast, blast, metis set_map, blast, blast)

lemma node_view_of_fields [simp]:
  "nv_id (node_view_of ms p) = at_id (fst p)" "nv_role (node_view_of ms p) = snd (snd p)"
  "nv_version (node_view_of ms p) = normalize_version (obs_version (fst (snd p)))"
  by (simp_all add: node_view_of_def split_beta Let_def)

lemma find_member: "i \<in> set (map mem_id members) \<Longrightarrow> \<exists>m. List.find (\<lambda>m. mem_id m = i) members = Some m"
  by (induction members) auto

lemma find_member_None: "List.find (\<lambda>m. mem_id m = i) members \<noteq> None \<Longrightarrow> i \<in> set (map mem_id members)"
  by (induction members) (auto split: if_splits)

text \<open>The state of a successful observation, before the quorum is read.\<close>

lemma observed_fresh:
  assumes tr: "trace s = tr @ [EvDiscover seed (Inr members)] @ ext @ q"
    and ext: "\<forall>e \<in> set ext. \<exists>t x. e = EvObserve t x" and q: "\<forall>e \<in> set q. \<exists>t x. e = EvQuorum t x"
    and ids: "set (map mem_id members) = set (map at_id (inventory s))"
    and obs: "map fst observed = inventory s"
      "\<forall>p \<in> set observed. EvObserve (fst p) (Inr (fst (snd p))) \<in> set ext \<and>
          snd (snd p) = shard_role members (fst p) (fst (snd p))"
    and v: "cv_nodes (view s) = map (node_view_of ms) observed"
      "cv_target_version (view s) = normalize_version (target_version s)" "cv_old_primary_id (view s) = old_primary_id s"
  shows "view_fresh s"
proof -
  have quiet: "list_all (\<lambda>e. \<not> is_discover e) (ext @ q)"
    using ext q by (auto simp: list_all_iff)
  have role: "committed_role (trace s) i = map_option mem_role (List.find (\<lambda>m. mem_id m = i) members)" for i
    using committed_role_quiet [OF quiet, of "tr @ [EvDiscover seed (Inr members)]"] committed_role_append
    unfolding tr by (simp add: fun_eq_iff)
  have node: "committed_role (trace s) (at_id (fst p)) = Some (snd (snd p))"
      "seen_on (trace s) (at_id (fst p)) (normalize_version (obs_version (fst (snd p))))" if p: "p \<in> set observed" for p
  proof -
    have "fst p \<in> set (inventory s)" using p unfolding obs(1) [symmetric] by simp
    then obtain m where m: "List.find (\<lambda>m. mem_id m = at_id (fst p)) members = Some m"
      using find_member [of "at_id (fst p)" members] ids by auto
    with obs(2) p show "committed_role (trace s) (at_id (fst p)) = Some (snd (snd p))" by (auto simp: role shard_role_def)
    have "EvObserve (fst p) (Inr (fst (snd p))) \<in> set (ext @ q)" using obs(2) p by auto
    from seen_on_append [OF quiet this refl, of "tr @ [EvDiscover seed (Inr members)]"]
    show "seen_on (trace s) (at_id (fst p)) (normalize_version (obs_version (fst (snd p))))" unfolding tr by simp
  qed
  have ids': "map (at_id \<circ> fst) observed = map at_id (inventory s)" unfolding obs(1) [symmetric] by simp
  have known: "i \<in> set (map at_id (inventory s))" if "committed_role (trace s) i \<noteq> None" for i
    using that find_member_None [of i members] ids by (simp add: role)
  show ?thesis
    unfolding view_fresh_def v(1) using node ids' known v(2,3) by (simp add: comp_def)
qed

lemma observing_all:
  "\<forall>e \<in> set ext. \<exists>t x. e = EvDiscover t x \<Longrightarrow> list_all observing ext"
  "\<forall>e \<in> set ext. \<exists>t x. e = EvObserve t x \<Longrightarrow> list_all observing ext"
  "\<forall>e \<in> set ext. \<exists>t x. e = EvQuorum t x \<Longrightarrow> list_all observing ext"
  by (auto simp: list_all_iff)

definition observed_by :: "('w \<times> event list) live_cluster \<Rightarrow> ('w \<times> event list) live_cluster \<Rightarrow> bool" where
  "observed_by s s' \<longleftrightarrow> continues s s' \<and> (\<exists>ext. trace s' = trace s @ ext \<and> list_all observing ext)"

lemma observed_byI: "extends s ext s' \<Longrightarrow> list_all observing ext \<Longrightarrow> observed_by s s'"
  by (auto simp: observed_by_def dest: extendsD)

lemma observed_by_cfg: "observed_by s s' \<Longrightarrow> continues s s'"
  by (simp add: observed_by_def)

lemma observed_by_refl: "observed_by s s"
  by (auto simp: observed_by_def continues_def)

lemma observed_by_trans: "observed_by s s1 \<Longrightarrow> observed_by s1 s2 \<Longrightarrow> observed_by s s2"
  by (fastforce simp: observed_by_def continues_def)

lemma assemble_view_spec:
  assumes "assemble_view (logged sm) observed s = (r, s')"
  shows "\<exists>ext. trace s' = trace s @ ext \<and> (\<forall>e \<in> set ext. \<exists>t x. e = EvQuorum t x) \<and> continues s s' \<and>
    (\<forall>v. r = Inr v \<longrightarrow> v = view s' \<and> cv_nodes v = map (node_view_of (master_view observed)) observed \<and>
       cv_target_version v = normalize_version (target_version s') \<and> cv_old_primary_id v = old_primary_id s')"
proof (cases "List.find (\<lambda>(t, obs, role). obs_shards obs > 1) observed")
  case (Some p)
  with assms have "s' = s" "\<exists>e. r = Inl e" by (auto simp: assemble_view_def split: prod.splits)
  then show ?thesis by (auto simp: continues_def)
next
  case None
  let ?s = "s\<lparr>old_primary_id := capture_primary (map (node_view_of (master_view observed)) observed) (old_primary_id s)\<rparr>"
  obtain r1 s1 where q: "any_seed (observe_quorum (logged sm)) (inventory s) (Discover ''no inventory nodes to read quorum from'') ?s = (r1, s1)"
    by fastforce
  from any_seed_extends [OF logs_logged(3) this] obtain ext where
    ext: "extends ?s ext s1" "\<forall>e \<in> set ext. \<exists>t x. e = EvQuorum t x" by blast
  note e = extendsD [OF ext(1)]
  show ?thesis
    using assms None q e ext(2)
    by (cases r1) (auto simp: assemble_view_def Let_def continues_def)
qed

lemma refresh_spec:
  assumes "refresh (logged sm) s = (r, s')"
  shows "observed_by s s' \<and> (\<forall>v. r = Inr v \<longrightarrow> v = view s' \<and> view_fresh s')"
proof -
  obtain r1 s1 where d: "any_seed (discover_members (logged sm)) (inventory s) (Discover ''no inventory nodes to query'') s = (r1, s1)"
    by fastforce
  from any_seed_extends [OF logs_logged(1) d] obtain ext1 where
    e1: "extends s ext1 s1" "\<forall>e \<in> set ext1. \<exists>t x. e = EvDiscover t x"
      "\<And>x. r1 = Inr x \<Longrightarrow> \<exists>ext' t. ext1 = ext' @ [EvDiscover t (Inr x)]" by blast
  have o1: "observed_by s s1" using e1(1,2) by (intro observed_byI observing_all)
  show ?thesis
  proof (cases r1)
    case (Inl e)
    with d assms o1 show ?thesis by (auto simp: refresh_def)
  next
    case (Inr members)
    show ?thesis
    proof (cases "set (map mem_id members) = set (map at_id (inventory s1))")
      case False
      with d Inr assms o1 show ?thesis by (auto simp: refresh_def Let_def)
    next
      case ids: True
      obtain r2 s2 where a: "observe_all (logged sm) members (inventory s1) s1 = (r2, s2)" by fastforce
      from observe_all_extends [OF a] obtain ext2 where
        e2: "extends s1 ext2 s2" "\<forall>e \<in> set ext2. \<exists>t x. e = EvObserve t x"
          "\<And>obs. r2 = Inr obs \<Longrightarrow> map fst obs = inventory s1 \<and>
             (\<forall>p \<in> set obs. EvObserve (fst p) (Inr (fst (snd p))) \<in> set ext2 \<and> snd (snd p) = shard_role members (fst p) (fst (snd p)))"
        by blast
      have o2: "observed_by s s2" using e2(1,2) by (intro observed_by_trans [OF o1] observed_byI observing_all)
      show ?thesis
      proof (cases r2)
        case (Inl e)
        with d Inr ids a assms o2 show ?thesis by (auto simp: refresh_def Let_def)
      next
        case obs: (Inr observed)
        then have "assemble_view (logged sm) observed s2 = (r, s')"
          using d Inr ids a assms by (simp add: refresh_def Let_def)
        from assemble_view_spec [OF this] obtain q where
          q: "trace s' = trace s2 @ q" "\<forall>e \<in> set q. \<exists>t x. e = EvQuorum t x" "continues s2 s'"
            "\<And>v. r = Inr v \<Longrightarrow> v = view s' \<and> cv_nodes v = map (node_view_of (master_view observed)) observed \<and>
              cv_target_version v = normalize_version (target_version s') \<and> cv_old_primary_id v = old_primary_id s'"
          by blast
        have "observed_by s s'"
          using o2 q(1-3) observing_all(3) by (intro observed_by_trans [OF o2]) (auto simp: observed_by_def)
        moreover have "view_fresh s'" if "r = Inr v" for v
        proof -
          obtain ext' t where "ext1 = ext' @ [EvDiscover t (Inr members)]" using e1(3) [OF Inr] by blast
          then have tr: "trace s' = (trace s @ ext') @ [EvDiscover t (Inr members)] @ ext2 @ q"
            using q(1) extendsD(1) [OF e1(1)] extendsD(1) [OF e2(1)] by simp
          have i: "inventory s' = inventory s1"
            using q(3) extendsD(5) [OF e2(1)] by (simp add: continues_def)
          note v = q(4) [OF that] and o = e2(3) [OF obs]
          have v': "cv_nodes (view s') = map (node_view_of (master_view observed)) observed"
            "cv_target_version (view s') = normalize_version (target_version s')" "cv_old_primary_id (view s') = old_primary_id s'"
            using v by auto
          show ?thesis
            by (rule observed_fresh [OF tr e2(2) q(2) _ _ conjunct2 [OF o] v']) (use ids o in \<open>simp_all only: i simp_thms\<close>)
        qed
        ultimately show ?thesis using q(4) by blast
      qed
    qed
  qed
qed

subsection \<open>The actions\<close>

lemma drain_polls_extends:
  assumes "drain_polls (logged sm) p c n s = (r, s')"
  shows "\<exists>ext. extends s ext s' \<and> list_all observing ext \<and>
    (\<not> isl r \<longrightarrow> (\<exists>mid obs. ext = mid @ [EvObserve p (Inr obs)] \<and> slave_lag_for (obs_slaves obs) (resp_addr c) = Some 0))"
  using assms
proof (induction n arbitrary: s)
  case 0
  then show ?case using extends_refl by (intro exI [of _ "[]"]) auto
next
  case (Suc n)
  obtain x s1 where c: "call (observe_node (logged sm) p) s = (x, s1)" by fastforce
  note e1 = logsD [OF logs_logged(2) c]
  consider (err) e where "x = Inl e" | (drained) obs where "x = Inr obs" "slave_lag_for (obs_slaves obs) (resp_addr c) = Some 0"
    | (again) obs where "x = Inr obs" "slave_lag_for (obs_slaves obs) (resp_addr c) \<noteq> Some 0" by (cases x) auto
  then show ?case
  proof cases
    case err
    with Suc.prems c e1 show ?thesis by (intro exI [of _ "[EvObserve p x]"]) auto
  next
    case drained
    with Suc.prems c e1 show ?thesis by (intro exI [of _ "[EvObserve p x]"]) auto
  next
    case again
    let ?s = "s1\<lparr>world := sleep (logged sm) (drain_poll_delay (freeze_tuning s1)) (world s1)\<rparr>"
    have e2: "extends s1 [EvSleep (drain_poll_delay (freeze_tuning s1))] ?s" unfolding logged_calls by (rule extends_step)
    have "drain_polls (logged sm) p c n ?s = (r, s')" using Suc.prems c again by simp
    from Suc.IH [OF this] obtain ext where ext: "extends ?s ext s'" "list_all observing ext"
      "\<not> isl r \<Longrightarrow> \<exists>mid obs. ext = mid @ [EvObserve p (Inr obs)] \<and> slave_lag_for (obs_slaves obs) (resp_addr c) = Some 0"
      by blast
    show ?thesis
    proof (rule exI [of _ "[EvObserve p x] @ [EvSleep (drain_poll_delay (freeze_tuning s1))] @ ext"], intro conjI impI)
      show "extends s ([EvObserve p x] @ [EvSleep (drain_poll_delay (freeze_tuning s1))] @ ext) s'"
        by (rule extends_trans [OF e1 extends_trans [OF e2 ext(1)]])
      assume "\<not> isl r"
      from ext(3) [OF this] show "\<exists>mid obs. [EvObserve p x] @ [EvSleep (drain_poll_delay (freeze_tuning s1))] @ ext =
          mid @ [EvObserve p (Inr obs)] \<and> slave_lag_for (obs_slaves obs) (resp_addr c) = Some 0"
        by (metis append_assoc)
    qed (use ext(2) in simp)
  qed
qed

lemma confirm_polls_observed: "observed_by s (confirm_polls (logged sm) n s)"
proof (induction n arbitrary: s)
  case 0
  then show ?case by (simp add: observed_by_refl)
next
  case (Suc n)
  obtain r s1 where r: "refresh (logged sm) s = (r, s1)" by fastforce
  then have o: "observed_by s s1" using refresh_spec by blast
  let ?s = "s1\<lparr>world := sleep (logged sm) (drain_poll_delay (freeze_tuning s1)) (world s1)\<rparr>"
  have "extends s1 [EvSleep (drain_poll_delay (freeze_tuning s1))] ?s" unfolding logged_calls by (rule extends_step)
  then have "observed_by s1 ?s" by (rule observed_byI) simp
  with o Suc.IH [of ?s] observed_by_trans show ?case by (simp add: r Let_def) blast
qed

text \<open>The states in which the driver acts.\<close>

definition safe_state :: "('w \<times> event list) live_cluster \<Rightarrow> bool" where
  "safe_state s \<longleftrightarrow> safe_trace (inventory s) (normalize_version (target_version s)) (trace s)"

lemma safe_state_observed: "safe_state s \<Longrightarrow> observed_by s s' \<Longrightarrow> safe_state s'"
  by (auto simp: safe_state_def observed_by_def continues_def intro: safe_trace_observing)

lemma safe_state_step:
  "safe_state s \<Longrightarrow> extends s [e] s' \<Longrightarrow> allowed (inventory s) (normalize_version (target_version s)) (trace s) e \<Longrightarrow> safe_state s'"
  using extendsD [of s "[e]" s'] by (simp add: safe_state_def safe_trace_snoc)

lemma inventory_get_Some: "inventory_get ts i = Some t \<Longrightarrow> t \<in> set ts \<and> at_id t = i"
  by (auto simp: inventory_get_def find_Some_iff)

lemma safe_upgrade_node:
  assumes "safe_state s" and "committed_role (trace s) i = Some Replica" and "upgrade_node (logged sm) i s = (r, s')"
  shows "safe_state s' \<and> continues s s'"
proof (cases "inventory_get (inventory s) i")
  case None
  with assms show ?thesis by (auto simp: upgrade_node_def continues_def)
next
  case (Some t)
  then have c: "call (node_upgrade (logged sm) t) s = (r, s')" and t: "at_id t = i"
    using assms(3) inventory_get_Some by (auto simp: upgrade_node_def)
  note e = logsD [OF logs_logged(5) c]
  show ?thesis
    using safe_state_step [OF assms(1) e] assms(2) t extendsD(2) [OF e] by (simp add: allowed_def)
qed

lemma fold_min_mem: "fold min xs (x :: 'a :: linorder) \<in> set (x # xs)"
  by (induction xs arbitrary: x) (auto simp: min_def split: if_splits)

lemma safe_upgrade_next_replica:
  assumes "safe_state s" "view_fresh s" "live_upgrade_next_replica (logged sm) s = (r, s')"
  shows "safe_state s' \<and> continues s s'"
proof -
  let ?ids = "map nv_id (filter (\<lambda>n. nv_role n = Replica \<and> nv_version n \<noteq> cv_target_version (view s)) (cv_nodes (view s)))"
  show ?thesis
  proof (cases ?ids)
    case Nil
    with assms show ?thesis by (auto simp: live_upgrade_next_replica_def continues_def)
  next
    case (Cons i ids)
    have "fold min ids i \<in> set ?ids" unfolding Cons by (rule fold_min_mem)
    then obtain n where n: "n \<in> set (cv_nodes (view s))" "nv_role n = Replica" "nv_id n = fold min ids i" by auto
    with view_freshD(2) [OF assms(2) n(1)] have "committed_role (trace s) (fold min ids i) = Some Replica" by simp
    moreover have "upgrade_node (logged sm) (fold min ids i) s = (r, s')"
      using assms(3) Cons by (simp add: live_upgrade_next_replica_def)
    ultimately show ?thesis using safe_upgrade_node [OF assms(1)] by blast
  qed
qed

lemma safe_upgrade_old_primary:
  assumes "safe_state s" "view_fresh s" "view_primary_demoted (view s)" "live_upgrade_old_primary (logged sm) s = (r, s')"
  shows "safe_state s' \<and> continues s s'"
proof -
  from assms(3) obtain i n where i: "cv_old_primary_id (view s) = Some i" "n \<in> set (cv_nodes (view s))" "nv_id n = i" "nv_role n = Replica"
    by (auto simp: view_primary_demoted_def list_ex_iff split: option.splits)
  then have "committed_role (trace s) i = Some Replica" "old_primary_id s = Some i"
    using view_freshD(2) [OF assms(2) i(2)] view_freshD(6) [OF assms(2)] by simp_all
  then show ?thesis
    using assms(4) by (intro safe_upgrade_node [OF assms(1)]) (simp_all add: live_upgrade_old_primary_def)
qed

lemma min_by_key_mem: "min_by_key f xs = Some x \<Longrightarrow> x \<in> set xs"
  by (induction xs arbitrary: x) (auto split: option.splits if_splits)

lemma select_promotable:
  "select_promote_candidate v = Some c \<Longrightarrow> c \<in> set (cv_nodes v) \<and> is_promotable c (cv_target_version v) (cv_max_lag v)"
  unfolding select_promote_candidate_def by (drule min_by_key_mem) simp

text \<open>A failover right after a drained freeze is allowed when every replica is upgraded and the primary is not demoted.\<close>

lemma fenced_failover:
  assumes fresh: "view_fresh s" and "view_replicas_to_upgrade (view s) = 0" "\<not> view_primary_demoted (view s)"
    and c: "select_promote_candidate (view s) = Some c" "at_id candidate = nv_id c"
    and p: "old_primary_id s = Some (at_id p)" "p \<in> set (inventory s)" "pt_resp_addr pt = resp_addr p"
    and tr: "list_all observing mid" "slave_lag_for (obs_slaves obs) (resp_addr candidate) = Some 0"
  shows "fenced (inventory s) (normalize_version (target_version s))
    (trace s @ [EvFreeze pt (Inr ())] @ mid @ [EvObserve p (Inr obs)]) candidate"
proof -
  have "at_id p \<in> nv_id ` set (cv_nodes (view s))"
    using p(2) view_freshD(1) [OF fresh] by (metis image_eqI set_map)
  then obtain n where n: "n \<in> set (cv_nodes (view s))" "nv_id n = at_id p" by auto
  moreover have "nv_role n \<noteq> Replica"
    using assms(3) n p(1) view_freshD(6) [OF fresh] by (auto simp: view_primary_demoted_def list_ex_iff)
  ultimately have master: "committed_role (trace s) (at_id p) = Some Master"
    using view_freshD(2) [OF fresh, of n] by (cases "nv_role n") auto
  have replica: "committed_role (trace s) (at_id candidate) = Some Replica"
    using select_promotable [OF c(1)] view_freshD(2) [OF fresh, of c] c(2) by (auto simp: is_promotable_def)
  have seen: "seen_on (trace s) i (normalize_version (target_version s))" if i: "committed_role (trace s) i = Some Replica" for i
  proof -
    from i view_freshD(4) [OF fresh, of i] obtain n where n: "n \<in> set (cv_nodes (view s))" "nv_id n = i" by auto
    with i view_freshD(2) [OF fresh n(1)] have "nv_role n = Replica" by simp
    with n(1) assms(2) have "nv_version n = cv_target_version (view s)"
      by (auto simp: view_replicas_to_upgrade_def is_upgraded_def filter_empty_conv)
    with view_freshD(3) [OF fresh n(1)] n(2) view_freshD(5) [OF fresh] show ?thesis by simp
  qed
  show ?thesis
    unfolding fenced_def using p(2,3) tr master replica seen
    by (intro exI [of _ "trace s"] exI [of _ pt] exI [of _ mid] exI [of _ p] exI [of _ obs]) simp
qed

lemma safe_promote_candidate:
  assumes safe: "safe_state s" and fresh: "view_fresh s"
    and ready: "view_replicas_to_upgrade (view s) = 0" "\<not> view_primary_demoted (view s)"
    and run: "live_promote_candidate (logged sm) s = (r, s')"
  shows "safe_state s' \<and> continues s s'"
proof -
  consider (refused) e where "s' = s" "r = Inl e"
    | (go) c p candidate where "select_promote_candidate (view s) = Some c" "old_primary_id s = Some (at_id p)"
        "p \<in> set (inventory s)" "inventory_get (inventory s) (at_id p) = Some p" "inventory_get (inventory s) (nv_id c) = Some candidate"
    using run inventory_get_Some by (fastforce simp: live_promote_candidate_def split: option.splits)
  then show ?thesis
  proof cases
    case refused
    then show ?thesis using safe by (simp add: continues_def)
  next
    case go
    let ?pt = "\<lparr>pt_resp_addr = resp_addr p, pt_auth = at_auth p, pt_window_ms = pause_window_ms (freeze_tuning s)\<rparr>"
    obtain r1 s1 where f: "call (freeze (logged sm) ?pt) s = (r1, s1)" by fastforce
    have e1: "extends s [EvFreeze ?pt r1] s1"
      using f unfolding logged_calls by (auto simp: extends_step split: prod.splits)
    have safe1: "safe_state s1" by (rule safe_state_step [OF safe e1]) (simp add: allowed_quiet)
    obtain r2 s2 where d: "drain_candidate_to_zero (logged sm) p candidate s1 = (r2, s2)" by fastforce
    from drain_polls_extends [OF this [unfolded drain_candidate_to_zero_def]] obtain ext where
      e2: "extends s1 ext s2" "list_all observing ext"
        "\<not> isl r2 \<longrightarrow> (\<exists>mid obs. ext = mid @ [EvObserve p (Inr obs)] \<and> slave_lag_for (obs_slaves obs) (resp_addr candidate) = Some 0)"
      by blast
    have safe2: "safe_state s2" by (rule safe_state_observed [OF safe1 observed_byI [OF e2(1,2)]])
    obtain r3 s3 where c: "call (cluster_failover (logged sm) candidate) s2 = (r3, s3)" by fastforce
    note e3 = logsD [OF logs_logged(4) c]
    have unfrozen: "safe_state (snd (call (unfreeze (logged sm) ?pt) t)) \<and> continues t (snd (call (unfreeze (logged sm) ?pt) t))"
      if "safe_state t" for t
    proof -
      have e: "extends t [EvUnfreeze ?pt (fst (call (unfreeze (logged sm) ?pt) t))] (snd (call (unfreeze (logged sm) ?pt) t))"
        unfolding logged_calls by (auto simp: extends_step split_beta Let_def)
      show ?thesis
        using safe_state_step [OF that e] extendsD(2) [OF e] by (simp add: allowed_quiet)
    qed
    have cfg2: "continues s s1" "continues s s2" "continues s s3"
      using extendsD(2) [OF e1] extendsD(2) [OF e2(1)] extendsD(2) [OF e3] by (blast intro: continues_trans)+
    have safe3: "safe_state s3" if "r1 = Inr ()" "\<not> isl r2"
    proof (rule safe_state_step [OF safe2 e3])
      from e2(3) that(2) obtain mid obs where m: "ext = mid @ [EvObserve p (Inr obs)]"
        "slave_lag_for (obs_slaves obs) (resp_addr candidate) = Some 0" by blast
      have "trace s2 = trace s @ [EvFreeze ?pt (Inr ())] @ mid @ [EvObserve p (Inr obs)]"
        using extendsD(1) [OF e1] extendsD(1) [OF e2(1)] m(1) that(1) by simp
      moreover have "inventory s2 = inventory s" "target_version s2 = target_version s"
        using cfg2(2) by (simp_all add: continues_def)
      ultimately show "allowed (inventory s2) (normalize_version (target_version s2)) (trace s2) (EvFailover candidate r3)"
        using fenced_failover [OF fresh ready go(1) _ go(2,3), of candidate ?pt mid obs] m e2(2) inventory_get_Some [OF go(5)]
        by (simp add: allowed_def)
    qed
    have s': "s' = (case r1 of Inl _ \<Rightarrow> s1 | Inr _ \<Rightarrow> (case r2 of Inl _ \<Rightarrow> snd (call (unfreeze (logged sm) ?pt) s2) | Inr _ \<Rightarrow>
        (case r3 of Inl _ \<Rightarrow> snd (call (unfreeze (logged sm) ?pt) s3) | Inr _ \<Rightarrow>
          confirm_polls (logged sm) (max_drain_polls (freeze_tuning (snd (call (unfreeze (logged sm) ?pt) s3)))) (snd (call (unfreeze (logged sm) ?pt) s3)))))"
      using run go f d c by (cases r1; cases r2; cases r3) (auto simp: live_promote_candidate_def Let_def)
    have conf: "safe_state t \<Longrightarrow> safe_state (confirm_polls (logged sm) n t) \<and> continues t (confirm_polls (logged sm) n t)" for t n
      using confirm_polls_observed by (blast intro: safe_state_observed observed_by_cfg)
    have thaw: "safe_state (snd (call (unfreeze (logged sm) ?pt) t)) \<and> continues s (snd (call (unfreeze (logged sm) ?pt) t))"
      if "safe_state t" "continues s t" for t
      using unfrozen [OF that(1)] continues_trans [OF that(2)] by blast
    show ?thesis
    proof (cases r1)
      case (Inl e)
      with s' safe1 cfg2(1) show ?thesis by simp
    next
      case f1: (Inr u)
      show ?thesis
      proof (cases r2)
        case (Inl e)
        with s' f1 thaw [OF safe2 cfg2(2)] show ?thesis by simp
      next
        case (Inr v)
        with f1 have safe3: "safe_state s3" by (intro safe3) simp_all
        note t = thaw [OF this cfg2(3)]
        with s' f1 Inr conf continues_trans show ?thesis by (cases r3) (simp, fastforce)
      qed
    qed
  qed
qed

subsection \<open>The whole roll\<close>

lemma live_actions_simps [simp]:
  "replicas_to_upgrade (live_actions sm) s = view_replicas_to_upgrade (view s)"
  "replica_catching_up (live_actions sm) s = view_replica_catching_up (view s)"
  "promotion_verdict (live_actions sm) s = view_promotion_safety (view s)"
  "primary_demoted (live_actions sm) s = view_primary_demoted (view s)"
  "old_primary_upgraded (live_actions sm) s = view_old_primary_upgraded (view s)"
  "master_on_target (live_actions sm) s = view_master_on_target (view s)"
  "upgrade_next_replica (live_actions sm) = live_upgrade_next_replica sm"
  "promote_candidate (live_actions sm) = live_promote_candidate sm"
  "upgrade_old_primary (live_actions sm) = live_upgrade_old_primary sm"
  "wait_for_progress (live_actions sm) = live_wait_for_progress sm"
  by (simp_all add: live_actions_def)

lemma next_upgrade_step_iff:
  "next_upgrade_step k catching promotion demoted old_up master_up = Promote \<longleftrightarrow>
     \<not> demoted \<and> \<not> catching \<and> k = 0 \<and> \<not> master_up \<and> promotion = Safe"
  "next_upgrade_step k catching promotion demoted old_up master_up = UpgradeOldPrimary \<longleftrightarrow> demoted \<and> \<not> old_up"
  "next_upgrade_step k catching promotion demoted old_up master_up = UpgradeReplica \<longleftrightarrow> \<not> demoted \<and> \<not> catching \<and> k > 0"
  "next_upgrade_step k catching promotion demoted old_up master_up = UpgradeDone \<longleftrightarrow>
     demoted \<and> old_up \<or> \<not> demoted \<and> \<not> catching \<and> k = 0 \<and> master_up"
  by (auto simp: next_upgrade_step_def split: promotion_safety.splits)

lemma drive_safe:
  assumes "safe_state s" "view_fresh s" "drive_upgrade_step (live_actions (logged sm)) s = (r, s')"
  shows "safe_state s' \<and> continues s s'"
proof -
  let ?step = "step_of (live_actions (logged sm)) s"
  obtain x where act: "act_on (live_actions (logged sm)) ?step s = (x, s')"
    using assms(3) by (auto simp: drive_upgrade_step_def Let_def split: prod.splits sum.splits)
  show ?thesis
  proof (cases ?step)
    case UpgradeReplica
    with act show ?thesis by (intro safe_upgrade_next_replica [OF assms(1,2), of sm x]) (simp add: act_on_def)
  next
    case Promote
    then have "view_replicas_to_upgrade (view s) = 0" "\<not> view_primary_demoted (view s)"
      by (simp_all add: step_of_def next_upgrade_step_iff)
    with Promote act show ?thesis by (intro safe_promote_candidate [OF assms(1,2), of sm x]) (simp_all add: act_on_def)
  next
    case UpgradeOldPrimary
    then have "view_primary_demoted (view s)" by (simp add: step_of_def next_upgrade_step_iff)
    with UpgradeOldPrimary act show ?thesis
      by (intro safe_upgrade_old_primary [OF assms(1,2), of sm x]) (simp_all add: act_on_def)
  qed (use act assms(1) in \<open>simp_all add: act_on_def continues_def\<close>)
qed

lemma wait_safe:
  assumes "safe_state s" "live_wait_for_progress (logged sm) s = (r, s')"
  shows "safe_state s' \<and> continues s s' \<and> (\<not> isl r \<longrightarrow> view_fresh s')"
proof -
  let ?s = "s\<lparr>world := sleep (logged sm) (tick_delay s) (world s)\<rparr>"
  have "extends s [EvSleep (tick_delay s)] ?s" unfolding logged_calls by (rule extends_step)
  then have o: "observed_by s ?s" by (rule observed_byI) simp
  obtain r1 where f: "refresh (logged sm) ?s = (r1, s')" "isl r = isl r1"
    using assms(2) by (auto simp: live_wait_for_progress_def split: prod.splits sum.splits)
  have "observed_by s s'" using observed_by_trans [OF o] refresh_spec [OF f(1)] by blast
  then show ?thesis
    using safe_state_observed [OF assms(1)] refresh_spec [OF f(1)] f(2) by (cases r1) (auto dest: observed_by_cfg)
qed

lemma ticks_safe:
  assumes "safe_state s" "view_fresh s" "upgrade_ticks (live_actions (logged sm)) n last_step s = (r, s')"
  shows "safe_state s' \<and> continues s s'"
  using assms
proof (induction n arbitrary: last_step s)
  case 0
  then show ?case by (simp add: continues_def)
next
  case (Suc n)
  obtain r1 s1 where d: "drive_upgrade_step (live_actions (logged sm)) s = (r1, s1)" by fastforce
  note s1 = drive_safe [OF Suc.prems(1,2) d]
  obtain r2 s2 where w: "live_wait_for_progress (logged sm) s1 = (r2, s2)" by fastforce
  note s2 = wait_safe [OF conjunct1 [OF s1] w]
  show ?case
  proof (cases "(\<exists>e. r1 = Inl e) \<or> r1 = Inr UpgradeDone")
    case True
    with Suc.prems(3) d s1 show ?thesis by auto
  next
    case False
    then obtain step where step: "r1 = Inr step" "step \<noteq> UpgradeDone" by (cases r1) auto
    show ?thesis
    proof (cases r2)
      case (Inl e)
      with Suc.prems(3) d w step s1 s2 show ?thesis by (auto dest: continues_trans)
    next
      case (Inr u)
      then have "upgrade_ticks (live_actions (logged sm)) n (Some step) s2 = (r, s')"
        using Suc.prems(3) d w step by simp
      from Suc.IH [OF _ _ this] s2 Inr have "safe_state s' \<and> continues s2 s'" by simp
      with s1 s2 show ?thesis by (blast intro: continues_trans)
    qed
  qed
qed

lemma run_cluster_cases:
  assumes safe: "safe_state s" and run: "run_cluster_upgrade (logged sm) max_ticks s = (r, s')"
  obtains (failed) e where "r = Inl e" "observed_by s s'"
  | (noop) "r = Inr Completed" "observed_by s s'" "view_fresh s'" "shard_fully_upgraded (view s')"
  | (roll) s1 where "observed_by s s1" "view_fresh s1" "\<not> shard_fully_upgraded (view s1)" "continues s1 s'" "safe_state s'"
      "r = Inr Completed \<Longrightarrow> view_fresh s' \<and> list_all (\<lambda>n. nv_version n = cv_target_version (view s')) (cv_nodes (view s'))"
proof -
  obtain r1 s1 where f: "refresh (logged sm) s = (r1, s1)" by fastforce
  note spec1 = refresh_spec [OF f]
  show thesis
  proof (cases r1)
    case (Inl e)
    with f run spec1 show thesis by (intro failed [of e]) (auto simp: run_cluster_upgrade_def)
  next
    case (Inr v)
    then have fresh1: "view_fresh s1" and o1: "observed_by s s1" using spec1 by blast+
    show thesis
    proof (cases "shard_fully_upgraded (view s1)")
      case True
      with f run Inr fresh1 o1 show thesis by (intro noop) (auto simp: run_cluster_upgrade_def)
    next
      case False
      obtain r2 s2 where t: "upgrade_ticks (live_actions (logged sm)) max_ticks None s1 = (r2, s2)" by fastforce
      note s2 = ticks_safe [OF safe_state_observed [OF safe o1] fresh1 t]
      show thesis
      proof (cases "r2 = Inr Completed")
        case n: False
        then have "s' = s2" "r \<noteq> Inr Completed"
          using f run Inr False t by (auto simp: run_cluster_upgrade_def run_rolling_upgrade_def split: sum.splits)
        with o1 fresh1 False s2 show thesis by (intro roll [of s1]) simp_all
      next
        case y: True
        obtain r3 s3 where f3: "refresh (logged sm) s2 = (r3, s3)" by fastforce
        note spec3 = refresh_spec [OF f3]
        have s': "s' = s3" "r = Inr Completed \<Longrightarrow> (\<exists>v. r3 = Inr v) \<and> list_all (\<lambda>n. nv_version n = cv_target_version (view s3)) (cv_nodes (view s3))"
          using f run Inr False t y f3
          by (cases r3; auto simp: run_cluster_upgrade_def run_rolling_upgrade_def Let_def find_None_iff list_all_iff split: option.splits)+
        have "continues s1 s3" "safe_state s3"
          using s2 spec3 by (blast intro: continues_trans observed_by_cfg safe_state_observed)+
        with o1 fresh1 False s' spec3 show thesis by (intro roll [of s1]) blast+
      qed
    qed
  qed
qed

lemma upgraded_seen:
  assumes "view_fresh s" and "list_all (\<lambda>n. nv_version n = cv_target_version (view s)) (cv_nodes (view s))" "t \<in> set (inventory s)"
  shows "seen_on (trace s) (at_id t) (normalize_version (target_version s))"
proof -
  have "at_id t \<in> nv_id ` set (cv_nodes (view s))"
    using assms(3) view_freshD(1) [OF assms(1)] by (metis image_eqI set_map)
  then obtain n where n: "n \<in> set (cv_nodes (view s))" "nv_id n = at_id t" by auto
  with assms(2) view_freshD(5) [OF assms(1)] have "nv_version n = normalize_version (target_version s)"
    by (simp add: list_all_iff)
  with view_freshD(3) [OF assms(1) n(1)] n(2) show ?thesis by simp
qed

lemma seen_off_target:
  assumes "seen_on tr i v" and "v \<noteq> target"
  shows "\<not> list_all (on_target target) tr"
proof -
  from assms(1) obtain e where e: "e \<in> set tr"
    "case e of EvObserve t (Inr obs) \<Rightarrow> at_id t = i \<and> normalize_version (obs_version obs) = v | _ \<Rightarrow> False"
    unfolding seen_on_def list_ex_iff by (metis (no_types, lifting) set_takeWhileD set_rev)
  then have "\<not> on_target target e"
    using assms(2) by (auto simp: on_target_def split: event.splits sum.splits)
  with e(1) show ?thesis by (auto simp: list_all_iff)
qed

lemma run_empty_inventory:
  assumes "cfg_inventory config = []"
  shows "run_cluster_upgrade sm max_ticks (live_new w config) = (Inl (Discover ''no inventory nodes to query''), live_new w config)"
  using assms by (simp add: run_cluster_upgrade_def refresh_def live_new_def)

lemma new_safe: "safe_state (live_new (w, []) config)"
  by (simp add: safe_state_def live_new_def)

lemma live_new_fields [simp]:
  "inventory (live_new w config) = cfg_inventory config" "target_version (live_new w config) = cfg_target_version config"
  "world (live_new w config) = w"
  by (simp_all add: live_new_def)

text \<open>
  C25: whatever the nodes answer, a rolling upgrade swaps the binary of a node only while the latest \<open>CLUSTER SHARDS\<close>
  says it is a replica, and it issues a failover only behind the fence: writes are frozen on the current owner, the
  owner has since been seen to have the candidate without lag, and every replica had been seen on the new version.
\<close>

theorem roll_is_fenced:
  "safe_trace (cfg_inventory config) (normalize_version (cfg_target_version config))
     (snd (world (snd (run_cluster_upgrade (logged sm) max_ticks (live_new (w, []) config)))))"
proof -
  let ?s = "live_new (w, []) config"
  obtain r s' where run: "run_cluster_upgrade (logged sm) max_ticks ?s = (r, s')" by fastforce
  have "safe_state s' \<and> continues ?s s'"
    using new_safe run
  proof (cases rule: run_cluster_cases)
    case (roll s1)
    then show ?thesis by (blast intro: continues_trans observed_by_cfg)
  qed (auto intro: safe_state_observed new_safe observed_by_cfg)
  then show ?thesis by (auto simp: run safe_state_def continues_def)
qed

text \<open>
  C27: a roll reports completion only when every node of the inventory has been seen on the target version since the
  latest \<open>CLUSTER SHARDS\<close>. A roll in which no node is ever seen on another version changes nothing: it only observes.
\<close>

theorem completed_roll_is_complete:
  assumes run: "run_cluster_upgrade (logged sm) max_ticks (live_new (w, []) config) = (r, s')"
  shows "(r = Inr Completed \<longrightarrow>
      (\<forall>t \<in> set (cfg_inventory config). seen_on (trace s') (at_id t) (normalize_version (cfg_target_version config)))) \<and>
   (list_all (on_target (normalize_version (cfg_target_version config))) (trace s') \<longrightarrow> list_all observing (trace s'))"
  using new_safe run
proof (cases rule: run_cluster_cases)
  case (failed e)
  then show ?thesis by (auto simp: observed_by_def)
next
  case noop
  then have "list_all (\<lambda>n. nv_version n = cv_target_version (view s')) (cv_nodes (view s'))"
    by (simp add: shard_fully_upgraded_def is_upgraded_def)
  with upgraded_seen [OF noop(3) this] noop(2) show ?thesis
    by (auto simp: observed_by_def continues_def)
next
  case (roll s1)
  have c: "continues (live_new (w, []) config) s'" "continues (live_new (w, []) config) s1"
    using roll(1,4) by (blast intro: continues_trans observed_by_cfg)+
  show ?thesis
  proof (cases "cfg_inventory config = []")
    case True
    from run_empty_inventory [OF this, of "logged sm" max_ticks "(w, [])"] run show ?thesis by auto
  next
    case False
    then have "cv_nodes (view s1) \<noteq> []"
      using view_freshD(1) [OF roll(2)] c(2) by (auto simp: continues_def)
    then obtain n where n: "n \<in> set (cv_nodes (view s1))" "nv_version n \<noteq> cv_target_version (view s1)"
      using roll(3) by (auto simp: shard_fully_upgraded_def is_upgraded_def list_all_iff)
    then have "\<not> list_all (on_target (normalize_version (cfg_target_version config))) (trace s1)"
      using seen_off_target [OF view_freshD(3) [OF roll(2) n(1)]] view_freshD(5) [OF roll(2)] c(2) by (simp add: continues_def)
    then have "\<not> list_all (on_target (normalize_version (cfg_target_version config))) (trace s')"
      using roll(4) by (auto simp: continues_def)
    moreover have "seen_on (trace s') (at_id t) (normalize_version (cfg_target_version config))"
      if "r = Inr Completed" "t \<in> set (cfg_inventory config)" for t
      using upgraded_seen [of s' t] roll(6) [OF that(1)] that(2) c(1) by (simp add: continues_def)
    ultimately show ?thesis by blast
  qed
qed

end
