(* ===== verification/Upgrade_Liveness.thy ===== *)
theory Upgrade_Liveness
  imports Upgrade_Safety
begin

text \<open>
  A rolling upgrade of a cluster that behaves as its nodes are documented to: a swapped node comes back on the new
  version and catches up within a bounded time, a failover commits, and the new owner becomes visible in \<open>CLUSTER SHARDS\<close>
  after a bounded number of reads. The driver completes the roll on every such cluster.
\<close>

subsection \<open>A cooperating cluster\<close>

record cluster =
  versions :: "string \<Rightarrow> string"
  owner_node :: string
  resync :: "string \<Rightarrow> nat"
  stale_reads :: nat
  prev_owner :: string

definition visible_owner :: "cluster \<Rightarrow> string" where
  "visible_owner w = (if stale_reads w > 0 then prev_owner w else owner_node w)"

definition slave_of :: "cluster \<Rightarrow> actuation_target \<Rightarrow> slave_entry list" where
  "slave_of w t =
     (case split_host_port (resp_addr t) of
        None \<Rightarrow> []
      | Some (host, port) \<Rightarrow> [\<lparr>se_host = host, se_port = port, se_lag = resync w (at_id t)\<rparr>])"

definition observation :: "actuation_target list \<Rightarrow> cluster \<Rightarrow> actuation_target \<Rightarrow> node_observation" where
  "observation ts w t =
     \<lparr>obs_role = (if at_id t = owner_node w then Master else Replica), obs_version = versions w (at_id t),
      obs_link = (if at_id t \<noteq> owner_node w \<and> resync w (at_id t) = 0 then LinkUp else LinkDown),
      obs_slaves = (if at_id t = owner_node w then concat (map (slave_of w) (filter (\<lambda>u. at_id u \<noteq> at_id t) ts)) else []), obs_shards = 1\<rparr>"

text \<open>The nodes \<open>ts\<close>, which take \<open>delay\<close> ticks to catch up after a swap to \<open>version\<close>; a failover shows after \<open>reads\<close> reads.\<close>

definition cooperating :: "actuation_target list \<Rightarrow> string \<Rightarrow> nat \<Rightarrow> nat \<Rightarrow> cluster seams" where
  "cooperating ts version delay reads =
     \<lparr>discover_members = (\<lambda>t w.
        (Inr (map (\<lambda>t. \<lparr>mem_id = at_id t, mem_role = (if at_id t = visible_owner w then Master else Replica)\<rparr>) ts),
         w\<lparr>stale_reads := stale_reads w - 1\<rparr>)),
      observe_node = (\<lambda>t w. (Inr (observation ts w t), w)),
      observe_quorum = (\<lambda>t w. (Inr \<lparr>state_ok = True, raft_leader_present = True\<rparr>, w)),
      cluster_failover = (\<lambda>t w. (Inr (), w\<lparr>owner_node := at_id t, prev_owner := owner_node w, stale_reads := reads\<rparr>)),
      node_upgrade = (\<lambda>t w. (Inr (), w\<lparr>versions := (versions w)(at_id t := version), resync := (resync w)(at_id t := delay)\<rparr>)),
      freeze = (\<lambda>t w. (Inr (), w)), unfreeze = (\<lambda>t w. (Inr (), w)),
      sleep = (\<lambda>d w. w\<lparr>resync := (\<lambda>i. resync w i - 1)\<rparr>)\<rparr>"

subsection \<open>One observation of it\<close>

definition node_seen :: "cluster \<Rightarrow> string \<Rightarrow> actuation_target \<Rightarrow> node_view" where
  "node_seen w shown t =
     (let role = (if at_id t = shown then Master else Replica);
          up = (at_id t \<noteq> owner_node w \<and> resync w (at_id t) = 0)
      in \<lparr>nv_id = at_id t, nv_version = normalize_version (versions w (at_id t)), nv_role = role,
          nv_link = (if role = Replica \<and> up then LinkUp else LinkDown),
          nv_lag = (if role = Master then None
                    else Some (if up \<and> shown = owner_node w then known_lag 0 else lag_unknown))\<rparr>)"

definition view_seen :: "actuation_target list \<Rightarrow> cluster \<Rightarrow> string \<Rightarrow> string \<Rightarrow> nat \<Rightarrow> string option \<Rightarrow> cluster_view" where
  "view_seen ts w shown version bound old =
     \<lparr>cv_nodes = map (node_seen w shown) ts, cv_target_version = normalize_version version, cv_max_lag = bound,
      cv_raft_quorum = True, cv_old_primary_id = old\<rparr>"

text \<open>Every node has its own address.\<close>

definition addressed :: "actuation_target list \<Rightarrow> bool" where
  "addressed ts \<longleftrightarrow> distinct (map at_id ts) \<and> distinct (map (split_host_port \<circ> resp_addr) ts) \<and>
     list_all (\<lambda>t. split_host_port (resp_addr t) \<noteq> None) ts"

lemma cooperating_simps [simp]:
  "discover_members (cooperating ts version delay reads) t w =
     (Inr (map (\<lambda>t. \<lparr>mem_id = at_id t, mem_role = (if at_id t = visible_owner w then Master else Replica)\<rparr>) ts),
      w\<lparr>stale_reads := stale_reads w - 1\<rparr>)"
  "observe_node (cooperating ts version delay reads) t w = (Inr (observation ts w t), w)"
  "observe_quorum (cooperating ts version delay reads) t w = (Inr \<lparr>state_ok = True, raft_leader_present = True\<rparr>, w)"
  "cluster_failover (cooperating ts version delay reads) t w =
     (Inr (), w\<lparr>owner_node := at_id t, prev_owner := owner_node w, stale_reads := reads\<rparr>)"
  "node_upgrade (cooperating ts version delay reads) t w =
     (Inr (), w\<lparr>versions := (versions w)(at_id t := version), resync := (resync w)(at_id t := delay)\<rparr>)"
  "freeze (cooperating ts version delay reads) pt w = (Inr (), w)"
  "unfreeze (cooperating ts version delay reads) pt w = (Inr (), w)"
  "sleep (cooperating ts version delay reads) d w = w\<lparr>resync := (\<lambda>i. resync w i - 1)\<rparr>"
  by (simp_all add: cooperating_def)

lemma call_eq: "call f s = (r, s\<lparr>world := w\<rparr>)" if "f (world s) = (r, w)"
  using that by (simp add: call_def)

lemma slaves_lag:
  assumes "addressed ts" "t \<in> set ts"
  shows "slave_lag_for (concat (map (slave_of w) ts)) (resp_addr t) = Some (resync w (at_id t))"
  using assms
proof (induction ts)
  case (Cons a ts)
  have ok: "addressed ts" using Cons.prems(1) by (simp add: addressed_def)
  obtain ha pa where a: "split_host_port (resp_addr a) = Some (ha, pa)" using Cons.prems(1) by (auto simp: addressed_def)
  show ?case
  proof (cases "t = a")
    case True
    with a show ?thesis by (simp add: slave_of_def slave_lag_for_def)
  next
    case False
    then have t: "t \<in> set ts" using Cons.prems(2) by simp
    have "split_host_port (resp_addr a) \<notin> (\<lambda>x. split_host_port (resp_addr x)) ` set ts"
      using Cons.prems(1) by (simp add: addressed_def)
    with t have "split_host_port (resp_addr t) \<noteq> split_host_port (resp_addr a)" by (metis image_eqI)
    with a Cons.IH [OF ok t] show ?thesis
      by (auto simp: slave_of_def slave_lag_for_def split: option.splits)
  qed
qed simp

lemma addressed_filter: "addressed ts \<Longrightarrow> addressed (filter P ts)"
  by (auto simp: addressed_def list_all_iff distinct_map_filter)

lemma owner_lag:
  assumes "addressed ts" "t \<in> set ts" "at_id t \<noteq> at_id p" "at_id p = owner_node w"
  shows "slave_lag_for (obs_slaves (observation ts w p)) (resp_addr t) = Some (resync w (at_id t))"
  using assms slaves_lag [OF addressed_filter [OF assms(1)], of t "\<lambda>u. at_id u \<noteq> at_id p"] by (simp add: observation_def)

definition observed_nodes :: "actuation_target list \<Rightarrow> cluster \<Rightarrow> string \<Rightarrow> (actuation_target \<times> node_observation \<times> node_role) list" where
  "observed_nodes ts w shown = map (\<lambda>t. (t, observation ts w t, if at_id t = shown then Master else Replica)) ts"

lemma find_shown:
  "t \<in> set ts \<Longrightarrow> List.find (\<lambda>m. mem_id m = at_id t) (map (\<lambda>t. \<lparr>mem_id = at_id t, mem_role = r (at_id t)\<rparr>) ts) =
     Some \<lparr>mem_id = at_id t, mem_role = r (at_id t)\<rparr>"
  by (induction ts) auto

lemma observe_all_cooperating:
  assumes "set us \<subseteq> set ts"
  shows "observe_all (cooperating ts version delay reads)
      (map (\<lambda>t. \<lparr>mem_id = at_id t, mem_role = (if at_id t = shown then Master else Replica)\<rparr>) ts) us s =
    (Inr (map (\<lambda>t. (t, observation ts (world s) t, if at_id t = shown then Master else Replica)) us), s)"
  using assms
proof (induction us)
  case (Cons u us)
  have "shard_role (map (\<lambda>t. \<lparr>mem_id = at_id t, mem_role = (if at_id t = shown then Master else Replica)\<rparr>) ts) u obs =
      (if at_id u = shown then Master else Replica)" for obs
    using find_shown [of u ts "\<lambda>i. if i = shown then Master else Replica"] Cons.prems by (simp add: shard_role_def)
  with Cons show ?case by (simp add: call_def)
qed simp

lemma find_master:
  "p \<in> set us \<Longrightarrow> at_id p = shown \<Longrightarrow> distinct (map at_id us) \<Longrightarrow>
   List.find (\<lambda>(t, obs, role). role = Master) (map (\<lambda>t. (t, f t, if at_id t = shown then Master else Replica)) us) =
     Some (p, f p, Master)"
  by (induction us) (auto simp: rev_image_eqI)

lemma find_seen_master:
  "p \<in> set us \<Longrightarrow> at_id p = shown \<Longrightarrow> distinct (map at_id us) \<Longrightarrow>
   List.find (\<lambda>n. nv_role n = Master) (map (node_seen w shown) us) = Some (node_seen w shown p)"
  by (induction us) (auto simp: rev_image_eqI node_seen_def Let_def)

lemma find_none_map: "(\<And>x. x \<in> set xs \<Longrightarrow> \<not> P (f x)) \<Longrightarrow> List.find P (map f xs) = None"
  by (auto simp: find_None_iff)

lemma node_view_cooperating:
  assumes "addressed ts" "t \<in> set ts" "p \<in> set ts" "at_id p = shown"
  shows "node_view_of (obs_slaves (observation ts w p)) (t, observation ts w t, if at_id t = shown then Master else Replica) =
    node_seen w shown t"
proof (cases "at_id t = shown")
  case True
  then show ?thesis by (simp add: node_view_of_def node_seen_def observation_def Let_def)
next
  case False
  have lag: "slave_lag_for (obs_slaves (observation ts w p)) (resp_addr t) =
      (if shown = owner_node w then Some (resync w (at_id t)) else None)"
  proof (cases "shown = owner_node w")
    case True
    with owner_lag [OF assms(1,2)] False assms(4) show ?thesis by simp
  next
    case False
    with assms(4) show ?thesis by (simp add: observation_def slave_lag_for_def split: option.split)
  qed
  have link: "is_up (obs_link (observation ts w t)) \<longleftrightarrow> at_id t \<noteq> owner_node w \<and> resync w (at_id t) = 0"
    "obs_version (observation ts w t) = versions w (at_id t)"
    by (simp_all add: observation_def is_up_def)
  show ?thesis
    using False lag by (simp add: node_view_of_def node_seen_def Let_def link)
qed

lemma refresh_cooperating:
  assumes ts: "addressed ts" "inventory s = ts" and p: "p \<in> set ts" "at_id p = visible_owner (world s)"
  shows "refresh (cooperating ts version delay reads) s =
    (let w = (world s)\<lparr>stale_reads := stale_reads (world s) - 1\<rparr>;
         old = (if old_primary_id s = None then Some (visible_owner (world s)) else old_primary_id s);
         v = view_seen ts w (visible_owner (world s)) (target_version s) (max_lag s) old
     in (Inr v, s\<lparr>world := w, old_primary_id := old, view := v\<rparr>))"
proof -
  let ?sm = "cooperating ts version delay reads" and ?shown = "visible_owner (world s)"
  let ?w = "(world s)\<lparr>stale_reads := stale_reads (world s) - 1\<rparr>"
  let ?members = "map (\<lambda>t. \<lparr>mem_id = at_id t, mem_role = (if at_id t = ?shown then Master else Replica)\<rparr>) ts"
  let ?observed = "map (\<lambda>t. (t, observation ts ?w t, if at_id t = ?shown then Master else Replica)) ts"
  obtain t0 ts' where cons: "ts = t0 # ts'" using p(1) by (cases ts) auto
  have d: "distinct (map at_id ts)" using ts(1) by (simp add: addressed_def)
  have discover: "any_seed (discover_members ?sm) ts e s = (Inr ?members, s\<lparr>world := ?w\<rparr>)" for e
    by (subst cons) (simp add: call_def)
  have quorum: "any_seed (observe_quorum ?sm) ts e s1 = (Inr \<lparr>state_ok = True, raft_leader_present = True\<rparr>, s1)" for e and s1 :: "cluster live_cluster"
    by (subst cons) (simp add: call_def)
  have shards: "List.find (\<lambda>(t, obs, role). obs_shards obs > 1) ?observed = None"
    by (rule find_none_map) (simp add: observation_def)
  have slaves: "master_view ?observed = obs_slaves (observation ts ?w p)"
    unfolding master_view_def find_master [OF p(1) p(2) d] by simp
  have nodes: "map (node_view_of (master_view ?observed)) ?observed = map (node_seen ?w ?shown) ts"
    unfolding slaves using node_view_cooperating [OF ts(1) _ p] by simp
  have capture: "capture_primary (map (node_seen ?w ?shown) ts) (old_primary_id s) =
      (if old_primary_id s = None then Some ?shown else old_primary_id s)"
    using find_seen_master [OF p d] p(2) by (simp add: capture_primary_def node_seen_def Let_def)
  have "refresh ?sm s = assemble_view ?sm ?observed (s\<lparr>world := ?w\<rparr>)"
    unfolding refresh_def ts(2) discover by (simp add: ts(2) observe_all_cooperating Let_def comp_def del: One_nat_def)
  then show ?thesis
    unfolding assemble_view_def shards nodes Let_def option.case
    by (simp add: capture quorum ts(2) has_quorum_def view_seen_def del: One_nat_def split del: if_split)
qed

subsection \<open>What the driver sees\<close>

definition upgraded :: "string \<Rightarrow> cluster \<Rightarrow> string \<Rightarrow> bool" where
  "upgraded version w i \<longleftrightarrow> normalize_version (versions w i) = normalize_version version"

lemma in_sync_lags [simp]: "in_sync (known_lag 0) bound" "\<not> in_sync lag_unknown bound"
  by (simp_all add: in_sync_def known_lag_def lag_compute_def lag_def lag_unknown_def)

lemma node_seen_simps [simp]:
  "nv_id (node_seen w shown t) = at_id t"
  "is_upgraded (node_seen w shown t) (normalize_version version) = upgraded version w (at_id t)"
  "nv_version (node_seen w shown t) = normalize_version (versions w (at_id t))"
  "nv_role (node_seen w shown t) = Replica \<longleftrightarrow> at_id t \<noteq> shown" "nv_role (node_seen w shown t) = Master \<longleftrightarrow> at_id t = shown"
  "is_up (nv_link (node_seen w shown t)) \<and> lag_in_sync (node_seen w shown t) bound \<longleftrightarrow>
     at_id t \<noteq> shown \<and> at_id t \<noteq> owner_node w \<and> resync w (at_id t) = 0 \<and> shown = owner_node w"
  by (auto simp: node_seen_def Let_def is_upgraded_def upgraded_def is_up_def lag_in_sync_def)

lemma view_seen_fields [simp]:
  "cv_nodes (view_seen ts w shown version bound old) = map (node_seen w shown) ts"
  "cv_target_version (view_seen ts w shown version bound old) = normalize_version version"
  "cv_max_lag (view_seen ts w shown version bound old) = bound" "cv_raft_quorum (view_seen ts w shown version bound old)"
  "cv_old_primary_id (view_seen ts w shown version bound old) = old"
  by (simp_all add: view_seen_def)

lemma view_seen_replicas:
  "view_replicas_to_upgrade (view_seen ts w shown version bound old) =
     length (filter (\<lambda>t. at_id t \<noteq> shown \<and> \<not> upgraded version w (at_id t)) ts)"
  by (simp add: view_replicas_to_upgrade_def filter_map comp_def)

lemma view_seen_catching_up:
  "view_replica_catching_up (view_seen ts w shown version bound old) \<longleftrightarrow>
     (\<exists>t \<in> set ts. at_id t \<noteq> shown \<and> upgraded version w (at_id t) \<and>
        \<not> (at_id t \<noteq> owner_node w \<and> resync w (at_id t) = 0 \<and> shown = owner_node w))"
  unfolding view_replica_catching_up_def view_seen_fields list_ex_iff set_map bex_simps(7) node_seen_simps by blast

lemma view_seen_demoted:
  "view_primary_demoted (view_seen ts w shown version bound (Some p)) \<longleftrightarrow> p \<in> at_id ` set ts \<and> p \<noteq> shown"
  unfolding view_primary_demoted_def view_seen_fields list_ex_iff set_map option.case bex_simps(7) node_seen_simps by blast

lemma view_seen_upgraded:
  "view_old_primary_upgraded (view_seen ts w shown version bound (Some p)) \<longleftrightarrow> p \<in> at_id ` set ts \<and> upgraded version w p"
  "view_master_on_target (view_seen ts w shown version bound old) \<longleftrightarrow> shown \<in> at_id ` set ts \<and> upgraded version w shown"
  "shard_fully_upgraded (view_seen ts w shown version bound old) \<longleftrightarrow> ts \<noteq> [] \<and> (\<forall>t \<in> set ts. upgraded version w (at_id t))"
  unfolding view_old_primary_upgraded_def view_master_on_target_def shard_fully_upgraded_def view_seen_fields list_ex_iff
    list_all_iff set_map option.case bex_simps(7) ball_simps(9) node_seen_simps map_is_Nil_conv by blast+

lemmas view_seen_observers = view_seen_replicas view_seen_catching_up view_seen_demoted view_seen_upgraded

lemma min_by_key_None: "min_by_key f xs = None \<longleftrightarrow> xs = []"
  by (cases xs) (auto split: option.splits)

lemma promotable_seen:
  "is_promotable (node_seen w shown t) (normalize_version version) bound \<longleftrightarrow>
     at_id t \<noteq> shown \<and> upgraded version w (at_id t) \<and> at_id t \<noteq> owner_node w \<and> resync w (at_id t) = 0 \<and> shown = owner_node w"
  unfolding is_promotable_def using node_seen_simps(6) [of w shown t bound] by auto

lemma candidate_seen:
  assumes "t \<in> set ts" "at_id t \<noteq> p" "upgraded version w (at_id t)" "resync w (at_id t) = 0" "owner_node w = p"
  obtains c where "c \<in> set ts" "at_id c \<noteq> p" "upgraded version w (at_id c)" "resync w (at_id c) = 0"
    "select_promote_candidate (view_seen ts w p version bound old) = Some (node_seen w p c)"
    "view_promotion_safety (view_seen ts w p version bound old) = Safe"
proof -
  let ?v = "view_seen ts w p version bound old"
  have "node_seen w p t \<in> set (filter (\<lambda>n. is_promotable n (cv_target_version ?v) (cv_max_lag ?v)) (cv_nodes ?v))"
    using assms by (simp add: promotable_seen)
  then have "select_promote_candidate ?v \<noteq> None"
    unfolding select_promote_candidate_def min_by_key_None by (metis empty_iff list.set(1))
  then obtain n where n: "select_promote_candidate ?v = Some n" by blast
  from select_promotable [OF this] obtain c where c: "c \<in> set ts" "n = node_seen w p c"
      "is_promotable (node_seen w p c) (normalize_version version) bound" by auto
  then have "is_up (nv_link n) \<and> lag_in_sync n bound" by (simp add: is_promotable_def)
  then have "view_promotion_safety ?v = Safe"
    by (auto simp: view_promotion_safety_def n safe_to_promote_def replica_is_in_sync_def lag_in_sync_def split: option.splits)
  with that [OF c(1)] c n show thesis by (simp add: promotable_seen)
qed

subsection \<open>The roll of a cooperating cluster\<close>

text \<open>The nodes to roll and the one that owns the shard at first; there is a replica.\<close>

definition shard_of :: "actuation_target list \<Rightarrow> string \<Rightarrow> bool" where
  "shard_of ts p \<longleftrightarrow> addressed ts \<and> p \<in> at_id ` set ts \<and> (\<exists>t \<in> set ts. at_id t \<noteq> p)"

definition driving :: "actuation_target list \<Rightarrow> string \<Rightarrow> string \<Rightarrow> nat \<Rightarrow> cluster live_cluster \<Rightarrow> bool" where
  "driving ts version p delay s \<longleftrightarrow>
     inventory s = ts \<and> target_version s = version \<and> old_primary_id s = Some p \<and>
     max_drain_polls (freeze_tuning s) > 0 \<and> (\<forall>i. resync (world s) i \<le> delay)"

definition before_failover :: "string \<Rightarrow> cluster \<Rightarrow> bool" where
  "before_failover p w \<longleftrightarrow> owner_node w = p \<and> stale_reads w = 0"

definition after_failover :: "actuation_target list \<Rightarrow> string \<Rightarrow> string \<Rightarrow> nat \<Rightarrow> cluster \<Rightarrow> bool" where
  "after_failover ts version p reads w \<longleftrightarrow>
     owner_node w \<in> at_id ` set ts \<and> owner_node w \<noteq> p \<and> prev_owner w = p \<and> stale_reads w \<le> reads \<and>
     (\<forall>t \<in> set ts. at_id t \<noteq> p \<longrightarrow> upgraded version w (at_id t))"

definition rolling :: "actuation_target list \<Rightarrow> string \<Rightarrow> string \<Rightarrow> nat \<Rightarrow> nat \<Rightarrow> cluster live_cluster \<Rightarrow> bool" where
  "rolling ts version p delay reads s \<longleftrightarrow>
     driving ts version p delay s \<and>
     (\<exists>shown. view s = view_seen ts (world s) shown version (max_lag s) (Some p) \<and>
        (before_failover p (world s) \<and> shown = p \<or>
         after_failover ts version p reads (world s) \<and>
           (shown = p \<or> shown = owner_node (world s) \<and> stale_reads (world s) = 0)))"

definition failed_over :: "string \<Rightarrow> cluster live_cluster \<Rightarrow> bool" where
  "failed_over p s \<longleftrightarrow> owner_node (world s) \<noteq> p"

definition waits_due :: "actuation_target list \<Rightarrow> string \<Rightarrow> cluster live_cluster \<Rightarrow> nat" where
  "waits_due ts p s =
     (if failed_over p s then stale_reads (world s) + (if view_primary_demoted (view s) then 0 else 1)
      else Max ((\<lambda>t. resync (world s) (at_id t)) ` set ts))"

lemma wait_cooperating:
  assumes ts: "shard_of ts p" and d: "driving ts version p delay s"
    and phase: "before_failover p (world s) \<or> after_failover ts version p reads (world s)"
  shows "\<exists>s'. live_wait_for_progress (cooperating ts version delay reads) s = (Inr (), s') \<and>
    rolling ts version p delay reads s' \<and> versions (world s') = versions (world s) \<and> owner_node (world s') = owner_node (world s) \<and>
    resync (world s') = (\<lambda>i. resync (world s) i - 1) \<and> stale_reads (world s') = stale_reads (world s) - 1 \<and>
    view s' = view_seen ts (world s') (visible_owner (world s)) version (max_lag s') (Some p)"
proof -
  let ?s = "s\<lparr>world := (world s)\<lparr>resync := (\<lambda>i. resync (world s) i - 1)\<rparr>\<rparr>"
  let ?w = "(world ?s)\<lparr>stale_reads := stale_reads (world s) - 1\<rparr>"
  let ?v = "view_seen ts ?w (visible_owner (world s)) version (max_lag s) (Some p)"
  have vis: "visible_owner (world ?s) = visible_owner (world s)" by (simp add: visible_owner_def)
  have "visible_owner (world s) \<in> at_id ` set ts"
    using ts phase by (auto simp: visible_owner_def before_failover_def after_failover_def shard_of_def)
  then obtain t where t: "t \<in> set ts" "at_id t = visible_owner (world ?s)" unfolding vis by auto
  have "addressed ts" "inventory ?s = ts" using ts d by (simp_all add: shard_of_def driving_def)
  from refresh_cooperating [OF this t, of version delay reads]
  have wait: "live_wait_for_progress (cooperating ts version delay reads) s = (Inr (), s\<lparr>world := ?w, view := ?v\<rparr>)"
    using d unfolding live_wait_for_progress_def vis by (simp add: driving_def Let_def)
  have "rolling ts version p delay reads (s\<lparr>world := ?w, view := ?v\<rparr>)"
    unfolding rolling_def
  proof (intro conjI exI)
    show "driving ts version p delay (s\<lparr>world := ?w, view := ?v\<rparr>)"
      using d by (auto simp: driving_def intro: diff_le_self [THEN le_trans])
    show "before_failover p (world (s\<lparr>world := ?w, view := ?v\<rparr>)) \<and> visible_owner (world s) = p \<or>
        after_failover ts version p reads (world (s\<lparr>world := ?w, view := ?v\<rparr>)) \<and>
        (visible_owner (world s) = p \<or> visible_owner (world s) = owner_node (world (s\<lparr>world := ?w, view := ?v\<rparr>)) \<and>
         stale_reads (world (s\<lparr>world := ?w, view := ?v\<rparr>)) = 0)"
      using phase by (auto simp: before_failover_def after_failover_def visible_owner_def upgraded_def)
  qed simp
  with wait show ?thesis by simp
qed

lemma rolling_cases:
  assumes "rolling ts version p delay reads s"
  obtains (before) "driving ts version p delay s" "before_failover p (world s)"
      "view s = view_seen ts (world s) p version (max_lag s) (Some p)"
  | (hidden) "driving ts version p delay s" "after_failover ts version p reads (world s)"
      "view s = view_seen ts (world s) p version (max_lag s) (Some p)"
  | (after) "driving ts version p delay s" "after_failover ts version p reads (world s)" "stale_reads (world s) = 0"
      "view s = view_seen ts (world s) (owner_node (world s)) version (max_lag s) (Some p)"
proof -
  from assms obtain shown where d: "driving ts version p delay s"
    and v: "view s = view_seen ts (world s) shown version (max_lag s) (Some p)"
    and c: "before_failover p (world s) \<and> shown = p \<or> after_failover ts version p reads (world s) \<and>
      (shown = p \<or> shown = owner_node (world s) \<and> stale_reads (world s) = 0)"
    unfolding rolling_def by (elim conjE exE)
  from c show thesis
    using before [OF d] hidden [OF d] after [OF d] v by (elim disjE conjE) simp_all
qed

text \<open>Once the failover is committed but not visible, the new owner looks like a replica that is catching up.\<close>

lemma step_hidden:
  assumes "after_failover ts version p reads (world s)" "view s = view_seen ts (world s) p version (max_lag s) (Some p)"
  shows "step_of (live_actions sm) s = AwaitInSync"
proof -
  obtain t where "t \<in> set ts" "at_id t = owner_node (world s)" "at_id t \<noteq> p" "upgraded version (world s) (at_id t)"
    using assms(1) by (auto simp: after_failover_def)
  then have "view_replica_catching_up (view s)" unfolding assms(2) view_seen_observers by blast
  moreover have "\<not> view_primary_demoted (view s)" unfolding assms(2) view_seen_observers by simp
  ultimately show ?thesis by (simp add: step_of_def next_upgrade_step_def)
qed

lemma step_after:
  assumes "shard_of ts p" "after_failover ts version p reads (world s)"
    "view s = view_seen ts (world s) (owner_node (world s)) version (max_lag s) (Some p)"
  shows "step_of (live_actions sm) s = (if upgraded version (world s) p then UpgradeDone else UpgradeOldPrimary)"
    and "view_primary_demoted (view s)"
proof -
  have p: "p \<in> at_id ` set ts" "p \<noteq> owner_node (world s)"
    using assms(1,2) by (auto simp: shard_of_def after_failover_def)
  then show dem: "view_primary_demoted (view s)" unfolding assms(3) view_seen_observers by simp
  have "view_old_primary_upgraded (view s) = upgraded version (world s) p"
    unfolding assms(3) view_seen_observers using p by simp
  with dem show "step_of (live_actions sm) s = (if upgraded version (world s) p then UpgradeDone else UpgradeOldPrimary)"
    by (simp add: step_of_def next_upgrade_step_def)
qed

text \<open>Before the failover the driver never has to block: when every replica is upgraded and in sync, one can be promoted.\<close>

lemma step_before:
  assumes ts: "shard_of ts p" and b: "before_failover p (world s)"
    and v: "view s = view_seen ts (world s) p version (max_lag s) (Some p)"
  shows "step_of (live_actions sm) s =
    (if \<exists>t \<in> set ts. at_id t \<noteq> p \<and> upgraded version (world s) (at_id t) \<and> resync (world s) (at_id t) \<noteq> 0 then AwaitInSync
     else if \<exists>t \<in> set ts. at_id t \<noteq> p \<and> \<not> upgraded version (world s) (at_id t) then UpgradeReplica
     else if upgraded version (world s) p then UpgradeDone else Promote)"
proof -
  let ?w = "world s"
  have own: "owner_node ?w = p" using b by (simp add: before_failover_def)
  have obs: "\<not> view_primary_demoted (view s)" "view_master_on_target (view s) = upgraded version ?w p"
    "view_replica_catching_up (view s) \<longleftrightarrow>
      (\<exists>t \<in> set ts. at_id t \<noteq> p \<and> upgraded version ?w (at_id t) \<and> resync ?w (at_id t) \<noteq> 0)"
    "view_replicas_to_upgrade (view s) > 0 \<longleftrightarrow> (\<exists>t \<in> set ts. at_id t \<noteq> p \<and> \<not> upgraded version ?w (at_id t))"
    unfolding v view_seen_observers using ts own by (auto simp: shard_of_def filter_empty_conv)
  have "view_promotion_safety (view s) = Safe"
    if none: "\<not> (\<exists>t \<in> set ts. at_id t \<noteq> p \<and> upgraded version ?w (at_id t) \<and> resync ?w (at_id t) \<noteq> 0)"
      "\<not> (\<exists>t \<in> set ts. at_id t \<noteq> p \<and> \<not> upgraded version ?w (at_id t))"
  proof -
    obtain t where "t \<in> set ts" "at_id t \<noteq> p" using ts by (auto simp: shard_of_def)
    with none own show ?thesis
      unfolding v by (metis candidate_seen)
  qed
  with obs show ?thesis by (auto simp: step_of_def next_upgrade_step_def)
qed

lemma length_filter_strict:
  assumes "\<And>x. Q x \<Longrightarrow> P x" and "x \<in> set xs" "P x" "\<not> Q x"
  shows "length (filter Q xs) < length (filter P xs)"
proof -
  have "filter Q xs = filter Q (filter P xs)" using assms(1) by (induction xs) auto
  moreover have "length (filter Q (filter P xs)) < length (filter P xs)"
    using assms(2-4) by (intro length_filter_less [of x]) auto
  ultimately show ?thesis by simp
qed

lemma Max_image_diff:
  assumes "finite S" "t \<in> S" "f t \<noteq> (0 :: nat)"
  shows "Max ((\<lambda>t. f t - 1) ` S) < Max (f ` S)"
proof -
  have "f t \<le> Max (f ` S)" using assms(1,2) by simp
  moreover have "f u - 1 < Max (f ` S)" if "u \<in> S" for u
  proof -
    have "f u \<le> Max (f ` S)" using assms(1) that by simp
    with \<open>f t \<le> Max (f ` S)\<close> assms(3) show ?thesis by linarith
  qed
  ultimately show ?thesis using assms(1,2) by (subst Max_less_iff) auto
qed

lemma waits_due_bound:
  assumes "shard_of ts p" "rolling ts version p delay reads s"
  shows "waits_due ts p s \<le> max delay (reads + 1)"
proof (cases "failed_over p s")
  case True
  then have "stale_reads (world s) \<le> reads"
    using assms(2) by (auto simp: rolling_def failed_over_def before_failover_def after_failover_def)
  with True show ?thesis by (simp add: waits_due_def le_max_iff_disj)
next
  case False
  have "ts \<noteq> []" using assms(1) by (auto simp: shard_of_def)
  moreover have "\<forall>i. resync (world s) i \<le> delay" using assms(2) by (simp add: rolling_def driving_def)
  ultimately have "Max ((\<lambda>t. resync (world s) (at_id t)) ` set ts) \<le> delay" by (subst Max_le_iff) auto
  with False show ?thesis by (simp add: waits_due_def le_max_iff_disj)
qed

lemma inventory_get_ex: "t \<in> set ts \<Longrightarrow> \<exists>u. inventory_get ts (at_id t) = Some u \<and> at_id u = at_id t"
  by (induction ts) (auto simp: inventory_get_def)

lemma cooperating_replica:
  assumes ts: "shard_of ts p" and r: "rolling ts version p delay reads s"
    and step: "step_of (live_actions (cooperating ts version delay reads)) s = UpgradeReplica"
  shows "\<not> failed_over p s \<and>
    (\<exists>s1 s2. live_upgrade_next_replica (cooperating ts version delay reads) s = (Inr (), s1) \<and>
       live_wait_for_progress (cooperating ts version delay reads) s1 = (Inr (), s2) \<and>
       rolling ts version p delay reads s2 \<and> view_replicas_to_upgrade (view s2) < view_replicas_to_upgrade (view s))"
  using r
proof (cases rule: rolling_cases)
  case before
  let ?sm = "cooperating ts version delay reads" and ?w = "world s"
  let ?P = "\<lambda>w t. at_id t \<noteq> p \<and> \<not> upgraded version w (at_id t)"
  let ?ids = "map nv_id (filter (\<lambda>n. nv_role n = Replica \<and> nv_version n \<noteq> cv_target_version (view s)) (cv_nodes (view s)))"
  have ids: "?ids = map at_id (filter (?P ?w) ts)"
    unfolding before(3) by (simp add: filter_map comp_def upgraded_def)
  have "\<exists>t \<in> set ts. ?P ?w t"
    using step unfolding step_before [OF ts before(2,3)] by (auto split: if_splits)
  then have "?ids \<noteq> []" unfolding ids map_is_Nil_conv filter_empty_conv by blast
  then obtain i rest where cons: "?ids = i # rest" unfolding neq_Nil_conv by (elim exE) (rule that)
  define j where "j = fold min rest i"
  have "j \<in> set ?ids" unfolding cons j_def by (rule fold_min_mem)
  then obtain t where t: "t \<in> set ts" "at_id t = j" "?P ?w t" unfolding ids by auto
  obtain t' where t': "inventory_get ts j = Some t'" "at_id t' = j"
    using inventory_get_ex [OF t(1)] unfolding t(2) by (elim exE conjE) (rule that)
  let ?w1 = "?w\<lparr>versions := (versions ?w)(j := version), resync := (resync ?w)(j := delay)\<rparr>"
  let ?s1 = "s\<lparr>world := ?w1\<rparr>"
  have act: "live_upgrade_next_replica ?sm s = (Inr (), ?s1)"
    using cons t' before(1) by (simp add: live_upgrade_next_replica_def upgrade_node_def j_def [symmetric] call_def driving_def)
  have "driving ts version p delay ?s1" "before_failover p (world ?s1)"
    using before(1,2) by (simp_all add: driving_def before_failover_def)
  from wait_cooperating [OF ts this(1) disjI1 [OF this(2)], of reads] obtain s2 where
    s2: "live_wait_for_progress ?sm ?s1 = (Inr (), s2)" "rolling ts version p delay reads s2"
      "versions (world s2) = (versions ?w)(j := version)"
      "view s2 = view_seen ts (world s2) (visible_owner ?w1) version (max_lag s2) (Some p)" by auto
  have vis: "visible_owner ?w1 = p" using before(2) by (simp add: visible_owner_def before_failover_def)
  have "length (filter (?P (world s2)) ts) < length (filter (?P ?w) ts)"
  proof (rule length_filter_strict [where x = t])
    show "?P ?w x" if "?P (world s2) x" for x
      using that s2(3) by (auto simp: upgraded_def split: if_splits)
    show "\<not> ?P (world s2) t" using s2(3) t(2) by (simp add: upgraded_def)
  qed (use t in simp_all)
  then have "view_replicas_to_upgrade (view s2) < view_replicas_to_upgrade (view s)"
    unfolding s2(4) vis before(3) view_seen_replicas .
  with act s2(1,2) before(2) show ?thesis by (simp add: failed_over_def before_failover_def)
next
  case hidden
  with step step_hidden show ?thesis by fastforce
next
  case after
  with step step_after(1) [OF ts after(2,4)] show ?thesis by (auto split: if_splits)
qed

lemma cooperating_waited:
  assumes ts: "shard_of ts p" and r: "rolling ts version p delay reads s"
    and step: "step_of (live_actions (cooperating ts version delay reads)) s = AwaitInSync \<or>
      step_of (live_actions (cooperating ts version delay reads)) s = Blocked b"
  shows "\<exists>s2. live_wait_for_progress (cooperating ts version delay reads) s = (Inr (), s2) \<and>
    rolling ts version p delay reads s2 \<and> waits_due ts p s2 < waits_due ts p s \<and>
    (if failed_over p s then failed_over p s2 else view_replicas_to_upgrade (view s2) \<le> view_replicas_to_upgrade (view s))"
  using r
proof (cases rule: rolling_cases)
  case before
  from wait_cooperating [OF ts before(1) disjI1 [OF before(2)], of reads] obtain s2 where
    s2: "live_wait_for_progress (cooperating ts version delay reads) s = (Inr (), s2)" "rolling ts version p delay reads s2"
      "versions (world s2) = versions (world s)" "owner_node (world s2) = owner_node (world s)"
      "resync (world s2) = (\<lambda>i. resync (world s) i - 1)"
      "view s2 = view_seen ts (world s2) (visible_owner (world s)) version (max_lag s2) (Some p)" by auto
  have own: "owner_node (world s) = p" "visible_owner (world s) = p"
    using before(2) by (simp_all add: before_failover_def visible_owner_def)
  obtain t where t: "t \<in> set ts" "resync (world s) (at_id t) \<noteq> 0"
    using step unfolding step_before [OF ts before(2,3)] by (auto split: if_splits)
  have "waits_due ts p s2 < waits_due ts p s"
    using Max_image_diff [of "set ts" t "\<lambda>t. resync (world s) (at_id t)"] t own s2(4,5)
    by (simp add: waits_due_def failed_over_def)
  moreover have "view_replicas_to_upgrade (view s2) = view_replicas_to_upgrade (view s)"
    unfolding s2(6) before(3) view_seen_replicas own by (simp add: upgraded_def s2(3))
  ultimately show ?thesis using s2(1,2) own by (simp add: failed_over_def)
next
  case hidden
  from wait_cooperating [OF ts hidden(1) disjI2 [OF hidden(2)]] obtain s2 where
    s2: "live_wait_for_progress (cooperating ts version delay reads) s = (Inr (), s2)" "rolling ts version p delay reads s2"
      "owner_node (world s2) = owner_node (world s)" "stale_reads (world s2) = stale_reads (world s) - 1"
      "view s2 = view_seen ts (world s2) (visible_owner (world s)) version (max_lag s2) (Some p)" by auto
  have own: "owner_node (world s) \<noteq> p" "prev_owner (world s) = p" "p \<in> at_id ` set ts"
    using hidden(2) ts by (simp_all add: after_failover_def shard_of_def)
  have "\<not> view_primary_demoted (view s)" unfolding hidden(3) view_seen_demoted by simp
  moreover have "view_primary_demoted (view s2) \<longleftrightarrow> stale_reads (world s) = 0"
    unfolding s2(5) view_seen_demoted using own by (auto simp: visible_owner_def)
  ultimately have "waits_due ts p s2 < waits_due ts p s"
    using own s2(3,4) by (simp add: waits_due_def failed_over_def)
  with s2(1-3) own show ?thesis by (simp add: failed_over_def)
next
  case after
  with step step_after(1) [OF ts after(2,4)] show ?thesis by (auto split: if_splits)
qed

lemma cooperating_old_primary:
  assumes ts: "shard_of ts p" and r: "rolling ts version p delay reads s"
    and step: "step_of (live_actions (cooperating ts version delay reads)) s = UpgradeOldPrimary"
  shows "\<exists>s1 s2. live_upgrade_old_primary (cooperating ts version delay reads) s = (Inr (), s1) \<and>
    live_wait_for_progress (cooperating ts version delay reads) s1 = (Inr (), s2) \<and> rolling ts version p delay reads s2 \<and>
    step_of (live_actions (cooperating ts version delay reads)) s2 = UpgradeDone"
  using r
proof (cases rule: rolling_cases)
  case after
  let ?sm = "cooperating ts version delay reads" and ?w = "world s"
  obtain t where t: "t \<in> set ts" "at_id t = p" using ts by (auto simp: shard_of_def)
  then obtain u where u: "inventory_get ts p = Some u" "at_id u = p" using inventory_get_ex by metis
  let ?w1 = "?w\<lparr>versions := (versions ?w)(p := version), resync := (resync ?w)(p := delay)\<rparr>"
  let ?s1 = "s\<lparr>world := ?w1\<rparr>"
  have act: "live_upgrade_old_primary ?sm s = (Inr (), ?s1)"
    using after(1) u by (simp add: live_upgrade_old_primary_def upgrade_node_def driving_def call_def)
  have d: "driving ts version p delay ?s1" and a: "after_failover ts version p reads ?w1"
    using after(1,2) by (auto simp: driving_def after_failover_def upgraded_def)
  from wait_cooperating [OF ts d disjI2] a obtain s2 where
    s2: "live_wait_for_progress ?sm ?s1 = (Inr (), s2)" "rolling ts version p delay reads s2"
      "versions (world s2) = (versions ?w)(p := version)" "owner_node (world s2) = owner_node ?w"
      "view s2 = view_seen ts (world s2) (visible_owner ?w1) version (max_lag s2) (Some p)" by auto
  have vis: "visible_owner ?w1 = owner_node (world s2)" using after(3) s2(4) by (simp add: visible_owner_def)
  have "after_failover ts version p reads (world s2)"
    using s2(2,4) after(2) by (auto simp: rolling_def before_failover_def after_failover_def)
  from step_after(1) [OF ts this s2(5) [unfolded vis]] s2(3) have "step_of (live_actions ?sm) s2 = UpgradeDone"
    by (simp add: upgraded_def)
  with act s2(1,2) show ?thesis by blast
next
  case before
  with step step_before [OF ts before(2,3)] show ?thesis by (auto split: if_splits)
next
  case hidden
  with step step_hidden show ?thesis by fastforce
qed

lemma confirm_cooperating:
  assumes ts: "shard_of ts p" and "driving ts version p delay s" "after_failover ts version p reads (world s)"
  shows "driving ts version p delay (confirm_polls (cooperating ts version delay reads) n s) \<and>
    after_failover ts version p reads (world (confirm_polls (cooperating ts version delay reads) n s))"
  using assms(2,3)
proof (induction n arbitrary: s)
  case (Suc n)
  let ?sm = "cooperating ts version delay reads"
  have "visible_owner (world s) \<in> at_id ` set ts"
    using ts Suc.prems(2) by (auto simp: visible_owner_def after_failover_def shard_of_def)
  then obtain t where t: "t \<in> set ts" "at_id t = visible_owner (world s)" by auto
  obtain s1 where f: "\<exists>v. refresh ?sm s = (Inr v, s1)" "driving ts version p delay s1" "after_failover ts version p reads (world s1)"
    using refresh_cooperating [OF _ _ t, of version delay reads] ts Suc.prems
    by (auto simp: shard_of_def driving_def after_failover_def upgraded_def Let_def)
  let ?s = "s1\<lparr>world := sleep ?sm (drain_poll_delay (freeze_tuning s1)) (world s1)\<rparr>"
  have "driving ts version p delay ?s" "after_failover ts version p reads (world ?s)"
    using f(2,3) by (auto simp: driving_def after_failover_def upgraded_def intro: diff_le_self [THEN le_trans])
  from Suc.IH [OF this] f show ?case by auto
qed simp

lemma cooperating_promotion:
  assumes ts: "shard_of ts p" and r: "rolling ts version p delay reads s"
    and step: "step_of (live_actions (cooperating ts version delay reads)) s = Promote"
  shows "\<not> failed_over p s \<and>
    (\<exists>s1 s2. live_promote_candidate (cooperating ts version delay reads) s = (Inr (), s1) \<and>
       live_wait_for_progress (cooperating ts version delay reads) s1 = (Inr (), s2) \<and>
       rolling ts version p delay reads s2 \<and> failed_over p s2)"
  using r
proof (cases rule: rolling_cases)
  case before
  let ?sm = "cooperating ts version delay reads" and ?w = "world s"
  have own: "owner_node ?w = p" using before(2) by (simp add: before_failover_def)
  have up: "upgraded version ?w (at_id t) \<and> resync ?w (at_id t) = 0" if "t \<in> set ts" "at_id t \<noteq> p" for t
    using step that unfolding step_before [OF ts before(2,3)] by (auto split: if_splits)
  obtain t where "t \<in> set ts" "at_id t \<noteq> p" using ts by (auto simp: shard_of_def)
  with up own obtain c where c: "c \<in> set ts" "at_id c \<noteq> p" "resync ?w (at_id c) = 0"
    "select_promote_candidate (view s) = Some (node_seen ?w p c)"
    unfolding before(3) by (metis candidate_seen)
  obtain q where q: "inventory_get ts p = Some q" "at_id q = p" "q \<in> set ts"
    using ts inventory_get_ex inventory_get_Some unfolding shard_of_def by (metis imageE)
  obtain u where u: "inventory_get ts (at_id c) = Some u" "at_id u = at_id c" "u \<in> set ts"
    using inventory_get_ex [OF c(1)] inventory_get_Some by blast
  obtain k where k: "max_drain_polls (freeze_tuning s) = Suc k"
    using before(1) by (cases "max_drain_polls (freeze_tuning s)") (auto simp: driving_def)
  have inv: "inventory s = ts" "old_primary_id s = Some p" using before(1) by (simp_all add: driving_def)
  have "slave_lag_for (obs_slaves (observation ts ?w q)) (resp_addr u) = Some 0"
    using owner_lag [of ts u q ?w] ts u c q own by (simp add: shard_of_def)
  then have drain: "drain_candidate_to_zero ?sm q u s = (Inr (), s)"
    by (simp add: drain_candidate_to_zero_def k call_def)
  let ?s1 = "s\<lparr>world := ?w\<lparr>owner_node := at_id c, prev_owner := p, stale_reads := reads\<rparr>\<rparr>"
  let ?s2 = "confirm_polls ?sm (Suc k) ?s1"
  have act: "live_promote_candidate ?sm s = (Inr (), ?s2)"
    using c(4) q(1) u(1,2) drain own by (simp add: live_promote_candidate_def inv call_def k Let_def del: confirm_polls.simps)
  have d: "driving ts version p delay ?s1" and a: "after_failover ts version p reads (world ?s1)"
    using before(1) c(1,2) up by (auto simp: driving_def after_failover_def upgraded_def)
  note conf = confirm_cooperating [OF ts d a, of "Suc k"]
  from wait_cooperating [OF ts conjunct1 [OF conf] disjI2 [OF conjunct2 [OF conf]]] obtain s3 where
    s3: "live_wait_for_progress ?sm ?s2 = (Inr (), s3)" "rolling ts version p delay reads s3"
      "owner_node (world s3) = owner_node (world ?s2)" by blast
  have "failed_over p s3" using s3(3) conf by (simp add: failed_over_def after_failover_def)
  with act s3(1,2) own show ?thesis by (auto simp: failed_over_def)
next
  case hidden
  with step step_hidden show ?thesis by fastforce
next
  case after
  with step step_after(1) [OF ts after(2,4)] show ?thesis by (auto split: if_splits)
qed

lemma cooperating_contract:
  assumes "shard_of ts p"
  shows "cooperative_cluster (live_actions (cooperating ts version delay reads)) (rolling ts version p delay reads)
    (failed_over p) (waits_due ts p) (max delay (reads + 1))"
  by (unfold_locales; (unfold live_actions_simps)?)
    (rule waits_due_bound [OF assms] cooperating_replica [OF assms] cooperating_waited [OF assms]
      cooperating_promotion [OF assms] cooperating_old_primary [OF assms]; assumption)+

subsection \<open>Completion\<close>

lemma done_upgraded:
  assumes ts: "shard_of ts p" and r: "rolling ts version p delay reads s"
    and step: "step_of (live_actions (cooperating ts version delay reads)) s = UpgradeDone"
  shows "\<forall>t \<in> set ts. upgraded version (world s) (at_id t)"
  using r
proof (cases rule: rolling_cases)
  case before
  with step show ?thesis unfolding step_before [OF ts before(2,3)] by (auto split: if_splits)
next
  case hidden
  with step step_hidden show ?thesis by fastforce
next
  case after
  with step show ?thesis
    unfolding step_after(1) [OF ts after(2,4)] by (auto simp: after_failover_def split: if_splits)
qed

lemma refresh_rolling:
  assumes ts: "shard_of ts p" and r: "rolling ts version p delay reads s"
  shows "\<exists>v s'. refresh (cooperating ts version delay reads) s = (Inr v, s') \<and> versions (world s') = versions (world s) \<and>
    (\<exists>shown. view s' = view_seen ts (world s') shown version (max_lag s') (Some p))"
proof -
  have d: "inventory s = ts" "target_version s = version" "old_primary_id s = Some p"
    using r by (simp_all add: rolling_def driving_def)
  have "visible_owner (world s) \<in> at_id ` set ts"
    using ts r by (auto simp: rolling_def visible_owner_def after_failover_def before_failover_def shard_of_def)
  then obtain t where t: "t \<in> set ts" "at_id t = visible_owner (world s)" by auto
  have "addressed ts" using ts by (simp add: shard_of_def)
  from refresh_cooperating [OF this d(1) t] show ?thesis by (simp add: d Let_def) blast
qed

lemma first_refresh:
  assumes ts: "shard_of (cfg_inventory config) (owner_node w)"
    and w: "stale_reads w = 0" "\<forall>i. resync w i \<le> delay" and polls: "max_drain_polls (cfg_freeze config) > 0"
  shows "\<exists>v s. refresh (cooperating (cfg_inventory config) (cfg_target_version config) delay reads) (live_new w config) = (Inr v, s) \<and>
    rolling (cfg_inventory config) (cfg_target_version config) (owner_node w) delay reads s \<and>
    view s = view_seen (cfg_inventory config) (world s) (owner_node w) (cfg_target_version config) (max_lag s) (Some (owner_node w))"
proof -
  let ?s = "live_new w config"
  have vis: "visible_owner (world ?s) = owner_node w" using w(1) by (simp add: visible_owner_def)
  obtain t where t: "t \<in> set (cfg_inventory config)" "at_id t = visible_owner (world ?s)"
    using ts unfolding vis by (auto simp: shard_of_def)
  have "addressed (cfg_inventory config)" "inventory ?s = cfg_inventory config" using ts by (simp_all add: shard_of_def)
  from refresh_cooperating [OF this t] show ?thesis
    using w polls unfolding vis by (simp add: Let_def rolling_def driving_def before_failover_def)
      (simp add: live_new_def, intro exI [of _ "owner_node w"], simp)
qed

text \<open>
  C26: on a cluster that cooperates (a swapped node is back on the new version and in sync after \<open>delay\<close> ticks, a failover
  shows after \<open>reads\<close> reads of \<open>CLUSTER SHARDS\<close>) the rolling upgrade of a shard with a replica completes, and leaves
  every node on the new version, within one round of \<open>max delay (reads + 1) + 1\<close> ticks for every node and three more.
\<close>

theorem roll_completes:
  assumes ts: "shard_of (cfg_inventory config) (owner_node w)"
    and w: "stale_reads w = 0" "\<forall>i. resync w i \<le> delay" and polls: "max_drain_polls (cfg_freeze config) > 0"
    and budget: "(length (cfg_inventory config) + 1) * (max delay (reads + 1) + 1) + 2 \<le> max_ticks"
  shows "\<exists>s'. run_cluster_upgrade (cooperating (cfg_inventory config) (cfg_target_version config) delay reads) max_ticks
      (live_new w config) = (Inr Completed, s') \<and>
    (\<forall>t \<in> set (cfg_inventory config). upgraded (cfg_target_version config) (world s') (at_id t))"
proof -
  let ?ts = "cfg_inventory config" and ?version = "cfg_target_version config" and ?p = "owner_node w"
  let ?sm = "cooperating ?ts ?version delay reads" and ?M = "max delay (reads + 1)"
  note coop = cooperating_contract [OF ts, of ?version delay reads]
  obtain v s where f: "refresh ?sm (live_new w config) = (Inr v, s)" and r: "rolling ?ts ?version ?p delay reads s"
    and view: "view s = view_seen ?ts (world s) ?p ?version (max_lag s) (Some ?p)"
    using first_refresh [OF ts w polls] by blast
  show ?thesis
  proof (cases "shard_fully_upgraded (view s)")
    case True
    then have "\<forall>t \<in> set ?ts. upgraded ?version (world s) (at_id t)" unfolding view view_seen_upgraded by blast
    with f True show ?thesis by (simp add: run_cluster_upgrade_def)
  next
    case False
    obtain t where "t \<in> set ?ts" "at_id t = ?p" using ts by (auto simp: shard_of_def)
    then have "view_replicas_to_upgrade (view s) < length ?ts"
      unfolding view view_seen_replicas by (intro length_filter_less [of t]) simp_all
    then have "(view_replicas_to_upgrade (view s) + 1) * (?M + 1) \<le> length ?ts * (?M + 1)" by (intro mult_le_mono1) simp
    then have "cooperative_cluster.ticks_left (live_actions ?sm) (failed_over ?p) (waits_due ?ts ?p) ?M s + 2 \<le> max_ticks"
      using waits_due_bound [OF ts r] budget unfolding cooperative_cluster.ticks_left_def [OF coop] by auto
    from cooperative_cluster.completes [OF coop r this, of None] obtain s1 where
      t1: "upgrade_ticks (live_actions ?sm) max_ticks None s = (Inr Completed, s1)" and r1: "rolling ?ts ?version ?p delay reads s1"
      and "step_of (live_actions ?sm) s1 = UpgradeDone" by blast
    then have up: "\<forall>t \<in> set ?ts. upgraded ?version (world s1) (at_id t)" using done_upgraded [OF ts] by blast
    obtain v2 s2 shown where f2: "refresh ?sm s1 = (Inr v2, s2)" "versions (world s2) = versions (world s1)"
      "view s2 = view_seen ?ts (world s2) shown ?version (max_lag s2) (Some ?p)"
      using refresh_rolling [OF ts r1] by blast
    then have "List.find (\<lambda>n. nv_version n \<noteq> cv_target_version (view s2)) (cv_nodes (view s2)) = None"
      using up by (auto simp: find_None_iff upgraded_def)
    with f False t1 f2 up show ?thesis
      by (simp add: run_cluster_upgrade_def run_rolling_upgrade_def upgraded_def)
  qed
qed

text \<open>Three nodes that run the old version; a swapped node is back after two ticks, a failover shows after one read.\<close>

definition demo_node :: "string \<Rightarrow> string \<Rightarrow> actuation_target" where
  "demo_node i port = \<lparr>at_id = i, resp_addr = ''127.0.0.1:'' @ port, at_auth = None, ssh = ''op@'' @ i, upgrade_source = ''--to 1.2.3''\<rparr>"

definition demo_config :: driver_config where
  "demo_config = \<lparr>cfg_inventory = [demo_node ''p'' ''7001'', demo_node ''r1'' ''7002'', demo_node ''r2'' ''7003''],
     cfg_target_version = ''v1.2.3'', cfg_max_lag = 2, cfg_tick_delay = 0,
     cfg_freeze = \<lparr>pause_window_ms = 30000, max_drain_polls = 8, drain_poll_delay = 0\<rparr>\<rparr>"

definition demo_cluster :: cluster where
  "demo_cluster = \<lparr>versions = (\<lambda>_. ''1.2.2''), owner_node = ''p'', resync = (\<lambda>_. 0), stale_reads = 0, prev_owner = ''p''\<rparr>"

lemma demo_shard: "shard_of (cfg_inventory demo_config) (owner_node demo_cluster)"
  by code_simp

interpretation demo_roll: cooperative_cluster
  "live_actions (cooperating (cfg_inventory demo_config) (cfg_target_version demo_config) 2 1)"
  "rolling (cfg_inventory demo_config) (cfg_target_version demo_config) (owner_node demo_cluster) 2 1"
  "failed_over (owner_node demo_cluster)" "waits_due (cfg_inventory demo_config) (owner_node demo_cluster)" "max 2 (1 + 1)"
  by (rule cooperating_contract [OF demo_shard])

theorem roll_completes_witness:
  "\<exists>s'. run_cluster_upgrade (cooperating (cfg_inventory demo_config) (cfg_target_version demo_config) 2 1) 14
      (live_new demo_cluster demo_config) = (Inr Completed, s') \<and>
    (\<forall>t \<in> set (cfg_inventory demo_config). upgraded (cfg_target_version demo_config) (world s') (at_id t))"
  by (rule roll_completes [OF demo_shard]) (simp_all add: demo_cluster_def demo_config_def)

theorem completed_roll_is_complete_witness:
  "\<exists>s'. run_cluster_upgrade (logged (cooperating [demo_node ''p'' ''7001''] ''v1.2.3'' 2 1)) 14
      (live_new (demo_cluster\<lparr>versions := (\<lambda>_. ''1.2.3+7'')\<rparr>, []) (demo_config\<lparr>cfg_inventory := [demo_node ''p'' ''7001'']\<rparr>)) = (Inr Completed, s') \<and>
    seen_on (trace s') ''p'' ''1.2.3''"
proof -
  let ?run = "run_cluster_upgrade (logged (cooperating [demo_node ''p'' ''7001''] ''v1.2.3'' 2 1)) 14
      (live_new (demo_cluster\<lparr>versions := (\<lambda>_. ''1.2.3+7'')\<rparr>, []) (demo_config\<lparr>cfg_inventory := [demo_node ''p'' ''7001'']\<rparr>))"
  have r: "fst ?run = Inr Completed" by code_simp
  then have run: "?run = (Inr Completed, snd ?run)" by (metis prod.collapse)
  have p: "demo_node ''p'' ''7001'' \<in> set (cfg_inventory (demo_config\<lparr>cfg_inventory := [demo_node ''p'' ''7001'']\<rparr>))" "at_id (demo_node ''p'' ''7001'') = ''p''"
    by (simp_all add: demo_config_def demo_node_def)
  have v: "normalize_version (cfg_target_version (demo_config\<lparr>cfg_inventory := [demo_node ''p'' ''7001'']\<rparr>)) = ''1.2.3''" by code_simp
  from completed_roll_is_complete [OF run] p(1)
  have "seen_on (trace (snd ?run)) (at_id (demo_node ''p'' ''7001'')) (normalize_version (cfg_target_version (demo_config\<lparr>cfg_inventory := [demo_node ''p'' ''7001'']\<rparr>)))" by blast
  then have "seen_on (trace (snd ?run)) ''p'' ''1.2.3''" by (simp only: p(2) v)
  with run show ?thesis by blast
qed

end
