(* ===== verification/Dash_Segment.thy ===== *)
theory Dash_Segment
  imports Collections "HOL-Library.Multiset"
begin

unbundle bit_operations_syntax

text \<open>
  One segment of the keyspace index, from \<open>ironcache-dashtable/src/index.rs\<close>: an inline block of fingerprints and
  record slots of which the first \<open>len\<close> are initialised, and an overflow list. A slot of type \<open>MaybeUninit\<close> is an
  \<open>option\<close>, and reading a slot that is not initialised, which is undefined behaviour, is the result \<open>None\<close>, as is a
  panic. The probe is the code's: a bit mask of the fingerprints that match, walked from the lowest bit.

  The lemmas show that an operation on a well-formed segment reads initialised slots only and what it does to the
  list of records, which is the view of a segment that the directory of \<open>Dash_Index\<close> works with.
\<close>

subsection \<open>Operations\<close>

definition SEGMENT_CAP :: nat where
  "SEGMENT_CAP = 64"

definition fingerprint :: "u64 \<Rightarrow> u8" where
  "fingerprint h = ucast (h AND 0xFF)"

definition bit_from_top :: "u64 \<Rightarrow> nat \<Rightarrow> bool" where
  "bit_from_top h n = (drop_bit (64 - n) h AND 1 = 1)"

datatype loc = Inline nat | Overflow nat

record 'a segment =
  fps :: "u8 list"
  local_depth :: nat
  seg_len :: nat
  items :: "'a option list"
  overflow :: "(u8 \<times> 'a) list option"

definition segment_new :: "nat \<Rightarrow> 'a segment" where
  "segment_new depth = \<lparr>fps = replicate SEGMENT_CAP 0, local_depth = depth, seg_len = 0,
     items = replicate SEGMENT_CAP None, overflow = None\<rparr>"

definition seg_count :: "'a segment \<Rightarrow> nat" where
  "seg_count s = seg_len s + (case overflow s of None \<Rightarrow> 0 | Some ov \<Rightarrow> length ov)"

definition match_mask :: "'a segment \<Rightarrow> u8 \<Rightarrow> u64" where
  "match_mask s fp =
    (let mask = fold (\<lambda>(i, f) m. m OR push_bit i (of_bool (f = fp))) (enumerate 0 (fps s)) 0
     in if seg_len s < SEGMENT_CAP then mask AND (push_bit (seg_len s) 1 - 1) else mask)"

definition trailing_zeros :: "u64 \<Rightarrow> nat" where
  "trailing_zeros w = length (takeWhile (\<lambda>i. \<not> bit w i) [0..<64])"

lemma clear_lowest_less: "w \<noteq> 0 \<Longrightarrow> unat (w AND (w - 1)) < unat (w :: u64)"
proof -
  assume "w \<noteq> 0"
  have "unat (w AND (w - 1)) \<le> unat (w - 1)" by (simp add: word_and_le1 flip: word_le_nat_alt)
  then show ?thesis using \<open>w \<noteq> 0\<close> by (simp add: unat_minus_one unat_gt_0 order.strict_trans1)
qed

function locate_inline :: "'a option list \<Rightarrow> ('a \<Rightarrow> bool) \<Rightarrow> u64 \<Rightarrow> loc option option" where
  "locate_inline slots eq m =
    (if m = 0 then Some None
     else do {
       let i = trailing_zeros m;
       slot \<leftarrow> get slots i;
       x \<leftarrow> slot;
       if eq x then Some (Some (Inline i))
       else locate_inline slots eq (m AND (m - 1))
     })"
  by pat_completeness auto
termination
  by (relation "measure (\<lambda>(_, _, m). unat m)") (auto simp: clear_lowest_less)

declare locate_inline.simps [simp del]

definition seg_locate :: "'a segment \<Rightarrow> u8 \<Rightarrow> ('a \<Rightarrow> bool) \<Rightarrow> loc option option" where
  "seg_locate s fp eq = do {
     l \<leftarrow> locate_inline (items s) eq (match_mask s fp);
     case l of
       Some loc \<Rightarrow> Some (Some loc)
     | None \<Rightarrow>
         Some (case overflow s of
                 None \<Rightarrow> None
               | Some ov \<Rightarrow> map_option Overflow (position (\<lambda>(f, x). f = fp \<and> eq x) ov))
   }"

fun seg_get :: "'a segment \<Rightarrow> loc \<Rightarrow> 'a option" where
  "seg_get s (Inline i) = do { slot \<leftarrow> get (items s) i; slot }"
| "seg_get s (Overflow i) = do { ov \<leftarrow> overflow s; map_option snd (get ov i) }"

text \<open>A write through the borrow that \<open>get_mut\<close> returns.\<close>

fun seg_get_mut :: "'a segment \<Rightarrow> loc \<Rightarrow> ('a \<Rightarrow> 'a) \<Rightarrow> 'a segment option" where
  "seg_get_mut s (Inline i) f = do {
     slot \<leftarrow> get (items s) i;
     x \<leftarrow> slot;
     Some (s\<lparr>items := (items s)[i := Some (f x)]\<rparr>)
   }"
| "seg_get_mut s (Overflow i) f = do {
     ov \<leftarrow> overflow s;
     (fp, x) \<leftarrow> get ov i;
     Some (s\<lparr>overflow := Some (ov[i := (fp, f x)])\<rparr>)
   }"

definition seg_push :: "'a segment \<Rightarrow> u8 \<Rightarrow> 'a \<Rightarrow> loc \<times> 'a segment" where
  "seg_push s fp x =
    (let len = seg_len s in
     if len < SEGMENT_CAP then
       (Inline len, s\<lparr>fps := (fps s)[len := fp], items := (items s)[len := Some x], seg_len := len + 1\<rparr>)
     else
       let ov = (case overflow s of None \<Rightarrow> [] | Some ov \<Rightarrow> ov) @ [(fp, x)]
       in (Overflow (length ov - 1), s\<lparr>overflow := Some ov\<rparr>))"

definition swap_remove :: "nat \<Rightarrow> 'b list \<Rightarrow> 'b list" where
  "swap_remove i xs = butlast (xs[i := last xs])"

fun seg_remove_at :: "'a segment \<Rightarrow> loc \<Rightarrow> ('a \<times> 'a segment) option" where
  "seg_remove_at s (Inline i) = do {
     last \<leftarrow> checked_sub (seg_len s) 1;
     slot \<leftarrow> get (items s) i;
     x \<leftarrow> slot;
     let s' = s\<lparr>items := (items s)[i := None]\<rparr>;
     let s'' = (if i \<noteq> last
                then s'\<lparr>fps := (fps s')[i := fps s' ! last], items := (items s')[i := items s' ! last, last := items s' ! i]\<rparr>
                else s');
     Some (x, s''\<lparr>seg_len := last\<rparr>)
   }"
| "seg_remove_at s (Overflow i) = do {
     ov \<leftarrow> overflow s;
     (_, x) \<leftarrow> get ov i;
     let ov' = swap_remove i ov;
     Some (x, s\<lparr>overflow := (if ov' = [] then None else Some ov')\<rparr>)
   }"

definition drain_all :: "'a segment \<Rightarrow> ((u8 \<times> 'a) list \<times> 'a segment) option" where
  "drain_all s = do {
     let n = seg_len s;
     xs \<leftarrow> those (take n (items s));
     Some (zip (take n (fps s)) xs @ (case overflow s of None \<Rightarrow> [] | Some ov \<Rightarrow> ov),
           s\<lparr>seg_len := 0, items := replicate n None @ drop n (items s), overflow := None\<rparr>)
   }"

definition seg_iter :: "'a segment \<Rightarrow> 'a list option" where
  "seg_iter s = do {
     xs \<leftarrow> those (take (seg_len s) (items s));
     Some (xs @ (case overflow s of None \<Rightarrow> [] | Some ov \<Rightarrow> map snd ov))
   }"

definition all_fps_equal :: "'a segment \<Rightarrow> u8 \<Rightarrow> bool" where
  "all_fps_equal s fp \<longleftrightarrow> list_all (\<lambda>f. f = fp) (take (seg_len s) (fps s)) \<and>
     (case overflow s of None \<Rightarrow> True | Some ov \<Rightarrow> list_all (\<lambda>(f, _). f = fp) ov)"

subsection \<open>The probe\<close>

lemma trailing_zeros_lowest:
  assumes "w \<noteq> 0"
  shows "bit w (trailing_zeros w)" and "i < trailing_zeros w \<Longrightarrow> \<not> bit w i"
proof -
  let ?t = "takeWhile (\<lambda>i. \<not> bit w i) [0..<64]"
  obtain n where n: "n < 64" "bit w n"
    using assms by (auto simp: bit_eq_iff dest: bit_imp_le_length)
  have len: "length ?t < 64"
  proof (rule ccontr)
    assume "\<not> ?thesis"
    then have "?t = [0..<64]"
      using length_takeWhile_le [of "\<lambda>i. \<not> bit w i" "[0..<64]"] by (metis diff_zero length_upt not_less takeWhile_eq_take take_all)
    then have "\<forall>i \<in> {0..<64}. \<not> bit w i" by simp
    with n show False by auto
  qed
  show "bit w (trailing_zeros w)"
    using nth_length_takeWhile [of "\<lambda>i. \<not> bit w i" "[0..<64]"] len by (simp add: trailing_zeros_def)
  show "\<not> bit w i" if "i < trailing_zeros w"
    using nth_mem [of i ?t] that len takeWhile_nth [of i "\<lambda>i. \<not> bit w i" "[0..<64]"]
    by (auto simp: trailing_zeros_def dest: set_takeWhileD)
qed

lemma clear_lowest:
  assumes "w \<noteq> (0 :: u64)"
  shows "bit (w AND (w - 1)) i \<longleftrightarrow> bit w i \<and> i \<noteq> trailing_zeros w"
proof -
  let ?k = "trailing_zeros w" and ?u = "unset_bit (trailing_zeros w) w"
  note low = trailing_zeros_lowest [OF assms]
  have k: "?k < 64" using bit_imp_le_length [OF low(1)] by simp
  have "w = ?u OR push_bit ?k 1"
    by (rule bit_eqI) (use low(1) in \<open>auto simp: bit_simps\<close>)
  also have "\<dots> = ?u + push_bit ?k 1"
    by (rule disjunctive_add [symmetric]) (auto simp: bit_simps)
  finally have "w - 1 = ?u + (push_bit ?k 1 - 1)" by (simp add: algebra_simps)
  also have "push_bit ?k 1 - 1 = (mask ?k :: u64)" by (simp add: mask_eq_exp_minus_1 push_bit_of_1)
  also have "?u + mask ?k = ?u OR mask ?k"
    by (rule disjunctive_add) (use low(2) in \<open>auto simp: bit_simps\<close>)
  finally show ?thesis
    using low by (auto simp: bit_simps dest: bit_imp_le_length)
qed

lemma bit_match_fold:
  "bit (fold (\<lambda>(i, f) m. m OR push_bit i (of_bool (f = fp))) (enumerate n xs) (m0 :: u64)) j \<longleftrightarrow>
     bit m0 j \<or> j < 64 \<and> n \<le> j \<and> j < n + length xs \<and> xs ! (j - n) = fp"
proof (induction xs arbitrary: n m0)
  case (Cons x xs)
  have "bit (push_bit n (of_bool (x = fp)) :: u64) j \<longleftrightarrow> j < 64 \<and> j = n \<and> x = fp"
    by (cases "x = fp") (auto simp: bit_simps)
  then have "bit (m0 OR push_bit n (of_bool (x = fp))) j \<longleftrightarrow> bit m0 j \<or> j < 64 \<and> j = n \<and> x = fp"
    by (simp only: bit_or_iff)
  then have "bit (fold (\<lambda>(i, f) m. m OR push_bit i (of_bool (f = fp))) (enumerate n (x # xs)) m0) j \<longleftrightarrow>
      (bit m0 j \<or> j < 64 \<and> j = n \<and> x = fp) \<or>
      j < 64 \<and> Suc n \<le> j \<and> j < Suc n + length xs \<and> xs ! (j - Suc n) = fp"
    by (simp only: enumerate_simps fold_simps prod.case o_apply Cons.IH)
  then show ?case
    by (cases "j = n") (auto simp: nth_Cons' simp del: enumerate_simps fold_simps)
qed auto

subsection \<open>A segment as the list of its records\<close>

definition spill :: "'a segment \<Rightarrow> (u8 \<times> 'a) list" where
  "spill s = (case overflow s of None \<Rightarrow> [] | Some ov \<Rightarrow> ov)"

definition inline_recs :: "'a segment \<Rightarrow> (u8 \<times> 'a) list" where
  "inline_recs s = zip (take (seg_len s) (fps s)) (map the (take (seg_len s) (items s)))"

definition seg_recs :: "'a segment \<Rightarrow> (u8 \<times> 'a) list" where
  "seg_recs s = inline_recs s @ spill s"

text \<open>The layout invariant: the first \<open>len\<close> slots are initialised, no other is, and a spill is not empty.\<close>

definition seg_ok :: "'a segment \<Rightarrow> bool" where
  "seg_ok s \<longleftrightarrow> length (fps s) = SEGMENT_CAP \<and> length (items s) = SEGMENT_CAP \<and> seg_len s \<le> SEGMENT_CAP \<and>
     (\<forall>i < SEGMENT_CAP. items s ! i \<noteq> None \<longleftrightarrow> i < seg_len s) \<and> overflow s \<noteq> Some []"

lemma seg_okD:
  assumes "seg_ok s"
  shows "length (fps s) = SEGMENT_CAP" "length (items s) = SEGMENT_CAP" "seg_len s \<le> SEGMENT_CAP"
    "i < seg_len s \<Longrightarrow> \<exists>x. items s ! i = Some x" "overflow s \<noteq> Some []"
    "seg_len s \<le> i \<Longrightarrow> i < SEGMENT_CAP \<Longrightarrow> items s ! i = None"
  using assms by (auto simp: seg_ok_def)

lemma length_inline_recs [simp]: "seg_ok s \<Longrightarrow> length (inline_recs s) = seg_len s"
  by (simp add: inline_recs_def seg_okD min_absorb2)

lemma inline_recs_nth: "seg_ok s \<Longrightarrow> i < seg_len s \<Longrightarrow> inline_recs s ! i = (fps s ! i, the (items s ! i))"
  using seg_okD(1-3) [of s] by (simp add: inline_recs_def)

lemma bit_match_mask:
  assumes "seg_ok s"
  shows "bit (match_mask s fp) i \<longleftrightarrow> i < seg_len s \<and> fps s ! i = fp"
proof -
  have "(push_bit (seg_len s) 1 - 1 :: u64) = mask (seg_len s)"
    by (simp add: mask_eq_exp_minus_1 push_bit_of_1)
  then show ?thesis
    using seg_okD(1,3) [OF assms]
    by (auto simp: match_mask_def Let_def bit_and_iff bit_mask_iff bit_match_fold SEGMENT_CAP_def)
qed

lemma locate_inline_correct:
  assumes "\<And>i. bit m i \<Longrightarrow> i < length slots \<and> slots ! i \<noteq> None"
  shows "locate_inline slots eq m = Some None \<and> (\<forall>i. bit m i \<longrightarrow> \<not> eq (the (slots ! i))) \<or>
    (\<exists>i. locate_inline slots eq m = Some (Some (Inline i)) \<and> bit m i \<and> eq (the (slots ! i)))"
  using assms
proof (induction slots eq m rule: locate_inline.induct)
  case (1 slots eq m)
  show ?case
  proof (cases "m = 0")
    case False
    let ?i = "trailing_zeros m"
    have low: "bit m ?i" by (rule trailing_zeros_lowest(1) [OF False])
    then obtain x where x: "?i < length slots" "slots ! ?i = Some x" using 1(2) by blast
    have next': "bit (m AND (m - 1)) j \<longleftrightarrow> bit m j \<and> j \<noteq> ?i" for j by (rule clear_lowest [OF False])
    show ?thesis
    proof (cases "eq x")
      case True
      then show ?thesis using False x low by (simp add: locate_inline.simps [of slots eq m] Let_def get_nth)
    next
      case neq: False
      have "locate_inline slots eq m = locate_inline slots eq (m AND (m - 1))"
        using False x neq by (simp add: locate_inline.simps [of slots eq m] Let_def get_nth)
      moreover have "locate_inline slots eq (m AND (m - 1)) = Some None \<and>
          (\<forall>i. bit (m AND (m - 1)) i \<longrightarrow> \<not> eq (the (slots ! i))) \<or>
        (\<exists>i. locate_inline slots eq (m AND (m - 1)) = Some (Some (Inline i)) \<and> bit (m AND (m - 1)) i \<and> eq (the (slots ! i)))"
        by (rule 1(1) [OF False refl _ x(2) neq]) (use x(1) 1(2) next' x(2) in auto)
      ultimately show ?thesis using neq x(2) unfolding next' by (metis option.sel)
    qed
  qed (simp add: locate_inline.simps)
qed

fun rec_at :: "'a segment \<Rightarrow> loc \<Rightarrow> (u8 \<times> 'a) option" where
  "rec_at s (Inline i) = get (inline_recs s) i"
| "rec_at s (Overflow i) = get (spill s) i"

lemma rec_at_in: "rec_at s l = Some r \<Longrightarrow> r \<in> set (seg_recs s)"
  by (cases l) (auto simp: seg_recs_def)

theorem seg_locate_correct:
  assumes "seg_ok s"
  shows "seg_locate s fp eq = Some None \<and> (\<forall>x. (fp, x) \<in> set (seg_recs s) \<longrightarrow> \<not> eq x) \<or>
    (\<exists>l x. seg_locate s fp eq = Some (Some l) \<and> rec_at s l = Some (fp, x) \<and> eq x)"
proof -
  have slot: "i < length (items s) \<and> items s ! i \<noteq> None" if "bit (match_mask s fp) i" for i
    using that seg_okD(2,3) [OF assms] seg_okD(4) [OF assms, of i] by (auto simp: bit_match_mask [OF assms])
  from locate_inline_correct [of "match_mask s fp" "items s" eq, OF slot]
  consider (miss) "locate_inline (items s) eq (match_mask s fp) = Some None"
      "\<And>i. i < seg_len s \<Longrightarrow> fps s ! i = fp \<Longrightarrow> \<not> eq (the (items s ! i))"
    | (hit) i where "locate_inline (items s) eq (match_mask s fp) = Some (Some (Inline i))" "i < seg_len s" "fps s ! i = fp"
      "eq (the (items s ! i))"
    unfolding bit_match_mask [OF assms] by blast
  then show ?thesis
  proof cases
    case miss
    have inl: "\<not> eq x" if "(fp, x) \<in> set (inline_recs s)" for x
      using that miss(2) by (auto simp: in_set_conv_nth assms inline_recs_nth)
    show ?thesis
    proof (cases "position (\<lambda>(f, x). f = fp \<and> eq x) (spill s)")
      case None
      then have "\<forall>x. (fp, x) \<in> set (seg_recs s) \<longrightarrow> \<not> eq x"
        using inl by (auto simp: seg_recs_def position_None)
      moreover have "seg_locate s fp eq = Some None"
        using None miss(1) by (auto simp: seg_locate_def spill_def split: option.split_asm)
      ultimately show ?thesis by blast
    next
      case (Some j)
      then obtain x where "j < length (spill s)" "spill s ! j = (fp, x)" "eq x"
        by (auto simp: position_Some split: prod.splits)
      then have "rec_at s (Overflow j) = Some (fp, x) \<and> eq x" by simp
      moreover have "seg_locate s fp eq = Some (Some (Overflow j))"
        using Some miss(1) by (auto simp: seg_locate_def spill_def split: option.split_asm)
      ultimately show ?thesis by blast
    qed
  next
    case (hit i)
    then have "rec_at s (Inline i) = Some (fp, the (items s ! i))" by (simp add: assms inline_recs_nth)
    then show ?thesis using hit by (auto simp: seg_locate_def)
  qed
qed

subsection \<open>Moving records\<close>

lemma mset_swap_remove:
  assumes "i < length xs"
  shows "mset (swap_remove i xs) = mset xs - {#xs ! i#}"
proof -
  obtain ys y where xs: "xs = ys @ [y]" using assms by (cases xs rule: rev_cases) auto
  show ?thesis
  proof (cases "i = length ys")
    case True
    then show ?thesis by (simp add: swap_remove_def xs)
  next
    case False
    then have i: "i < length ys" using assms xs by simp
    then have "swap_remove i xs = ys[i := y]" by (simp add: swap_remove_def xs list_update_append)
    then show ?thesis using i by (simp add: mset_update xs nth_append multiset_eq_iff)
  qed
qed

lemma seg_get_at: "seg_ok s \<Longrightarrow> rec_at s l = Some (fp, x) \<Longrightarrow> seg_get s l = Some x"
proof (cases l)
  case (Inline i)
  assume "seg_ok s" "rec_at s l = Some (fp, x)"
  then show ?thesis
    using Inline seg_okD(2,3) [of s] seg_okD(4) [of s i] by (fastforce simp: inline_recs_nth get_nth)
next
  case (Overflow i)
  assume "rec_at s l = Some (fp, x)"
  then show ?thesis using Overflow by (auto simp: spill_def get_nth split: option.splits)
qed

lemma seg_count_recs [simp]: "seg_ok s \<Longrightarrow> seg_count s = length (seg_recs s)"
  by (simp add: seg_count_def seg_recs_def spill_def split: option.split)

lemma those_map_the: "(\<forall>x \<in> set xs. x \<noteq> None) \<Longrightarrow> those xs = Some (map the xs)"
  by (induction xs) auto

lemma those_items: "seg_ok s \<Longrightarrow> those (take (seg_len s) (items s)) = Some (map the (take (seg_len s) (items s)))"
  by (rule those_map_the) (auto simp: seg_ok_def in_set_conv_nth)

lemma seg_iter_recs: "seg_ok s \<Longrightarrow> seg_iter s = Some (map snd (seg_recs s))"
  by (auto simp: seg_iter_def those_items seg_recs_def inline_recs_def spill_def seg_okD min_absorb2 split: option.split)

lemma all_fps_equal_recs: "seg_ok s \<Longrightarrow> all_fps_equal s fp \<longleftrightarrow> (\<forall>r \<in> set (seg_recs s). fst r = fp)"
proof -
  assume "seg_ok s"
  then have "take (seg_len s) (fps s) = map fst (inline_recs s)"
    using seg_okD(1-3) [of s] by (simp add: inline_recs_def)
  moreover have "(case overflow s of None \<Rightarrow> True | Some ov \<Rightarrow> list_all (\<lambda>(f, _). f = fp) ov) \<longleftrightarrow> (\<forall>r \<in> set (spill s). fst r = fp)"
    by (auto simp: spill_def list_all_iff case_prod_beta split: option.split)
  ultimately show ?thesis by (auto simp: all_fps_equal_def seg_recs_def list_all_iff)
qed

text \<open>What an update of a segment does to its records, as a multiset; the depth stays.\<close>

definition seg_becomes :: "'a segment \<Rightarrow> 'a segment \<Rightarrow> (u8 \<times> 'a) multiset \<Rightarrow> bool" where
  "seg_becomes s s' rs \<longleftrightarrow> seg_ok s' \<and> mset (seg_recs s') = rs \<and> local_depth s' = local_depth s"

lemma seg_get_mut_at:
  assumes "seg_ok s" and "rec_at s l = Some (fp, x)"
  shows "\<exists>s'. seg_get_mut s l f = Some s' \<and> seg_becomes s s' (add_mset (fp, f x) (mset (seg_recs s) - {#(fp, x)#}))"
proof (cases l)
  case (Inline i)
  let ?s = "s\<lparr>items := (items s)[i := Some (f x)]\<rparr>"
  note ok = seg_okD(1,2,3) [OF assms(1)]
  have i: "i < seg_len s" "items s ! i = Some x" "inline_recs s ! i = (fp, x)"
    using assms Inline seg_okD(4) [OF assms(1), of i] by (auto simp: inline_recs_nth)
  have "seg_ok ?s" using assms(1) i(1) by (auto simp: seg_ok_def nth_list_update)
  moreover have "inline_recs ?s = (inline_recs s)[i := (fp, f x)]"
    using i assms(1) \<open>seg_ok ?s\<close> by (intro nth_equalityI) (auto simp: inline_recs_nth nth_list_update ok order.strict_trans2 [OF _ ok(3)])
  moreover have "mset ((inline_recs s)[i := (fp, f x)]) = add_mset (fp, f x) (mset (inline_recs s) - {#(fp, x)#})"
    using i assms(1) by (simp add: mset_update)
  moreover have "(fp, x) \<in># mset (inline_recs s)" using i assms(1) by (metis length_inline_recs nth_mem set_mset_mset)
  ultimately have "seg_becomes s ?s (add_mset (fp, f x) (mset (seg_recs s) - {#(fp, x)#}))"
    by (simp add: seg_becomes_def seg_recs_def spill_def)
  then show ?thesis using i ok Inline by (simp add: get_nth)
next
  case (Overflow i)
  then obtain ov where ov: "overflow s = Some ov" "i < length ov" "ov ! i = (fp, x)"
    using assms(2) by (auto simp: spill_def split: option.splits)
  then have "(fp, x) \<in># mset ov" by (metis nth_mem set_mset_mset)
  moreover have "inline_recs (s\<lparr>overflow := Some (ov[i := (fp, f x)])\<rparr>) = inline_recs s" by (simp add: inline_recs_def)
  ultimately have "seg_becomes s (s\<lparr>overflow := Some (ov[i := (fp, f x)])\<rparr>) (add_mset (fp, f x) (mset (seg_recs s) - {#(fp, x)#}))"
    using assms(1) ov by (auto simp: seg_becomes_def seg_recs_def spill_def mset_update seg_ok_def)
  then show ?thesis using ov Overflow by (simp add: get_nth)
qed

lemma seg_push_rec:
  assumes "seg_ok s"
  obtains l s' where "seg_push s fp x = (l, s')" and "seg_becomes s s' (add_mset (fp, x) (mset (seg_recs s)))"
    and "rec_at s' l = Some (fp, x)"
proof (cases "seg_len s < SEGMENT_CAP")
  case True
  let ?s = "s\<lparr>fps := (fps s)[seg_len s := fp], items := (items s)[seg_len s := Some x], seg_len := seg_len s + 1\<rparr>"
  note ok = seg_okD(1,2,3) [OF assms]
  have "seg_ok ?s" using assms True by (auto simp: seg_ok_def nth_list_update less_Suc_eq)
  moreover have inl: "inline_recs ?s = inline_recs s @ [(fp, x)]"
    using assms True \<open>seg_ok ?s\<close>
    by (intro nth_equalityI) (auto simp: inline_recs_nth nth_append less_Suc_eq nth_list_update ok)
  ultimately have "seg_becomes s ?s (add_mset (fp, x) (mset (seg_recs s)))"
    by (simp add: seg_becomes_def seg_recs_def spill_def)
  moreover have "rec_at ?s (Inline (seg_len s)) = Some (fp, x)" using inl assms by (simp add: nth_append)
  ultimately show ?thesis using True by (intro that [of "Inline (seg_len s)" ?s]) (simp_all add: seg_push_def Let_def)
next
  case False
  let ?s = "s\<lparr>overflow := Some (spill s @ [(fp, x)])\<rparr>"
  have "inline_recs ?s = inline_recs s" by (simp add: inline_recs_def)
  then have "seg_becomes s ?s (add_mset (fp, x) (mset (seg_recs s)))"
    using assms by (simp add: seg_becomes_def seg_recs_def spill_def seg_ok_def)
  moreover have "rec_at ?s (Overflow (length (spill s))) = Some (fp, x)" by (simp add: spill_def nth_append)
  ultimately show ?thesis
    using False by (intro that [of "Overflow (length (spill s))" ?s]) (simp_all add: seg_push_def Let_def spill_def [symmetric])
qed

lemma seg_remove_at_rec:
  assumes "seg_ok s" and "rec_at s l = Some (fp, x)"
  shows "\<exists>s'. seg_remove_at s l = Some (x, s') \<and> seg_becomes s s' (mset (seg_recs s) - {#(fp, x)#})"
proof (cases l)
  case (Inline i)
  note ok = seg_okD(1,2,3) [OF assms(1)]
  have i: "i < seg_len s" "items s ! i = Some x" "inline_recs s ! i = (fp, x)"
    using assms Inline seg_okD(4) [OF assms(1), of i] by (auto simp: inline_recs_nth)
  obtain n where n: "seg_len s = Suc n" using i(1) by (cases "seg_len s") auto
  let ?s = "s\<lparr>fps := (fps s)[i := fps s ! n], items := (items s)[i := items s ! n, n := None], seg_len := n\<rparr>"
  have ret: "seg_remove_at s l = Some (x, ?s)"
    using i n ok by (auto simp: Inline checked_sub_def get_nth Let_def list_update_swap)
  have ok': "seg_ok ?s"
    using assms(1) i(1) n by (auto simp: seg_ok_def nth_list_update less_Suc_eq)
  have "inline_recs ?s = swap_remove i (inline_recs s)"
  proof (rule nth_equalityI)
    show "length (inline_recs ?s) = length (swap_remove i (inline_recs s))"
      using ok' assms(1) n by (simp add: swap_remove_def)
    fix j assume "j < length (inline_recs ?s)"
    then have "j < n" using ok' by simp
    moreover have "last (inline_recs s) = inline_recs s ! n"
      using assms(1) n by (metis diff_Suc_1 last_conv_nth length_0_conv length_inline_recs nat.distinct(1))
    ultimately show "inline_recs ?s ! j = swap_remove i (inline_recs s) ! j"
      using i n ok assms(1) ok' by (auto simp: swap_remove_def nth_butlast inline_recs_nth nth_list_update)
  qed
  then have "mset (inline_recs ?s) = mset (inline_recs s) - {#(fp, x)#}"
    using mset_swap_remove [of i "inline_recs s"] i assms(1) by simp
  moreover have "(fp, x) \<in># mset (inline_recs s)" using i assms(1) by (metis length_inline_recs nth_mem set_mset_mset)
  ultimately have "seg_becomes s ?s (mset (seg_recs s) - {#(fp, x)#})"
    using ok' by (simp add: seg_becomes_def seg_recs_def spill_def)
  with ret show ?thesis by blast
next
  case (Overflow i)
  then obtain ov where ov: "overflow s = Some ov" "i < length ov" "ov ! i = (fp, x)"
    using assms(2) by (auto simp: spill_def split: option.splits)
  let ?s = "s\<lparr>overflow := (if swap_remove i ov = [] then None else Some (swap_remove i ov))\<rparr>"
  have "spill ?s = swap_remove i ov" by (simp add: spill_def)
  moreover have "inline_recs ?s = inline_recs s" by (simp add: inline_recs_def)
  moreover have "(fp, x) \<in># mset ov" using ov by (metis nth_mem set_mset_mset)
  moreover have "spill s = ov" using ov by (simp add: spill_def)
  ultimately have "seg_becomes s ?s (mset (seg_recs s) - {#(fp, x)#})"
    using assms(1) mset_swap_remove [OF ov(2)] ov(3) by (simp add: seg_becomes_def seg_recs_def seg_ok_def)
  then show ?thesis using ov Overflow by (simp add: get_nth Let_def)
qed

lemma drain_all_recs:
  assumes "seg_ok s"
  obtains s' where "drain_all s = Some (seg_recs s, s')" and "seg_becomes s s' {#}"
proof
  let ?s = "s\<lparr>seg_len := 0, items := replicate (seg_len s) None @ drop (seg_len s) (items s), overflow := None\<rparr>"
  show "drain_all s = Some (seg_recs s, ?s)"
    using assms by (simp add: drain_all_def Let_def those_items seg_recs_def inline_recs_def spill_def)
  show "seg_becomes s ?s {#}"
    using assms by (auto simp: seg_becomes_def seg_ok_def seg_recs_def inline_recs_def spill_def nth_append)
qed

lemma segment_new_ok [simp]: "seg_ok (segment_new d)" "seg_recs (segment_new d) = []" "local_depth (segment_new d) = d"
  by (simp_all add: segment_new_def seg_ok_def seg_recs_def inline_recs_def spill_def)

end
