(* ===== verification/Dash_Index.thy ===== *)
theory Dash_Index
  imports Dash_Segment
begin

unbundle bit_operations_syntax

text \<open>
  The keyspace index \<open>DashIndex\<close> of \<open>ironcache-dashtable/src/index.rs\<close>: an extendible hash table whose directory is
  indexed by the top bits of a record's hash and points to segments that split when they are full. The hash, the
  equality test and the function that recomputes a record's hash are arguments, as in the code. A panic, an
  arithmetic underflow and a read of a slot that is not initialised are the result \<open>None\<close>. An occupied or vacant
  entry is the place it borrows, and the operations on the entry take the table it was made for.

  The lemmas give the invariant of the directory, that every operation keeps it, that no operation fails, and what
  each operation does to the records.
\<close>

subsection \<open>Operations\<close>

definition MAX_SPLITS :: nat where
  "MAX_SPLITS = 64"

definition MAX_GLOBAL_DEPTH :: nat where
  "MAX_GLOBAL_DEPTH = 20"

record 'a dash_index =
  global_depth :: nat
  directory :: "nat list"
  segments :: "'a segment list"
  dash_len :: nat

definition dash_new :: "'a dash_index" where
  "dash_new = \<lparr>global_depth = 0, directory = [], segments = [], dash_len = 0\<rparr>"

definition dir_index :: "'a dash_index \<Rightarrow> u64 \<Rightarrow> nat" where
  "dir_index t h = (if global_depth t = 0 then 0 else unat (drop_bit (64 - global_depth t) h))"

definition route :: "'a dash_index \<Rightarrow> u64 \<Rightarrow> nat option option" where
  "route t h =
    (if directory t = [] then Some None
     else do { si \<leftarrow> get (directory t) (dir_index t h); Some (Some si) })"

definition ensure_init :: "'a dash_index \<Rightarrow> 'a dash_index" where
  "ensure_init t =
    (if directory t = [] then t\<lparr>directory := directory t @ [0], segments := segments t @ [segment_new 0]\<rparr> else t)"

datatype index_entry = Occupied nat loc | Vacant nat u8

definition find_entry :: "'a dash_index \<Rightarrow> u64 \<Rightarrow> ('a \<Rightarrow> bool) \<Rightarrow> (nat \<times> loc) option option" where
  "find_entry t h eq = do {
     r \<leftarrow> route t h;
     case r of
       None \<Rightarrow> Some None
     | Some si \<Rightarrow> do {
         seg \<leftarrow> get (segments t) si;
         l \<leftarrow> seg_locate seg (fingerprint h) eq;
         Some (map_option (Pair si) l)
       }
   }"

definition occupied_get :: "'a dash_index \<Rightarrow> nat \<times> loc \<Rightarrow> 'a option" where
  "occupied_get t = (\<lambda>(si, l). do { seg \<leftarrow> get (segments t) si; seg_get seg l })"

definition occupied_get_mut :: "'a dash_index \<Rightarrow> nat \<times> loc \<Rightarrow> ('a \<Rightarrow> 'a) \<Rightarrow> 'a dash_index option" where
  "occupied_get_mut t = (\<lambda>(si, l) f. do {
     seg \<leftarrow> get (segments t) si;
     seg' \<leftarrow> seg_get_mut seg l f;
     Some (t\<lparr>segments := (segments t)[si := seg']\<rparr>)
   })"

definition occupied_remove :: "'a dash_index \<Rightarrow> nat \<times> loc \<Rightarrow> ('a \<times> 'a dash_index) option" where
  "occupied_remove t = (\<lambda>(si, l). do {
     seg \<leftarrow> get (segments t) si;
     (x, seg') \<leftarrow> seg_remove_at seg l;
     n \<leftarrow> checked_sub (dash_len t) 1;
     Some (x, t\<lparr>segments := (segments t)[si := seg'], dash_len := n\<rparr>)
   })"

definition vacant_insert :: "'a dash_index \<Rightarrow> nat \<times> u8 \<Rightarrow> 'a \<Rightarrow> ((nat \<times> loc) \<times> 'a dash_index) option" where
  "vacant_insert t = (\<lambda>(si, fp) x. do {
     seg \<leftarrow> get (segments t) si;
     let (l, seg') = seg_push seg fp x;
     Some ((si, l), t\<lparr>segments := (segments t)[si := seg'], dash_len := dash_len t + 1\<rparr>)
   })"

definition dash_find :: "'a dash_index \<Rightarrow> u64 \<Rightarrow> ('a \<Rightarrow> bool) \<Rightarrow> 'a option option" where
  "dash_find t h eq = do {
     r \<leftarrow> route t h;
     case r of
       None \<Rightarrow> Some None
     | Some si \<Rightarrow> do {
         seg \<leftarrow> get (segments t) si;
         l \<leftarrow> seg_locate seg (fingerprint h) eq;
         case l of
           None \<Rightarrow> Some None
         | Some loc \<Rightarrow> map_option Some (seg_get seg loc)
       }
   }"

text \<open>The borrow that \<open>find_mut\<close> returns, written through with \<open>f\<close>.\<close>

definition dash_find_mut :: "'a dash_index \<Rightarrow> u64 \<Rightarrow> ('a \<Rightarrow> bool) \<Rightarrow> ('a \<Rightarrow> 'a) \<Rightarrow> 'a dash_index option" where
  "dash_find_mut t h eq f = do {
     r \<leftarrow> route t h;
     case r of
       None \<Rightarrow> Some t
     | Some si \<Rightarrow> do {
         seg \<leftarrow> get (segments t) si;
         l \<leftarrow> seg_locate seg (fingerprint h) eq;
         case l of
           None \<Rightarrow> Some t
         | Some loc \<Rightarrow> do {
             seg' \<leftarrow> seg_get_mut seg loc f;
             Some (t\<lparr>segments := (segments t)[si := seg']\<rparr>)
           }
       }
   }"

definition dash_iter :: "'a dash_index \<Rightarrow> 'a list option" where
  "dash_iter t = map_option concat (those (map seg_iter (segments t)))"

definition double_directory :: "'a dash_index \<Rightarrow> 'a dash_index" where
  "double_directory t =
    t\<lparr>directory := map (\<lambda>i. directory t ! (i div 2)) [0..<length (directory t) * 2],
      global_depth := global_depth t + 1\<rparr>"

text \<open>The loop of \<open>split\<close> that places the drained records.\<close>

fun place_records :: "('a \<Rightarrow> u64) \<Rightarrow> nat \<Rightarrow> nat \<Rightarrow> nat \<Rightarrow> (u8 \<times> 'a) list \<Rightarrow> 'a dash_index \<Rightarrow> 'a dash_index option" where
  "place_records hasher new_local seg_idx buddy_idx [] t = Some t"
| "place_records hasher new_local seg_idx buddy_idx ((fp, x) # drained) t = do {
     let target = (if bit_from_top (hasher x) new_local then buddy_idx else seg_idx);
     seg \<leftarrow> get (segments t) target;
     let (l, seg') = seg_push seg fp x;
     place_records hasher new_local seg_idx buddy_idx drained
       (t\<lparr>segments := (segments t)[target := seg'], dash_len := dash_len t + 1\<rparr>)
   }"

text \<open>The rest of \<open>split\<close>, once the directory is deeper than the segment.\<close>

definition split_segment :: "('a \<Rightarrow> u64) \<Rightarrow> nat \<Rightarrow> nat \<Rightarrow> 'a dash_index \<Rightarrow> 'a dash_index option" where
  "split_segment hasher seg_idx local t = do {
     let new_local = local + 1;
     let buddy_idx = length (segments t);
     let pushed = segments t @ [segment_new new_local];
     seg \<leftarrow> get pushed seg_idx;
     (drained, seg') \<leftarrow> drain_all (seg\<lparr>local_depth := new_local\<rparr>);
     n \<leftarrow> checked_sub (dash_len t) (length drained);
     t \<leftarrow> place_records hasher new_local seg_idx buddy_idx drained
           (t\<lparr>segments := pushed[seg_idx := seg'], dash_len := n\<rparr>);
     let buddy_u32 = as_u32 buddy_idx;
     let seg_u32 = as_u32 seg_idx;
     shift \<leftarrow> checked_sub (global_depth t) new_local;
     Some (t\<lparr>directory := map (\<lambda>(i, e). if e = seg_u32 \<and> i div 2 ^ shift mod 2 = 1 then buddy_u32 else e)
                          (enumerate 0 (directory t))\<rparr>)
   }"

definition split :: "'a dash_index \<Rightarrow> nat \<Rightarrow> ('a \<Rightarrow> u64) \<Rightarrow> 'a dash_index option" where
  "split t dir_idx hasher = do {
     seg_idx \<leftarrow> get (directory t) dir_idx;
     seg \<leftarrow> get (segments t) seg_idx;
     let local = local_depth seg;
     split_segment hasher seg_idx local (if local = global_depth t then double_directory t else t)
   }"

function make_room :: "('a \<Rightarrow> u64) \<Rightarrow> u64 \<Rightarrow> nat \<Rightarrow> 'a dash_index \<Rightarrow> 'a dash_index option" where
  "make_room hasher h splits t = do {
     si \<leftarrow> get (directory t) (dir_index t h);
     seg \<leftarrow> get (segments t) si;
     if seg_count seg < SEGMENT_CAP \<or> splits \<ge> MAX_SPLITS then Some t
     else do {
       collided \<leftarrow> (if all_fps_equal seg (fingerprint h)
                    then map_option (list_all (\<lambda>x. hasher x = h)) (seg_iter seg) else Some False);
       if collided then Some t
       else if local_depth seg = global_depth t \<and> global_depth t \<ge> MAX_GLOBAL_DEPTH then Some t
       else do {
         t' \<leftarrow> split t (dir_index t h) hasher;
         make_room hasher h (splits + 1) t'
       }
     }
   }"
  by pat_completeness auto
termination
  by (relation "measure (\<lambda>(_, _, splits, _). MAX_SPLITS - splits)") auto

declare make_room.simps [simp del]

definition dash_entry :: "'a dash_index \<Rightarrow> u64 \<Rightarrow> ('a \<Rightarrow> bool) \<Rightarrow> ('a \<Rightarrow> u64) \<Rightarrow> (index_entry \<times> 'a dash_index) option" where
  "dash_entry t h eq hasher = do {
     let t = ensure_init t;
     let fp = fingerprint h;
     si \<leftarrow> get (directory t) (dir_index t h);
     seg \<leftarrow> get (segments t) si;
     l \<leftarrow> seg_locate seg fp eq;
     case l of
       Some loc \<Rightarrow> Some (Occupied si loc, t)
     | None \<Rightarrow> do {
         t \<leftarrow> make_room hasher h 0 t;
         si \<leftarrow> get (directory t) (dir_index t h);
         Some (Vacant si fp, t)
       }
   }"

fun next_power_of_two :: "nat \<Rightarrow> nat" where
  "next_power_of_two n = (if n \<le> 1 then 1 else 2 * next_power_of_two ((n + 1) div 2))"

declare next_power_of_two.simps [simp del]

definition target_depth :: "nat \<Rightarrow> nat" where
  "target_depth needed =
    min (trailing_zeros (of_nat (max (next_power_of_two (div_ceil needed (SEGMENT_CAP * 7 div 8))) 1))) MAX_GLOBAL_DEPTH"

function grow_directory :: "nat \<Rightarrow> 'a dash_index \<Rightarrow> 'a dash_index" where
  "grow_directory target t = (if global_depth t < target then grow_directory target (double_directory t) else t)"
  by pat_completeness auto
termination
  by (relation "measure (\<lambda>(target, t). target - global_depth t)") (auto simp: double_directory_def)

declare grow_directory.simps [simp del]

definition reserve :: "'a dash_index \<Rightarrow> nat \<Rightarrow> 'a dash_index option" where
  "reserve t additional =
    (let needed = dash_len t + additional in
     if needed > u64_max then None
     else if needed = 0 then Some t
     else
       let target = target_depth needed in
       if directory t = [] then
         Some (t\<lparr>global_depth := target, directory := map as_u32 [0..<2 ^ target],
                 segments := map (\<lambda>_. segment_new target) [0..<2 ^ target]\<rparr>)
       else Some (grow_directory target t))"

subsection \<open>The invariant\<close>

definition home :: "'a dash_index \<Rightarrow> u64 \<Rightarrow> nat" where
  "home t h = directory t ! dir_index t h"

text \<open>The directory: every segment has an entry, and the entries of a segment of local depth \<open>d\<close> are the indexes with
  the same top \<open>d\<close> bits.\<close>

definition same_prefix :: "'a dash_index \<Rightarrow> nat \<Rightarrow> nat \<Rightarrow> nat \<Rightarrow> bool" where
  "same_prefix t d i j \<longleftrightarrow> i div 2 ^ (global_depth t - d) = j div 2 ^ (global_depth t - d)"

definition dir_ok :: "'a dash_index \<Rightarrow> bool" where
  "dir_ok t \<longleftrightarrow> global_depth t \<le> MAX_GLOBAL_DEPTH \<and> length (directory t) = 2 ^ global_depth t \<and>
     set (directory t) = {..<length (segments t)} \<and> (\<forall>s \<in> set (segments t). local_depth s \<le> global_depth t) \<and>
     (\<forall>i < 2 ^ global_depth t. \<forall>j < 2 ^ global_depth t.
        directory t ! j = directory t ! i \<longleftrightarrow> same_prefix t (local_depth (segments t ! (directory t ! i))) i j)"

definition recs_ok :: "('a \<Rightarrow> u64) \<Rightarrow> 'a dash_index \<Rightarrow> bool" where
  "recs_ok hasher t \<longleftrightarrow> (\<forall>k < length (segments t). seg_ok (segments t ! k) \<and>
     (\<forall>r \<in> set (seg_recs (segments t ! k)). fst r = fingerprint (hasher (snd r)) \<and> home t (hasher (snd r)) = k))"

lemma recs_okD:
  assumes "recs_ok hasher t" and "k < length (segments t)"
  shows "seg_ok (segments t ! k)"
    "r \<in> set (seg_recs (segments t ! k)) \<Longrightarrow> fst r = fingerprint (hasher (snd r))"
    "r \<in> set (seg_recs (segments t ! k)) \<Longrightarrow> home t (hasher (snd r)) = k"
  using assms by (simp_all add: recs_ok_def)

definition bag :: "'a segment \<Rightarrow> 'a multiset" where
  "bag s = mset (map snd (seg_recs s))"

definition records :: "'a dash_index \<Rightarrow> 'a multiset" where
  "records t = sum_list (map bag (segments t))"

definition dash_live :: "('a \<Rightarrow> u64) \<Rightarrow> 'a dash_index \<Rightarrow> bool" where
  "dash_live hasher t \<longleftrightarrow> dir_ok t \<and> recs_ok hasher t \<and> dash_len t = size (records t)"

definition dash_ok :: "('a \<Rightarrow> u64) \<Rightarrow> 'a dash_index \<Rightarrow> bool" where
  "dash_ok hasher t \<longleftrightarrow> t = dash_new \<or> dash_live hasher t"

lemma dash_ok_new [simp]: "dash_ok hasher dash_new" "records dash_new = {#}"
  by (simp_all add: dash_ok_def dash_new_def records_def)

lemma dash_ok_live [intro]: "dash_live hasher t \<Longrightarrow> dash_ok hasher t"
  by (simp add: dash_ok_def)

lemma dir_okD:
  assumes "dir_ok t"
  shows "global_depth t \<le> 20" "length (directory t) = 2 ^ global_depth t" "set (directory t) = {..<length (segments t)}"
    "k < length (segments t) \<Longrightarrow> local_depth (segments t ! k) \<le> global_depth t"
    "i < 2 ^ global_depth t \<Longrightarrow> j < 2 ^ global_depth t \<Longrightarrow>
       directory t ! j = directory t ! i \<longleftrightarrow> same_prefix t (local_depth (segments t ! (directory t ! i))) i j"
  using assms by (auto simp: dir_ok_def MAX_GLOBAL_DEPTH_def)

lemma dir_ok_entry:
  assumes "dir_ok t" and "i < 2 ^ global_depth t"
  shows "directory t ! i < length (segments t)"
  using dir_okD(2,3) [OF assms(1)] assms(2) nth_mem [of i "directory t"] by auto

text \<open>There are at most \<open>2 ^ 20\<close> segments, so an index of one is exact in 32 bits.\<close>

lemma segments_bound:
  assumes "dir_ok t"
  shows "length (segments t) \<le> 2 ^ global_depth t" and "length (segments t) \<le> 2 ^ 20"
proof -
  show "length (segments t) \<le> 2 ^ global_depth t"
    using card_length [of "directory t"] dir_okD(2,3) [OF assms] by simp
  also have "\<dots> \<le> 2 ^ 20" using dir_okD(1) [OF assms] by (intro power_increasing) auto
  finally show "length (segments t) \<le> 2 ^ 20" .
qed

subsection \<open>Directory arithmetic\<close>

lemma dir_index_div: "global_depth t \<le> 64 \<Longrightarrow> dir_index t h = unat h div 2 ^ (64 - global_depth t)"
proof -
  have "unat (drop_bit n h) = unat h div 2 ^ n" for n by (simp add: unat_drop_bit_eq flip: drop_bit_eq_div)
  then show ?thesis using unsigned_less [of h, where ?'a = nat] by (simp add: dir_index_def)
qed

lemma dir_index_less: "global_depth t \<le> 64 \<Longrightarrow> dir_index t h < 2 ^ global_depth t"
  using unsigned_less [of h, where ?'a = nat] by (simp add: dir_index_div less_mult_imp_div_less flip: power_add)

lemma dir_index_prefix:
  assumes "d \<le> global_depth t" "global_depth t \<le> 64"
  shows "dir_index t h div 2 ^ (global_depth t - d) = unat h div 2 ^ (64 - d)"
  using assms by (simp add: dir_index_div flip: div_mult2_eq power_add)

lemma bit_from_top_odd: "bit_from_top h n \<longleftrightarrow> odd (unat h div 2 ^ (64 - n))"
proof -
  have "bit_from_top h n \<longleftrightarrow> bit h (64 - n)"
    by (auto simp: bit_from_top_def bit_iff_odd_drop_bit and_one_eq odd_iff_mod_2_eq_one)
  also have "\<dots> \<longleftrightarrow> bit (unat h) (64 - n)" by (simp add: bit_unsigned_iff)
  finally show ?thesis by (simp add: bit_iff_odd)
qed

lemma sum_list_map_update:
  fixes f :: "'b \<Rightarrow> 'c :: comm_monoid_add"
  assumes "k < length xs"
  shows "sum_list (map f (xs[k := y])) + f (xs ! k) = sum_list (map f xs) + f y"
  using assms by (induction xs arbitrary: k) (auto simp: less_Suc_eq_0_disj nth_Cons' ac_simps split: nat.splits)

subsection \<open>Doubling the directory\<close>

lemma double_directory_sel [simp]:
  "global_depth (double_directory t) = global_depth t + 1" "segments (double_directory t) = segments t"
  "dash_len (double_directory t) = dash_len t" "length (directory (double_directory t)) = 2 * length (directory t)"
  by (simp_all add: double_directory_def)

lemma double_directory_nth:
  "j < 2 * length (directory t) \<Longrightarrow> directory (double_directory t) ! j = directory t ! (j div 2)"
  by (simp add: double_directory_def)

lemma same_prefix_double:
  "d \<le> global_depth t \<Longrightarrow> same_prefix (double_directory t) d i j \<longleftrightarrow> same_prefix t d (i div 2) (j div 2)"
  by (simp add: same_prefix_def Suc_diff_le div_mult2_eq)

lemma home_double:
  assumes "dir_ok t" and "global_depth t < 20"
  shows "home (double_directory t) h = home t h"
proof -
  have "dir_index (double_directory t) h div 2 = dir_index t h"
    using dir_index_prefix [of "global_depth t" "double_directory t" h] assms(2)
    by (simp add: dir_index_div)
  then show ?thesis
    using dir_index_less [of "double_directory t" h] assms(2) dir_okD(2) [OF assms(1)]
    by (simp add: home_def double_directory_nth)
qed

lemma dir_ok_double:
  assumes "dir_ok t" and "global_depth t < 20"
  shows "dir_ok (double_directory t)"
proof -
  note d = dir_okD [OF assms(1)]
  have "set (directory (double_directory t)) = set (directory t)"
  proof -
    have "(\<lambda>i. i div 2) ` {0..<length (directory t) * 2} = {0..<length (directory t)}"
      by (auto simp: image_iff) (metis (no_types) div_mult_self1_is_m mult.commute mult_less_cancel1 zero_less_numeral lessThan_iff atLeastLessThan_iff le0)
    then show ?thesis
      unfolding double_directory_def by (simp add: image_comp [of "\<lambda>i. directory t ! i" "\<lambda>i. i div 2", unfolded o_def, symmetric] nth_image)
  qed
  then show ?thesis
    using assms d(1-3) d(4) dir_ok_entry [OF assms(1)]
    by (auto simp: dir_ok_def MAX_GLOBAL_DEPTH_def double_directory_nth same_prefix_double in_set_conv_nth d(5) le_Suc_eq)
qed

subsection \<open>Splitting a segment\<close>

lemma place_records_correct:
  assumes "a < length (segments t)" "b < length (segments t)" "a \<noteq> b"
    "seg_ok (segments t ! a)" "seg_ok (segments t ! b)"
  shows "\<exists>t'. place_records hasher n a b rs t = Some t' \<and> global_depth t' = global_depth t \<and> directory t' = directory t \<and>
    dash_len t' = dash_len t + length rs \<and> length (segments t') = length (segments t) \<and>
    (\<forall>k. k \<noteq> a \<longrightarrow> k \<noteq> b \<longrightarrow> segments t' ! k = segments t ! k) \<and>
    seg_becomes (segments t ! a) (segments t' ! a)
      (mset (seg_recs (segments t ! a)) + filter_mset (\<lambda>r. \<not> bit_from_top (hasher (snd r)) n) (mset rs)) \<and>
    seg_becomes (segments t ! b) (segments t' ! b)
      (mset (seg_recs (segments t ! b)) + filter_mset (\<lambda>r. bit_from_top (hasher (snd r)) n) (mset rs))"
  using assms
proof (induction rs arbitrary: t)
  case Nil
  then show ?case by (simp add: seg_becomes_def)
next
  case (Cons r rs)
  obtain fp x where r: "r = (fp, x)" by (cases r)
  define target where "target = (if bit_from_top (hasher x) n then b else a)"
  have "seg_ok (segments t ! target)" using Cons.prems by (simp add: target_def)
  then obtain l s' where push: "seg_push (segments t ! target) fp x = (l, s')"
    and s': "seg_becomes (segments t ! target) s' (add_mset (fp, x) (mset (seg_recs (segments t ! target))))"
    by (rule seg_push_rec)
  let ?t = "t\<lparr>segments := (segments t)[target := s'], dash_len := dash_len t + 1\<rparr>"
  have tgt: "target < length (segments t)" using Cons.prems by (simp add: target_def)
  have step: "place_records hasher n a b (r # rs) t = place_records hasher n a b rs ?t"
    using tgt push by (simp add: r get_nth target_def [symmetric])
  have ok: "seg_ok (segments ?t ! a)" "seg_ok (segments ?t ! b)"
    using Cons.prems s' tgt by (auto simp: nth_list_update seg_becomes_def)
  obtain t' where t': "place_records hasher n a b rs ?t = Some t'" "global_depth t' = global_depth t" "directory t' = directory t"
      "dash_len t' = dash_len t + 1 + length rs" "length (segments t') = length (segments t)"
      "\<forall>k. k \<noteq> a \<longrightarrow> k \<noteq> b \<longrightarrow> segments t' ! k = segments ?t ! k"
    and sa: "seg_becomes (segments ?t ! a) (segments t' ! a)
      (mset (seg_recs (segments ?t ! a)) + filter_mset (\<lambda>r. \<not> bit_from_top (hasher (snd r)) n) (mset rs))"
    and sb: "seg_becomes (segments ?t ! b) (segments t' ! b)
      (mset (seg_recs (segments ?t ! b)) + filter_mset (\<lambda>r. bit_from_top (hasher (snd r)) n) (mset rs))"
    using Cons.IH [of ?t] ok Cons.prems by auto
  have "segments t' ! k = segments t ! k" if "k \<noteq> a" "k \<noteq> b" for k
    using t'(6) that by (auto simp: target_def split: if_splits)
  moreover have "seg_becomes (segments t ! a) (segments t' ! a)
      (mset (seg_recs (segments t ! a)) + filter_mset (\<lambda>r. \<not> bit_from_top (hasher (snd r)) n) (mset (r # rs)))"
    using sa s' Cons.prems by (auto simp: seg_becomes_def target_def r split: if_splits)
  moreover have "seg_becomes (segments t ! b) (segments t' ! b)
      (mset (seg_recs (segments t ! b)) + filter_mset (\<lambda>r. bit_from_top (hasher (snd r)) n) (mset (r # rs)))"
    using sb s' Cons.prems by (auto simp: seg_becomes_def target_def r split: if_splits)
  ultimately show ?case unfolding step using t'(1-5) by auto
qed

definition split_of :: "('a \<Rightarrow> u64) \<Rightarrow> nat \<Rightarrow> 'a dash_index \<Rightarrow> 'a dash_index \<Rightarrow> bool" where
  "split_of hasher a t t' \<longleftrightarrow>
    (let b = length (segments t); d = Suc (local_depth (segments t ! a)); up = (\<lambda>r. bit_from_top (hasher (snd r)) d) in
     global_depth t' = global_depth t \<and> dash_len t' = dash_len t \<and> length (segments t') = Suc b \<and>
     (\<forall>k < b. k \<noteq> a \<longrightarrow> segments t' ! k = segments t ! k) \<and>
     seg_ok (segments t' ! a) \<and> local_depth (segments t' ! a) = d \<and>
     mset (seg_recs (segments t' ! a)) = filter_mset (\<lambda>r. \<not> up r) (mset (seg_recs (segments t ! a))) \<and>
     seg_ok (segments t' ! b) \<and> local_depth (segments t' ! b) = d \<and>
     mset (seg_recs (segments t' ! b)) = filter_mset up (mset (seg_recs (segments t ! a))) \<and>
     length (directory t') = length (directory t) \<and>
     (\<forall>j < length (directory t). directory t' ! j =
        (if directory t ! j = a \<and> odd (j div 2 ^ (global_depth t - d)) then b else directory t ! j)))"

lemma split_ofD:
  assumes "split_of hasher a t t'" and "b = length (segments t)" "d = Suc (local_depth (segments t ! a))"
  shows "global_depth t' = global_depth t" "dash_len t' = dash_len t" "length (segments t') = Suc b"
    "k < b \<Longrightarrow> k \<noteq> a \<Longrightarrow> segments t' ! k = segments t ! k"
    "seg_ok (segments t' ! a)" "local_depth (segments t' ! a) = d"
    "mset (seg_recs (segments t' ! a)) = filter_mset (\<lambda>r. \<not> bit_from_top (hasher (snd r)) d) (mset (seg_recs (segments t ! a)))"
    "seg_ok (segments t' ! b)" "local_depth (segments t' ! b) = d"
    "mset (seg_recs (segments t' ! b)) = filter_mset (\<lambda>r. bit_from_top (hasher (snd r)) d) (mset (seg_recs (segments t ! a)))"
    "length (directory t') = length (directory t)"
    "j < length (directory t) \<Longrightarrow> directory t' ! j =
        (if directory t ! j = a \<and> odd (j div 2 ^ (global_depth t - d)) then b else directory t ! j)"
  using assms by (simp_all add: split_of_def Let_def)

lemma seg_frame_depth [simp]: "seg_ok (s\<lparr>local_depth := d\<rparr>) = seg_ok s" "seg_recs (s\<lparr>local_depth := d\<rparr>) = seg_recs s"
  by (simp_all add: seg_ok_def seg_recs_def inline_recs_def spill_def)

lemma split_segment_some:
  assumes "dir_ok t" and "a < length (segments t)" and "seg_ok (segments t ! a)"
    and "d = local_depth (segments t ! a)" and "d < global_depth t" and "length (seg_recs (segments t ! a)) \<le> dash_len t"
  shows "\<exists>t'. split_segment hasher a d t = Some t' \<and> split_of hasher a t t'"
proof -
  let ?b = "length (segments t)" and ?s = "segments t ! a" and ?rs = "seg_recs (segments t ! a)"
  let ?pushed = "segments t @ [segment_new (d + 1)]"
  have "seg_ok (?s\<lparr>local_depth := d + 1\<rparr>)" using assms(3) by simp
  from drain_all_recs [OF this] obtain s' where dr: "drain_all (?s\<lparr>local_depth := d + 1\<rparr>) = Some (?rs, s')"
    and s': "seg_ok s'" "seg_recs s' = []" "local_depth s' = d + 1"
    by (auto simp: seg_becomes_def)
  let ?t = "t\<lparr>segments := ?pushed[a := s'], dash_len := dash_len t - length ?rs\<rparr>"
  have sel: "segments ?t ! a = s'" "segments ?t ! ?b = segment_new (d + 1)" "\<And>k. k < ?b \<Longrightarrow> k \<noteq> a \<Longrightarrow> segments ?t ! k = segments t ! k"
    using assms(2) by (simp_all add: nth_append nth_list_update)
  from place_records_correct [of a ?t ?b hasher "d + 1" ?rs] obtain t' where
    t': "place_records hasher (d + 1) a ?b ?rs ?t = Some t'" "global_depth t' = global_depth t" "directory t' = directory t"
      "dash_len t' = dash_len t" "length (segments t') = Suc ?b"
      "\<And>k. k < ?b \<Longrightarrow> k \<noteq> a \<Longrightarrow> segments t' ! k = segments t ! k"
    and sa: "seg_becomes s' (segments t' ! a) (filter_mset (\<lambda>r. \<not> bit_from_top (hasher (snd r)) (d + 1)) (mset ?rs))"
    and sb: "seg_becomes (segment_new (d + 1)) (segments t' ! ?b) (filter_mset (\<lambda>r. bit_from_top (hasher (snd r)) (d + 1)) (mset ?rs))"
    using assms(2,6) s'(1,2) sel by auto
  have u32: "as_u32 a = a" "as_u32 ?b = ?b"
    using segments_bound(2) [OF assms(1)] assms(2) by (simp_all add: as_u32_def)
  let ?t' = "t'\<lparr>directory := map (\<lambda>(i, e). if e = a \<and> i div 2 ^ (global_depth t - (d + 1)) mod 2 = 1 then ?b else e)
      (enumerate 0 (directory t'))\<rparr>"
  have "split_segment hasher a d t = Some ?t'"
    using assms(2,5,6) dr t' u32 by (simp add: split_segment_def Let_def get_nth nth_append checked_sub_def cong: if_cong)
  moreover have "split_of hasher a t ?t'"
    using assms(4) t' sa sb s' by (auto simp: split_of_def Let_def seg_becomes_def nth_enumerate_eq odd_iff_mod_2_eq_one)
  ultimately show ?thesis by blast
qed

text \<open>The entries of the segment that is split, by one more bit.\<close>

lemma half_parity_eq: "(m::nat) = n \<longleftrightarrow> m div 2 = n div 2 \<and> odd m = odd n"
  by presburger

lemma same_prefix_Suc:
  assumes "Suc d \<le> global_depth t"
  shows "same_prefix t (Suc d) i j \<longleftrightarrow>
    same_prefix t d i j \<and> odd (i div 2 ^ (global_depth t - Suc d)) = odd (j div 2 ^ (global_depth t - Suc d))"
proof -
  let ?m = "(2::nat) ^ (global_depth t - Suc d)"
  have half: "k div 2 ^ (global_depth t - d) = k div ?m div 2" for k
    using assms by (metis Suc_diff_le div_mult2_eq diff_Suc_Suc mult.commute power_Suc)
  show ?thesis unfolding same_prefix_def half by (rule half_parity_eq)
qed

lemma split_entry_exists:
  assumes "dir_ok t" and "a < length (segments t)" and "Suc (local_depth (segments t ! a)) \<le> global_depth t"
  shows "\<exists>j < 2 ^ global_depth t. directory t ! j = a \<and>
    odd (j div 2 ^ (global_depth t - Suc (local_depth (segments t ! a)))) = upper"
proof -
  let ?g = "global_depth t" and ?d = "local_depth (segments t ! a)"
  let ?m = "(2::nat) ^ (?g - Suc ?d)"
  note dir = dir_okD [OF assms(1)]
  obtain i where i: "i < 2 ^ ?g" "directory t ! i = a"
    using assms(2) dir(2,3) by (metis in_set_conv_nth lessThan_iff)
  define q where "q = 2 * (i div ?m div 2) + of_bool upper"
  have g: "2 ^ ?g = ?m * 2 ^ Suc ?d" using assms(3) by (metis le_add_diff_inverse2 power_add)
  have "i div ?m < 2 ^ Suc ?d" using i(1) unfolding g by (simp add: less_mult_imp_div_less mult.commute)
  then have "i div ?m div 2 < 2 ^ ?d" by (simp add: less_mult_imp_div_less mult.commute)
  then have "q < 2 ^ Suc ?d" by (cases upper) (simp_all add: q_def)
  then have j: "q * ?m < 2 ^ ?g" unfolding g by (simp add: mult.commute)
  have q: "q * ?m div ?m = q" "odd q = upper" "q div 2 = i div ?m div 2" by (simp_all add: q_def)
  have half: "k div 2 ^ (?g - ?d) = k div ?m div 2" for k
    using assms(3) by (metis Suc_diff_le div_mult2_eq diff_Suc_Suc mult.commute power_Suc)
  have "same_prefix t ?d i (q * ?m)" unfolding same_prefix_def half q by simp
  then have "directory t ! (q * ?m) = a" using dir(5) [OF i(1) j] i(2) by simp
  with j q show ?thesis by (intro exI [of _ "q * ?m"]) simp
qed

lemma split_of_nth:
  assumes "dir_ok t" and "split_of hasher a t t'" and "j < 2 ^ global_depth t"
  shows "directory t' ! j = (if directory t ! j = a \<and> odd (j div 2 ^ (global_depth t - Suc (local_depth (segments t ! a))))
    then length (segments t) else directory t ! j)"
  using split_ofD(12) [OF assms(2) refl refl] dir_okD(2) [OF assms(1)] assms(3) by simp

lemma split_of_entries:
  assumes "dir_ok t" and "a < length (segments t)" and "Suc (local_depth (segments t ! a)) \<le> global_depth t"
    and "split_of hasher a t t'"
  shows "set (directory t') = {..<Suc (length (segments t))}"
proof
  let ?g = "global_depth t" and ?b = "length (segments t)"
  note dir = dir_okD(2,3) [OF assms(1)] and nth = split_of_nth [OF assms(1,4)]
  have len: "length (directory t') = 2 ^ ?g" using split_ofD(11) [OF assms(4) refl refl] dir(1) by simp
  show "set (directory t') \<subseteq> {..<Suc ?b}"
    using dir_ok_entry [OF assms(1)] len by (auto simp: in_set_conv_nth nth less_Suc_eq split: if_splits)
  show "{..<Suc ?b} \<subseteq> set (directory t')"
  proof
    fix k assume k: "k \<in> {..<Suc ?b}"
    obtain j where "j < 2 ^ ?g" "directory t' ! j = k"
    proof (cases "k = a \<or> k = ?b")
      case True
      then show ?thesis
        using split_entry_exists [OF assms(1-3), of "k = ?b"] nth assms(2) that by (metis less_irrefl)
    next
      case False
      then have "k \<in> set (directory t)" using k dir(2) by auto
      then show ?thesis using nth dir(1) False that by (metis in_set_conv_nth)
    qed
    then show "k \<in> set (directory t')" using len by (metis nth_mem)
  qed
qed

lemma split_of_prefix:
  assumes "dir_ok t" and "a < length (segments t)" and "Suc (local_depth (segments t ! a)) \<le> global_depth t"
    and "split_of hasher a t t'" and ij: "i < 2 ^ global_depth t" "j < 2 ^ global_depth t"
  shows "directory t' ! j = directory t' ! i \<longleftrightarrow> same_prefix t' (local_depth (segments t' ! (directory t' ! i))) i j"
proof -
  let ?d = "local_depth (segments t ! a)" and ?b = "length (segments t)"
  note dir = dir_okD(5) [OF assms(1) ij] and sp = split_ofD [OF assms(4) refl refl] and old = dir_ok_entry [OF assms(1)]
  have sp': "same_prefix t' e i j \<longleftrightarrow> same_prefix t e i j" for e by (simp add: same_prefix_def sp(1))
  define up where "up k = odd (k div 2 ^ (global_depth t - Suc ?d))" for k :: nat
  have n: "directory t' ! i = (if directory t ! i = a \<and> up i then ?b else directory t ! i)"
    "directory t' ! j = (if directory t ! j = a \<and> up j then ?b else directory t ! j)"
    using split_of_nth [OF assms(1,4)] ij by (simp_all add: up_def)
  show ?thesis
  proof (cases "directory t ! i = a")
    case True
    then have "local_depth (segments t' ! (directory t' ! i)) = Suc ?d" using sp(6,9) by (simp add: n)
    moreover have "same_prefix t (Suc ?d) i j \<longleftrightarrow> directory t ! j = a \<and> up i = up j"
      using dir True by (simp add: same_prefix_Suc [OF assms(3)] up_def)
    ultimately show ?thesis using True old [OF ij(2)] assms(2) by (auto simp: n sp')
  next
    case False
    then have "directory t' ! i = directory t ! i" by (simp add: n)
    moreover have "segments t' ! (directory t ! i) = segments t ! (directory t ! i)"
      using sp(4) [OF old [OF ij(1)] False] .
    ultimately show ?thesis using dir False old [OF ij(1)] by (auto simp: n sp')
  qed
qed

lemma split_of_dir_ok:
  assumes "dir_ok t" and "a < length (segments t)" and "Suc (local_depth (segments t ! a)) \<le> global_depth t"
    and "split_of hasher a t t'"
  shows "dir_ok t'"
proof -
  note sp = split_ofD [OF assms(4) refl refl]
  have "local_depth (segments t' ! k) \<le> global_depth t" if "k < Suc (length (segments t))" for k
    using sp(4) [of k] sp(6,9) dir_okD(4) [OF assms(1), of k] assms(3) that
    by (cases "k = a \<or> k = length (segments t)") auto
  then show ?thesis
    using dir_okD(1,2) [OF assms(1)] sp(1,3,11) split_of_entries [OF assms] split_of_prefix [OF assms]
    by (auto simp: dir_ok_def MAX_GLOBAL_DEPTH_def in_set_conv_nth)
qed

lemma split_of_home:
  assumes "dir_ok t" and "split_of hasher a t t'" and "Suc (local_depth (segments t ! a)) \<le> global_depth t"
  shows "home t' h = (if home t h = a \<and> bit_from_top h (Suc (local_depth (segments t ! a))) then length (segments t) else home t h)"
proof -
  note dir = dir_okD [OF assms(1)] and sp = split_ofD [OF assms(2) refl refl]
  have "dir_index t' h = dir_index t h" by (simp add: dir_index_def sp(1))
  moreover have "dir_index t h < length (directory t)" using dir_index_less [of t h] dir(1,2) by simp
  moreover have "bit_from_top h (Suc (local_depth (segments t ! a))) \<longleftrightarrow>
      odd (dir_index t h div 2 ^ (global_depth t - Suc (local_depth (segments t ! a))))"
    using dir_index_prefix [OF assms(3)] dir(1) by (simp add: bit_from_top_odd)
  ultimately show ?thesis by (simp add: home_def sp(12))
qed

lemma split_of_recs:
  assumes "dir_ok t" and "a < length (segments t)" and "Suc (local_depth (segments t ! a)) \<le> global_depth t"
    and "split_of hasher a t t'" and "recs_ok hasher t"
  shows "recs_ok hasher t'" and "records t' = records t"
proof -
  let ?d = "local_depth (segments t ! a)" and ?b = "length (segments t)"
  note sp = split_ofD [OF assms(4) refl refl] and home = split_of_home [OF assms(1,4,3)]
  have from_a: "set (seg_recs (segments t' ! a)) = {r \<in> set (seg_recs (segments t ! a)). \<not> bit_from_top (hasher (snd r)) (Suc ?d)}"
    "set (seg_recs (segments t' ! ?b)) = {r \<in> set (seg_recs (segments t ! a)). bit_from_top (hasher (snd r)) (Suc ?d)}"
    using arg_cong [OF sp(7), of set_mset] arg_cong [OF sp(10), of set_mset] by simp_all
  have "seg_ok (segments t' ! k) \<and>
      (\<forall>r \<in> set (seg_recs (segments t' ! k)). fst r = fingerprint (hasher (snd r)) \<and> home t' (hasher (snd r)) = k)"
    if k: "k < Suc ?b" for k
  proof (cases "k = a \<or> k = ?b")
    case True
    then show ?thesis
      using from_a sp(5,8) recs_okD(2,3) [OF assms(5,2)] by (elim disjE) (simp_all add: home)
  next
    case False
    then have "k < ?b" "k \<noteq> a" using k by simp_all
    then show ?thesis using sp(4) [of k] recs_okD [OF assms(5) \<open>k < ?b\<close>] by (simp add: home)
  qed
  then show "recs_ok hasher t'" by (simp add: recs_ok_def sp(3))
  have "segments t' = (segments t)[a := segments t' ! a] @ [segments t' ! ?b]"
    using sp(3,4) assms(2) by (intro nth_equalityI) (auto simp: nth_append nth_list_update less_Suc_eq)
  then have rec': "records t' = sum_list (map bag ((segments t)[a := segments t' ! a])) + bag (segments t' ! ?b)"
    unfolding records_def by (metis (no_types) list.map(1,2) map_append sum_list.append sum_list.Cons sum_list.Nil add_0_right)
  have part: "bag (segments t' ! a) + bag (segments t' ! ?b) = bag (segments t ! a)"
    using sp(7,10) by (simp add: bag_def flip: image_mset_union multiset_partition)
  have "records t' + bag (segments t' ! a) =
      sum_list (map bag ((segments t)[a := segments t' ! a])) + (bag (segments t' ! a) + bag (segments t' ! ?b))"
    by (simp add: rec' ac_simps)
  also have "\<dots> = sum_list (map bag ((segments t)[a := segments t' ! a])) + bag (segments t ! a)" by (simp only: part)
  also have "\<dots> = records t + bag (segments t' ! a)"
    unfolding records_def by (rule sum_list_map_update [OF assms(2)])
  finally have "records t' + bag (segments t' ! a) = records t + bag (segments t' ! a)" .
  then show "records t' = records t" by simp
qed

lemma home_less: "dir_ok t \<Longrightarrow> home t h < length (segments t)"
  using dir_ok_entry [OF _ dir_index_less] dir_okD(1) [of t] by (fastforce simp: home_def)

lemma get_home: "dir_ok t \<Longrightarrow> get (directory t) (dir_index t h) = Some (home t h)"
  using dir_index_less [of t h] dir_okD(1,2) [of t] by (simp add: home_def get_nth)

lemma bag_le_records:
  assumes "k < length (segments t)"
  shows "bag (segments t ! k) \<subseteq># records t"
proof -
  have "records t = sum_list (map bag ((segments t)[k := segment_new 0])) + bag (segments t ! k)"
    using sum_list_map_update [OF assms, of bag "segment_new 0"] by (simp add: records_def bag_def [of "segment_new 0"])
  then show ?thesis by simp
qed

lemma dash_live_double:
  assumes "dash_live hasher t" and "global_depth t < 20"
  shows "dash_live hasher (double_directory t)" and "records (double_directory t) = records t"
  using assms home_double [of t] dir_ok_double [of t] by (simp_all add: dash_live_def recs_ok_def records_def)

lemma split_correct:
  assumes "dash_live hasher t" and "\<not> (local_depth (segments t ! home t h) = global_depth t \<and> global_depth t \<ge> MAX_GLOBAL_DEPTH)"
  obtains t' where "split t (dir_index t h) hasher = Some t'" and "dash_live hasher t'" and "records t' = records t"
    and "local_depth (segments t' ! home t' h) = Suc (local_depth (segments t ! home t h))"
proof -
  let ?a = "home t h" and ?d = "local_depth (segments t ! home t h)"
  have dir: "dir_ok t" using assms(1) by (simp add: dash_live_def)
  have a: "?a < length (segments t)" and d: "?d \<le> global_depth t"
    using home_less [OF dir] dir_okD(4) [OF dir] by simp_all
  define t1 where "t1 = (if ?d = global_depth t then double_directory t else t)"
  have "?d = global_depth t \<Longrightarrow> global_depth t < 20" using assms(2) by (simp add: MAX_GLOBAL_DEPTH_def)
  then have t1: "dash_live hasher t1" "records t1 = records t" "segments t1 = segments t" "home t1 h = ?a" "?d < global_depth t1"
    using assms(1) dash_live_double [of hasher t] home_double [OF dir] d by (auto simp: t1_def)
  then have dir1: "dir_ok t1" and rec1: "recs_ok hasher t1" and len1: "dash_len t1 = size (records t1)"
    by (simp_all add: dash_live_def)
  have "length (seg_recs (segments t1 ! ?a)) \<le> dash_len t1"
    using size_mset_mono [OF bag_le_records [of ?a t1]] a t1(3) len1 by (simp add: bag_def)
  then obtain t' where t': "split_segment hasher ?a ?d t1 = Some t'" "split_of hasher ?a t1 t'"
    using split_segment_some [OF dir1, of ?a ?d hasher] a t1(3,5) recs_okD(1) [OF rec1, of ?a] by auto
  have pre: "?a < length (segments t1)" "Suc (local_depth (segments t1 ! ?a)) \<le> global_depth t1"
    using a t1(3,5) by simp_all
  have "split t (dir_index t h) hasher = Some t'"
    using t'(1) a by (simp add: split_def get_home [OF dir] get_nth t1_def Let_def)
  moreover have "dash_live hasher t'" "records t' = records t"
    using split_of_dir_ok [OF dir1 pre t'(2)] split_of_recs [OF dir1 pre t'(2) rec1] split_ofD(2) [OF t'(2) refl refl] len1 t1(2)
    by (simp_all add: dash_live_def)
  moreover have "local_depth (segments t' ! home t' h) = Suc ?d"
    using split_of_home [OF dir1 t'(2) pre(2), of h] split_ofD(6,9) [OF t'(2) refl refl] t1(3,4) by simp
  ultimately show ?thesis by (rule that)
qed

subsection \<open>Making room\<close>

text \<open>Why the loop stops: the routed segment has a free slot, or every record in it has the hash of the new record, or the
  directory is as deep as it may be.\<close>

definition room_or_reason :: "('a \<Rightarrow> u64) \<Rightarrow> u64 \<Rightarrow> 'a dash_index \<Rightarrow> bool" where
  "room_or_reason hasher h t \<longleftrightarrow> (let s = segments t ! home t h in
     length (seg_recs s) < SEGMENT_CAP \<or> (\<forall>x \<in># bag s. hasher x = h) \<or>
     local_depth s = global_depth t \<and> global_depth t = MAX_GLOBAL_DEPTH)"

lemma make_room_correct:
  assumes "dash_live hasher t" and "splits \<le> local_depth (segments t ! home t h)"
  shows "\<exists>t'. make_room hasher h splits t = Some t' \<and> dash_live hasher t' \<and> records t' = records t \<and> room_or_reason hasher h t'"
  using assms
proof (induction "20 - local_depth (segments t ! home t h)" arbitrary: t splits rule: less_induct)
  case less
  let ?s = "segments t ! home t h"
  have dir: "dir_ok t" and rec: "recs_ok hasher t" using less.prems(1) by (simp_all add: dash_live_def)
  have a: "home t h < length (segments t)" and d: "local_depth ?s \<le> global_depth t" "global_depth t \<le> 20"
    using home_less [OF dir] dir_okD(1,4) [OF dir] by simp_all
  have ok: "seg_ok ?s" by (rule recs_okD(1) [OF rec a])
  define collided where "collided \<longleftrightarrow> all_fps_equal ?s (fingerprint h) \<and> list_all (\<lambda>x. hasher x = h) (map snd (seg_recs ?s))"
  have col: "collided \<Longrightarrow> \<forall>x \<in># bag ?s. hasher x = h" by (simp add: collided_def bag_def list_all_iff)
  have step: "make_room hasher h splits t =
    (if length (seg_recs ?s) < SEGMENT_CAP \<or> splits \<ge> MAX_SPLITS then Some t
     else if collided then Some t
     else if local_depth ?s = global_depth t \<and> global_depth t \<ge> MAX_GLOBAL_DEPTH then Some t
     else split t (dir_index t h) hasher \<bind> make_room hasher h (splits + 1))"
    using a ok by (subst make_room.simps) (simp add: get_home [OF dir] get_nth seg_iter_recs collided_def)
  show ?case
  proof (cases "length (seg_recs ?s) < SEGMENT_CAP \<or> collided \<or> local_depth ?s = global_depth t \<and> global_depth t \<ge> MAX_GLOBAL_DEPTH")
    case True
    then have "make_room hasher h splits t = Some t" unfolding step by auto
    moreover have "room_or_reason hasher h t"
      using True col d by (auto simp: room_or_reason_def Let_def MAX_GLOBAL_DEPTH_def)
    ultimately show ?thesis using less.prems(1) by blast
  next
    case False
    then obtain t1 where t1: "split t (dir_index t h) hasher = Some t1" "dash_live hasher t1" "records t1 = records t"
      "local_depth (segments t1 ! home t1 h) = Suc (local_depth ?s)"
      using split_correct [OF less.prems(1), of h] by blast
    have "local_depth ?s < 20" using False d by (auto simp: MAX_GLOBAL_DEPTH_def)
    then have "\<exists>t'. make_room hasher h (splits + 1) t1 = Some t' \<and> dash_live hasher t' \<and> records t' = records t1 \<and> room_or_reason hasher h t'"
      using less.prems(2) t1 by (intro less.hyps) simp_all
    moreover have "make_room hasher h splits t = make_room hasher h (splits + 1) t1"
      unfolding step using False t1(1) less.prems(2) d by (auto simp: MAX_SPLITS_def)
    ultimately show ?thesis using t1(3) by simp
  qed
qed

end
