(* ===== verification/Dash_Table.thy ===== *)
theory Dash_Table
  imports Dash_Index
begin

text \<open>
  What the operations of the index do to its records: a probe finds a record that satisfies the caller's test if there is
  one, and an entry changes exactly the record it stands for. The caller's contract is that records that satisfy the
  test have the hash it probes with.
\<close>

subsection \<open>Where a record is\<close>

lemma in_records:
  "x \<in># records t \<longleftrightarrow> (\<exists>k < length (segments t). \<exists>f. (f, x) \<in> set (seg_recs (segments t ! k)))"
proof -
  have "x \<in># sum_list (map bag ss) \<longleftrightarrow> (\<exists>s \<in> set ss. \<exists>f. (f, x) \<in> set (seg_recs s))" for ss
    by (induction ss) (force simp: bag_def image_iff)+
  then show ?thesis unfolding records_def by (metis in_set_conv_nth)
qed

lemma home_record:
  assumes "dash_live hasher t" and "x \<in># records t"
  shows "(fingerprint (hasher x), x) \<in> set (seg_recs (segments t ! home t (hasher x)))"
proof -
  have rec: "recs_ok hasher t" using assms(1) by (simp add: dash_live_def)
  obtain k f where "k < length (segments t)" "(f, x) \<in> set (seg_recs (segments t ! k))"
    using assms(2) by (auto simp: in_records)
  then show ?thesis using recs_okD(2,3) [OF rec, of k "(f, x)"] by simp
qed

text \<open>A place of the table that holds the record \<open>x\<close>.\<close>

definition holds :: "('a \<Rightarrow> u64) \<Rightarrow> 'a dash_index \<Rightarrow> nat \<times> loc \<Rightarrow> 'a \<Rightarrow> bool" where
  "holds hasher t p x \<longleftrightarrow> fst p = home t (hasher x) \<and>
     rec_at (segments t ! fst p) (snd p) = Some (fingerprint (hasher x), x)"

lemma holds_in_records:
  assumes "dash_live hasher t" and "holds hasher t p x"
  shows "x \<in># records t"
proof -
  have "home t (hasher x) < length (segments t)" using assms(1) by (intro home_less) (simp add: dash_live_def)
  moreover have "(fingerprint (hasher x), x) \<in> set (seg_recs (segments t ! home t (hasher x)))"
    using assms(2) by (auto simp: holds_def dest: rec_at_in)
  ultimately show ?thesis unfolding in_records by blast
qed

lemma locate_home:
  assumes "dash_live hasher t" and contract: "\<And>x. eq x \<Longrightarrow> hasher x = h"
  shows "seg_locate (segments t ! home t h) (fingerprint h) eq = Some None \<and> (\<forall>x \<in># records t. \<not> eq x) \<or>
    (\<exists>l x. seg_locate (segments t ! home t h) (fingerprint h) eq = Some (Some l) \<and> holds hasher t (home t h, l) x \<and> eq x)"
proof -
  have "seg_ok (segments t ! home t h)"
    using assms(1) home_less [of t h] by (auto simp: dash_live_def recs_okD)
  from seg_locate_correct [OF this, of "fingerprint h" eq] show ?thesis
    using home_record [OF assms(1)] contract by (fastforce simp: holds_def)
qed

lemma directory_live: "dash_live hasher t \<Longrightarrow> directory t \<noteq> []"
  by (auto simp: dash_live_def dir_ok_def)

lemma get_segment: "dash_live hasher t \<Longrightarrow> get (segments t) (home t h) = Some (segments t ! home t h)"
  by (simp add: dash_live_def home_less get_nth)

lemma dash_live_dir: "dash_live hasher t \<Longrightarrow> dir_ok t"
  by (simp add: dash_live_def)

lemma route_live: "dash_live hasher t \<Longrightarrow> route t h = Some (Some (home t h))"
  by (simp add: route_def directory_live get_home [OF dash_live_dir])

theorem find_entry_correct:
  assumes "dash_ok hasher t" and contract: "\<And>x. eq x \<Longrightarrow> hasher x = h"
  shows "find_entry t h eq = Some None \<and> (\<forall>x \<in># records t. \<not> eq x) \<or>
    (\<exists>p x. find_entry t h eq = Some (Some p) \<and> dash_live hasher t \<and> holds hasher t p x \<and> eq x)"
proof (cases "t = dash_new")
  case True
  then show ?thesis by (simp add: find_entry_def route_def) (simp add: dash_new_def)
next
  case False
  then have live: "dash_live hasher t" using assms(1) by (simp add: dash_ok_def)
  have "find_entry t h eq = map_option (map_option (Pair (home t h))) (seg_locate (segments t ! home t h) (fingerprint h) eq)"
    by (cases "seg_locate (segments t ! home t h) (fingerprint h) eq")
      (simp_all add: find_entry_def route_live [OF live] get_segment [OF live])
  then show ?thesis using locate_home [OF live contract] live by auto
qed

subsection \<open>Changing one segment\<close>

lemma dash_live_update:
  assumes "dash_live hasher t" and k: "k < length (segments t)"
    and s': "seg_becomes (segments t ! k) s' rs"
    and rs: "\<And>r. r \<in># rs \<Longrightarrow> fst r = fingerprint (hasher (snd r)) \<and> home t (hasher (snd r)) = k"
    and R: "R + bag (segments t ! k) = records t + image_mset snd rs"
  shows "dash_live hasher (t\<lparr>segments := (segments t)[k := s'], dash_len := size R\<rparr>)"
    and "records (t\<lparr>segments := (segments t)[k := s'], dash_len := size R\<rparr>) = R"
proof -
  let ?t = "t\<lparr>segments := (segments t)[k := s'], dash_len := size R\<rparr>"
  have dir: "dir_ok t" and rec: "recs_ok hasher t" using assms(1) by (simp_all add: dash_live_def)
  have s: "seg_ok s'" "mset (seg_recs s') = rs" "local_depth s' = local_depth (segments t ! k)"
    using s' by (simp_all add: seg_becomes_def)
  have bag: "bag s' = image_mset snd rs" by (simp add: bag_def s(2))
  have "records ?t + bag (segments t ! k) = records t + bag s'"
    using sum_list_map_update [OF k, of bag s'] by (simp add: records_def)
  then have "records ?t + bag (segments t ! k) = R + bag (segments t ! k)" using R by (simp add: bag)
  then show R': "records ?t = R" by (rule add_right_imp_eq)
  have depth: "local_depth (segments ?t ! i) = local_depth (segments t ! i)" for i
    using s(3) k by (simp add: nth_list_update)
  have "(\<forall>s \<in> set (segments ?t). local_depth s \<le> global_depth t)"
    using dir_okD(4) [OF dir] depth by (auto simp: in_set_conv_nth simp del: dash_index.simps)
  then have "dir_ok ?t"
    using dir depth by (simp add: dir_ok_def same_prefix_def)
  moreover have "home ?t h = home t h" for h by (simp add: home_def dir_index_def)
  then have "recs_ok hasher ?t"
    using rec k s(1) rs arg_cong [OF s(2), of set_mset] by (auto simp: recs_ok_def nth_list_update)
  ultimately show "dash_live hasher ?t" using R' by (simp add: dash_live_def)
qed

text \<open>The place of an entry, as an update of the segment it is in.\<close>

lemma holds_segment:
  assumes "dash_live hasher t" and "holds hasher t (k, l) x"
  shows "k < length (segments t)" "seg_ok (segments t ! k)" "rec_at (segments t ! k) l = Some (fingerprint (hasher x), x)"
    "home t (hasher x) = k" "(fingerprint (hasher x), x) \<in># mset (seg_recs (segments t ! k))"
    "\<And>r. r \<in> set (seg_recs (segments t ! k)) \<Longrightarrow> fst r = fingerprint (hasher (snd r)) \<and> home t (hasher (snd r)) = k"
proof -
  have k: "k = home t (hasher x)" using assms(2) by (simp add: holds_def)
  show len: "k < length (segments t)" unfolding k by (rule home_less [OF dash_live_dir [OF assms(1)]])
  have rec: "recs_ok hasher t" using assms(1) by (simp add: dash_live_def)
  show "seg_ok (segments t ! k)" "\<And>r. r \<in> set (seg_recs (segments t ! k)) \<Longrightarrow> fst r = fingerprint (hasher (snd r)) \<and> home t (hasher (snd r)) = k"
    using recs_okD [OF rec len] by simp_all
  show at: "rec_at (segments t ! k) l = Some (fingerprint (hasher x), x)" using assms(2) by (auto simp: holds_def)
  show "home t (hasher x) = k" by (simp add: k)
  show "(fingerprint (hasher x), x) \<in># mset (seg_recs (segments t ! k))" using rec_at_in [OF at] by simp
qed

lemma occupied_get_at:
  assumes "dash_live hasher t" and "holds hasher t p x"
  shows "occupied_get t p = Some x"
  using holds_segment [OF assms(1), of "fst p" "snd p" x] assms(2)
  by (cases p) (auto simp: occupied_get_def get_nth intro: seg_get_at)

lemma records_minus_bag:
  assumes "k < length (segments t)" and "(f, x) \<in># mset (seg_recs (segments t ! k))"
  shows "(records t - {#x#}) + bag (segments t ! k) = records t + image_mset snd (mset (seg_recs (segments t ! k)) - {#(f, x)#})"
proof -
  let ?rs = "mset (seg_recs (segments t ! k))"
  have "image_mset snd (?rs - {#(f, x)#}) = bag (segments t ! k) - {#x#}"
    using image_mset_Diff [of "{#(f, x)#}" ?rs snd] assms(2) by (simp add: bag_def)
  moreover have b: "x \<in># bag (segments t ! k)" using assms(2) by (force simp: bag_def)
  moreover have "x \<in># records t" by (rule mset_subset_eqD [OF bag_le_records [OF assms(1)] b])
  ultimately show ?thesis by (auto dest!: multi_member_split)
qed

lemma occupied_get_mut_at:
  assumes "dash_live hasher t" and "holds hasher t p x" and "hasher (f x) = hasher x"
  shows "\<exists>t'. occupied_get_mut t p f = Some t' \<and> dash_live hasher t' \<and> records t' = add_mset (f x) (records t - {#x#})"
proof -
  obtain k l where p: "p = (k, l)" by (cases p)
  note h = holds_segment [OF assms(1) assms(2) [unfolded p]]
  let ?fp = "fingerprint (hasher x)" and ?s = "segments t ! k" and ?R = "add_mset (f x) (records t - {#x#})"
  obtain s' where s': "seg_get_mut ?s l f = Some s'"
    and becomes: "seg_becomes ?s s' (add_mset (?fp, f x) (mset (seg_recs ?s) - {#(?fp, x)#}))"
    using seg_get_mut_at [OF h(2,3)] by blast
  have "x \<in># records t" by (rule holds_in_records [OF assms(1,2)])
  then have size: "size ?R = dash_len t" using assms(1) by (simp add: dash_live_def size_Suc_Diff1)
  have rs: "fst r = fingerprint (hasher (snd r)) \<and> home t (hasher (snd r)) = k"
    if "r \<in># add_mset (?fp, f x) (mset (seg_recs ?s) - {#(?fp, x)#})" for r
  proof (cases "r = (?fp, f x)")
    case False
    then show ?thesis using that h(6) [of r] in_diffD [of r "mset (seg_recs ?s)" "{#(?fp, x)#}"] by simp
  qed (simp add: h(4) assms(3))
  have R: "?R + bag ?s = records t + image_mset snd (add_mset (?fp, f x) (mset (seg_recs ?s) - {#(?fp, x)#}))"
    using records_minus_bag [OF h(1,5)] by simp
  note upd = dash_live_update [OF assms(1) h(1) becomes rs R, unfolded size]
  have "occupied_get_mut t p f = Some (t\<lparr>segments := (segments t)[k := s'], dash_len := dash_len t\<rparr>)"
    using h(1) s' by (simp add: occupied_get_mut_def p get_nth)
  then show ?thesis using upd by blast
qed

lemma occupied_remove_at:
  assumes "dash_live hasher t" and "holds hasher t p x"
  shows "\<exists>t'. occupied_remove t p = Some (x, t') \<and> dash_live hasher t' \<and> records t' = records t - {#x#}"
proof -
  obtain k l where p: "p = (k, l)" by (cases p)
  note h = holds_segment [OF assms(1) assms(2) [unfolded p]]
  let ?fp = "fingerprint (hasher x)" and ?s = "segments t ! k"
  obtain s' where s': "seg_remove_at ?s l = Some (x, s')" and becomes: "seg_becomes ?s s' (mset (seg_recs ?s) - {#(?fp, x)#})"
    using seg_remove_at_rec [OF h(2,3)] by blast
  have "x \<in># records t" by (rule holds_in_records [OF assms])
  then have size: "size (records t - {#x#}) = dash_len t - 1" and pos: "dash_len t \<noteq> 0"
    using assms(1) by (auto simp: dash_live_def size_Diff_singleton)
  have rs: "fst r = fingerprint (hasher (snd r)) \<and> home t (hasher (snd r)) = k" if "r \<in># mset (seg_recs ?s) - {#(?fp, x)#}" for r
    using h(6) [of r] in_diffD [OF that] by simp
  note upd = dash_live_update [OF assms(1) h(1) becomes rs records_minus_bag [OF h(1,5)], unfolded size]
  have "occupied_remove t p = Some (x, t\<lparr>segments := (segments t)[k := s'], dash_len := dash_len t - 1\<rparr>)"
    using h(1) s' pos by (simp add: occupied_remove_def p get_nth checked_sub_def)
  then show ?thesis using upd by blast
qed

lemma vacant_insert_at:
  assumes "dash_live hasher t" and "hasher x = h"
  shows "\<exists>p t'. vacant_insert t (home t h, fingerprint h) x = Some (p, t') \<and> dash_live hasher t' \<and>
    records t' = add_mset x (records t)"
proof -
  let ?k = "home t h" and ?s = "segments t ! home t h"
  have k: "?k < length (segments t)" by (rule home_less [OF dash_live_dir [OF assms(1)]])
  have rec: "recs_ok hasher t" using assms(1) by (simp add: dash_live_def)
  obtain l s' where push: "seg_push ?s (fingerprint h) x = (l, s')"
    and becomes: "seg_becomes ?s s' (add_mset (fingerprint h, x) (mset (seg_recs ?s)))"
    using seg_push_rec [OF recs_okD(1) [OF rec k]] by blast
  have rs: "fst r = fingerprint (hasher (snd r)) \<and> home t (hasher (snd r)) = ?k"
    if "r \<in># add_mset (fingerprint h, x) (mset (seg_recs ?s))" for r
    using that recs_okD(2,3) [OF rec k, of r] assms(2) by auto
  have R: "add_mset x (records t) + bag ?s = records t + image_mset snd (add_mset (fingerprint h, x) (mset (seg_recs ?s)))"
    by (simp add: bag_def)
  have size: "size (add_mset x (records t)) = dash_len t + 1" using assms(1) by (simp add: dash_live_def)
  note upd = dash_live_update [OF assms(1) k becomes rs R, unfolded size]
  have "vacant_insert t (?k, fingerprint h) x = Some ((?k, l), t\<lparr>segments := (segments t)[?k := s'], dash_len := dash_len t + 1\<rparr>)"
    using k push by (simp add: vacant_insert_def get_nth)
  then show ?thesis using upd by blast
qed

subsection \<open>The operations of the table\<close>

lemma ensure_init_live:
  assumes "dash_ok hasher t"
  shows "dash_live hasher (ensure_init t)" and "records (ensure_init t) = records t"
proof -
  have "dash_live hasher (ensure_init t) \<and> records (ensure_init t) = records t"
  proof (cases "t = dash_new")
    case True
    then have t: "ensure_init t = \<lparr>global_depth = 0, directory = [0], segments = [segment_new 0], dash_len = 0\<rparr>"
      by (simp add: ensure_init_def dash_new_def)
    have "records t = {#}" using True by simp
    then show ?thesis
      unfolding t by (simp add: dash_live_def dir_ok_def recs_ok_def same_prefix_def lessThan_Suc) (simp add: records_def bag_def)
  next
    case False
    then have "dash_live hasher t" using assms by (simp add: dash_ok_def)
    then show ?thesis by (simp add: ensure_init_def directory_live)
  qed
  then show "dash_live hasher (ensure_init t)" "records (ensure_init t) = records t" by simp_all
qed

theorem dash_entry_correct:
  assumes "dash_ok hasher t" and contract: "\<And>x. eq x \<Longrightarrow> hasher x = h"
  shows "(\<exists>k l x t'. dash_entry t h eq hasher = Some (Occupied k l, t') \<and> dash_live hasher t' \<and> records t' = records t \<and>
      holds hasher t' (k, l) x \<and> eq x) \<or>
    (\<exists>t'. dash_entry t h eq hasher = Some (Vacant (home t' h) (fingerprint h), t') \<and> dash_live hasher t' \<and>
      records t' = records t \<and> room_or_reason hasher h t' \<and> (\<forall>x \<in># records t. \<not> eq x))"
proof -
  let ?t = "ensure_init t"
  note live = ensure_init_live(1) [OF assms(1)] and same = ensure_init_live(2) [OF assms(1)]
  have pre: "dash_entry t h eq hasher = seg_locate (segments ?t ! home ?t h) (fingerprint h) eq \<bind> (\<lambda>l.
      case l of
        Some loc \<Rightarrow> Some (Occupied (home ?t h) loc, ?t)
      | None \<Rightarrow> make_room hasher h 0 ?t \<bind> (\<lambda>t. get (directory t) (dir_index t h) \<bind> (\<lambda>si. Some (Vacant si (fingerprint h), t))))"
    by (simp add: dash_entry_def Let_def get_home [OF dash_live_dir [OF live]] get_segment [OF live])
  consider (miss) "seg_locate (segments ?t ! home ?t h) (fingerprint h) eq = Some None" "\<forall>x \<in># records ?t. \<not> eq x"
    | (hit) l x where "seg_locate (segments ?t ! home ?t h) (fingerprint h) eq = Some (Some l)"
        "holds hasher ?t (home ?t h, l) x" "eq x"
    using locate_home [OF live, of eq h] contract by blast
  then show ?thesis
  proof cases
    case miss
    obtain t' where t': "make_room hasher h 0 ?t = Some t'" "dash_live hasher t'" "records t' = records ?t" "room_or_reason hasher h t'"
      using make_room_correct [OF live, of 0 h] by auto
    then have "dash_entry t h eq hasher = Some (Vacant (home t' h) (fingerprint h), t')"
      using miss(1) by (simp add: pre get_home [OF dash_live_dir [OF t'(2)]])
    then show ?thesis using t' miss(2) same by auto
  next
    case (hit l x)
    then have "dash_entry t h eq hasher = Some (Occupied (home ?t h) l, ?t)" by (simp add: pre)
    then show ?thesis using hit(2,3) live same by blast
  qed
qed

lemma dash_find_entry:
  "dash_find t h eq = do { e \<leftarrow> find_entry t h eq; case e of None \<Rightarrow> Some None | Some p \<Rightarrow> map_option Some (occupied_get t p) }"
  by (auto simp: dash_find_def find_entry_def occupied_get_def intro!: bind_option_cong split: option.splits Option.bind_splits)

lemma dash_find_mut_entry:
  "dash_find_mut t h eq f = do { e \<leftarrow> find_entry t h eq; case e of None \<Rightarrow> Some t | Some p \<Rightarrow> occupied_get_mut t p f }"
  by (auto simp: dash_find_mut_def find_entry_def occupied_get_mut_def intro!: bind_option_cong split: option.splits Option.bind_splits)

lemma dash_iter_records:
  assumes "dash_ok hasher t"
  shows "\<exists>xs. dash_iter t = Some xs \<and> mset xs = records t"
proof -
  have ok: "\<forall>s \<in> set (segments t). seg_ok s"
    using assms by (auto simp: dash_ok_def dash_live_def dash_new_def recs_ok_def in_set_conv_nth)
  have "those (map seg_iter ss) = Some (map (map snd \<circ> seg_recs) ss)" if "\<forall>s \<in> set ss. seg_ok s" for ss :: "'a segment list"
    using that by (induction ss) (auto simp: seg_iter_recs)
  note this [OF ok]
  moreover have "mset (concat (map (map snd \<circ> seg_recs) ss)) = sum_list (map bag ss)" for ss
    by (induction ss) (simp_all add: bag_def)
  ultimately show ?thesis by (simp add: dash_iter_def records_def)
qed

lemma grow_directory_live:
  assumes "dash_live hasher t" and "target \<le> 20"
  shows "dash_live hasher (grow_directory target t) \<and> records (grow_directory target t) = records t"
  using assms
proof (induction target t rule: grow_directory.induct)
  case (1 target t)
  show ?case
  proof (cases "global_depth t < target")
    case True
    then have "global_depth t < 20" using 1(3) by simp
    from dash_live_double [OF 1(2) this] show ?thesis
      using 1(1) [OF True] 1(3) True by (simp add: grow_directory.simps [of target t])
  next
    case False
    then show ?thesis using 1(2) by (simp add: grow_directory.simps [of target t])
  qed
qed

lemma presized_live:
  fixes hasher :: "'a \<Rightarrow> u64"
  assumes "target \<le> 20"
  defines "t \<equiv> \<lparr>global_depth = target, directory = map as_u32 [0..<2 ^ target],
    segments = map (\<lambda>_. segment_new target) [0..<2 ^ target], dash_len = 0\<rparr>"
  shows "dash_live hasher t \<and> records t = {#}"
proof -
  have "(2::nat) ^ target \<le> 2 ^ 20" using assms(1) by (intro power_increasing) auto
  then have dir: "map as_u32 [0..<2 ^ target] = [0..<2 ^ target]" by (intro map_idI) (auto simp: as_u32_def)
  have "sum_list (map bag (map (\<lambda>_. segment_new target) xs)) = {#}" for xs :: "nat list"
    by (induction xs) (simp_all add: bag_def)
  then have "records t = {#}" by (simp add: records_def t_def)
  moreover have "dir_ok t" unfolding t_def dir
    using assms(1) by (auto simp: dir_ok_def MAX_GLOBAL_DEPTH_def same_prefix_def)
  moreover have "recs_ok hasher t" by (simp add: recs_ok_def t_def)
  ultimately show ?thesis by (simp add: dash_live_def) (simp add: t_def)
qed

lemma reserve_correct:
  assumes "dash_ok hasher t" and "dash_len t + n \<le> u64_max"
  shows "\<exists>t'. reserve t n = Some t' \<and> dash_ok hasher t' \<and> records t' = records t"
proof -
  have target: "target_depth m \<le> 20" for m by (simp add: target_depth_def MAX_GLOBAL_DEPTH_def)
  show ?thesis
  proof (cases "dash_len t + n = 0")
    case True
    then show ?thesis using assms(1) by (simp add: reserve_def Let_def)
  next
    case False
    show ?thesis
    proof (cases "t = dash_new")
      case True
      have "reserve t n = Some \<lparr>global_depth = target_depth n, directory = map as_u32 [0..<2 ^ target_depth n],
          segments = map (\<lambda>_. segment_new (target_depth n)) [0..<2 ^ target_depth n], dash_len = 0\<rparr>"
        using False assms(2) by (simp add: reserve_def Let_def True) (simp add: dash_new_def)
      then show ?thesis using presized_live [OF target, of hasher n] True by auto
    next
      case live: False
      then have l: "dash_live hasher t" using assms(1) by (simp add: dash_ok_def)
      then have "reserve t n = Some (grow_directory (target_depth (dash_len t + n)) t)"
        using False assms(2) directory_live [OF l] by (auto simp: reserve_def Let_def)
      then show ?thesis using grow_directory_live [OF l target] by blast
    qed
  qed
qed

end
