(* ===== verification/Store_Index.thy ===== *)
theory Store_Index
  imports Dash_Table
begin

text \<open>
  The keyspace index as the store uses it (\<open>ironcache-store/src/lib.rs\<close>): records carry their key, the caller hashes
  the key and compares embedded keys. The hash is a parameter, because the store draws its seed per run. The index is
  shown to be a finite map from keys to entries: every answer of every sequence of operations is the map's answer.
\<close>

subsection \<open>Entries\<close>

text \<open>An entry is its key, its promotion frequency and the rest, which the index never reads. The byte layout of an entry
  is not part of the model. \<open>put_object\<close> is given the key beside the entry; its callers build the entry with that key, so
  \<open>index_put\<close> reads it from the entry. The accounting, watch and observer hooks around the index are left out.\<close>

record 'v entry =
  entry_key :: bytes
  freq :: nat
  body :: 'v

definition MAX_FREQ :: nat where
  "MAX_FREQ = 3"

definition set_freq :: "nat \<Rightarrow> 'v entry \<Rightarrow> 'v entry" where
  "set_freq f e = e\<lparr>freq := min f MAX_FREQ\<rparr>"

definition bump_freq :: "'v entry \<Rightarrow> 'v entry" where
  "bump_freq e = set_freq (min (freq e + 1) MAX_FREQ) e"

definition dec_freq :: "'v entry \<Rightarrow> 'v entry" where
  "dec_freq e = set_freq (freq e - 1) e"

lemma entry_key_freq [simp]:
  "entry_key (set_freq f e) = entry_key e" "entry_key (bump_freq e) = entry_key e" "entry_key (dec_freq e) = entry_key e"
  by (simp_all add: set_freq_def bump_freq_def dec_freq_def)

subsection \<open>The store's uses of the index\<close>

definition index_get :: "(bytes \<Rightarrow> u64) \<Rightarrow> bytes \<Rightarrow> 'v entry dash_index \<Rightarrow> 'v entry option option" where
  "index_get hash key t = dash_find t (hash key) (\<lambda>e. entry_key e = key)"

definition index_put :: "(bytes \<Rightarrow> u64) \<Rightarrow> 'v entry \<Rightarrow> 'v entry dash_index \<Rightarrow> ('v entry option \<times> 'v entry dash_index) option" where
  "index_put hash obj t = do {
     let key = entry_key obj;
     (e, t) \<leftarrow> dash_entry t (hash key) (\<lambda>e. entry_key e = key) (\<lambda>e. hash (entry_key e));
     case e of
       Occupied si l \<Rightarrow> do {
         old \<leftarrow> occupied_get t (si, l);
         t \<leftarrow> occupied_get_mut t (si, l) (\<lambda>_. set_freq (freq old) obj);
         Some (Some old, t)
       }
     | Vacant si fp \<Rightarrow> do {
         (_, t) \<leftarrow> vacant_insert t (si, fp) obj;
         Some (None, t)
       }
   }"

definition index_remove :: "(bytes \<Rightarrow> u64) \<Rightarrow> bytes \<Rightarrow> 'v entry dash_index \<Rightarrow> ('v entry option \<times> 'v entry dash_index) option" where
  "index_remove hash key t = do {
     e \<leftarrow> find_entry t (hash key) (\<lambda>e. entry_key e = key);
     case e of
       Some p \<Rightarrow> do { (obj, t) \<leftarrow> occupied_remove t p; Some (Some obj, t) }
     | None \<Rightarrow> Some (None, t)
   }"

definition index_touch :: "(bytes \<Rightarrow> u64) \<Rightarrow> ('v entry \<Rightarrow> 'v entry) \<Rightarrow> bytes \<Rightarrow> 'v entry dash_index \<Rightarrow> 'v entry dash_index option" where
  "index_touch hash f key t = dash_find_mut t (hash key) (\<lambda>e. entry_key e = key) f"

datatype 'v index_op = Get bytes | Put "'v entry" | Remove bytes | Bump bytes | Dec bytes | Reserve nat

fun index_step :: "(bytes \<Rightarrow> u64) \<Rightarrow> 'v index_op \<Rightarrow> 'v entry dash_index \<Rightarrow> ('v entry option \<times> 'v entry dash_index) option" where
  "index_step hash (Get key) t = map_option (\<lambda>r. (r, t)) (index_get hash key t)"
| "index_step hash (Put obj) t = index_put hash obj t"
| "index_step hash (Remove key) t = index_remove hash key t"
| "index_step hash (Bump key) t = map_option (Pair None) (index_touch hash bump_freq key t)"
| "index_step hash (Dec key) t = map_option (Pair None) (index_touch hash dec_freq key t)"
| "index_step hash (Reserve n) t = map_option (Pair None) (reserve t n)"

subsection \<open>The map it stands for\<close>

fun map_step :: "'v index_op \<Rightarrow> (bytes \<rightharpoonup> 'v entry) \<Rightarrow> 'v entry option \<times> (bytes \<rightharpoonup> 'v entry)" where
  "map_step (Get key) m = (m key, m)"
| "map_step (Put obj) m =
    (m (entry_key obj),
     m(entry_key obj \<mapsto> (case m (entry_key obj) of None \<Rightarrow> obj | Some old \<Rightarrow> set_freq (freq old) obj)))"
| "map_step (Remove key) m = (m key, m(key := None))"
| "map_step (Bump key) m = (None, m(key := map_option bump_freq (m key)))"
| "map_step (Dec key) m = (None, m(key := map_option dec_freq (m key)))"
| "map_step (Reserve n) m = (None, m)"

text \<open>Sequences of operations, of an implementation that may fail and of a specification.\<close>

primrec run_steps :: "('o \<Rightarrow> 't \<Rightarrow> ('r \<times> 't) option) \<Rightarrow> 'o list \<Rightarrow> 't \<Rightarrow> ('r list \<times> 't) option" where
  "run_steps step [] t = Some ([], t)"
| "run_steps step (op # ops) t = do {
     (r, t) \<leftarrow> step op t;
     (rs, t) \<leftarrow> run_steps step ops t;
     Some (r # rs, t)
   }"

primrec run_spec :: "('o \<Rightarrow> 'm \<Rightarrow> 'r \<times> 'm) \<Rightarrow> 'o list \<Rightarrow> 'm \<Rightarrow> 'r list \<times> 'm" where
  "run_spec spec [] m = ([], m)"
| "run_spec spec (op # ops) m = (let (r, m) = spec op m; (rs, m) = run_spec spec ops m in (r # rs, m))"

text \<open>The interface of a data structure that implements a specification: a relation between states and specification states
  that every operation keeps, with the specification's answer, whenever the operation may be called.\<close>

locale implementation =
  fixes step :: "'o \<Rightarrow> 't \<Rightarrow> ('r \<times> 't) option"
    and spec :: "'o \<Rightarrow> 'm \<Rightarrow> 'r \<times> 'm"
    and rel :: "'t \<Rightarrow> 'm \<Rightarrow> bool"
    and may :: "'o \<Rightarrow> 'm \<Rightarrow> bool"
  assumes step_spec: "rel t m \<Longrightarrow> may op m \<Longrightarrow> \<exists>t'. step op t = Some (fst (spec op m), t') \<and> rel t' (snd (spec op m))"
begin

lemma run_implements:
  assumes "rel t m" and "\<And>pre op post. ops = pre @ op # post \<Longrightarrow> may op (snd (run_spec spec pre m))"
  shows "\<exists>t'. run_steps step ops t = Some (fst (run_spec spec ops m), t') \<and> rel t' (snd (run_spec spec ops m))"
  using assms
proof (induction ops arbitrary: t m)
  case (Cons op ops)
  have "may op m" using Cons.prems(2) [of "[]" op ops] by simp
  then obtain t1 where t1: "step op t = Some (fst (spec op m), t1)" "rel t1 (snd (spec op m))"
    using step_spec [OF Cons.prems(1)] by blast
  have rest: "may o' (snd (run_spec spec pre (snd (spec op m))))" if "ops = pre @ o' # post" for pre o' post
    using Cons.prems(2) [of "op # pre" o' post] that by (simp add: case_prod_beta Let_def)
  have "\<exists>t'. run_steps step ops t1 = Some (fst (run_spec spec ops (snd (spec op m))), t') \<and>
      rel t' (snd (run_spec spec ops (snd (spec op m))))"
    by (rule Cons.IH [OF t1(2)]) (rule rest)
  with t1(1) show ?case by (auto simp: case_prod_beta Let_def)
qed simp

end

subsection \<open>The index implements the map\<close>

definition keyed :: "(bytes \<rightharpoonup> 'v entry) \<Rightarrow> bool" where
  "keyed m \<longleftrightarrow> finite (dom m) \<and> (\<forall>k e. m k = Some e \<longrightarrow> entry_key e = k)"

definition represents :: "(bytes \<Rightarrow> u64) \<Rightarrow> 'v entry dash_index \<Rightarrow> (bytes \<rightharpoonup> 'v entry) \<Rightarrow> bool" where
  "represents hash t m \<longleftrightarrow> dash_ok (\<lambda>e. hash (entry_key e)) t \<and> keyed m \<and> records t = mset_set (ran m)"

lemma keyedD: "keyed m \<Longrightarrow> m k = Some e \<Longrightarrow> entry_key e = k"
  by (simp add: keyed_def)

lemma keyed_upd: "keyed m \<Longrightarrow> entry_key e = k \<Longrightarrow> keyed (m(k \<mapsto> e))" and keyed_del: "keyed m \<Longrightarrow> keyed (m(k := None))"
  by (auto simp: keyed_def)

lemma keyed_finite: "keyed m \<Longrightarrow> finite (ran m)"
  by (simp add: keyed_def finite_ran)

lemma keyed_ran: "keyed m \<Longrightarrow> e \<in> ran m \<longleftrightarrow> m (entry_key e) = Some e"
  by (auto simp: ran_def keyed_def)

lemma keyed_ran_upd:
  assumes "keyed m" and "entry_key e = k"
  shows "ran (m(k \<mapsto> e)) = insert e {x \<in> ran m. entry_key x \<noteq> k}"
  unfolding set_eq_iff keyed_ran [OF keyed_upd [OF assms]] insert_iff mem_Collect_eq keyed_ran [OF assms(1)] using assms(2) by auto

lemma keyed_ran_del:
  assumes "keyed m"
  shows "ran (m(k := None)) = {x \<in> ran m. entry_key x \<noteq> k}"
  by (auto simp: keyed_ran [OF keyed_del [OF assms]] keyed_ran [OF assms] split: if_splits)

lemma keyed_ran_other:
  assumes "keyed m"
  shows "mset_set {x \<in> ran m. entry_key x \<noteq> k} = (case m k of None \<Rightarrow> mset_set (ran m) | Some old \<Rightarrow> mset_set (ran m) - {#old#})"
proof (cases "m k")
  case None
  then have "{x \<in> ran m. entry_key x \<noteq> k} = ran m" by (auto simp: keyed_ran [OF assms])
  then show ?thesis using None by simp
next
  case (Some old)
  then have old: "entry_key old = k" by (rule keyedD [OF assms])
  then have "{x \<in> ran m. entry_key x \<noteq> k} = ran m - {old}" and "old \<in> ran m"
    using Some by (auto simp: keyed_ran [OF assms])
  then show ?thesis using Some keyed_finite [OF assms] by (simp add: mset_set_Diff)
qed

lemma card_keyed:
  assumes "keyed m"
  shows "card (ran m) = card (dom m)"
proof -
  have "ran m = (\<lambda>k. the (m k)) ` dom m" by (force simp: ran_def)
  moreover have "inj_on (\<lambda>k. the (m k)) (dom m)"
    by (rule inj_onI) (metis assms domIff keyedD option.collapse)
  ultimately show ?thesis by (simp add: card_image)
qed

lemma represents_records:
  assumes "represents hash t m"
  shows "x \<in># records t \<longleftrightarrow> m (entry_key x) = Some x" and "dash_len t = card (dom m)"
proof -
  have r: "records t = mset_set (ran m)" and k: "keyed m" using assms by (simp_all add: represents_def)
  show "x \<in># records t \<longleftrightarrow> m (entry_key x) = Some x" by (simp add: r keyed_finite [OF k] keyed_ran [OF k])
  have "dash_len t = size (records t)"
    using assms by (cases "t = dash_new") (auto simp: represents_def dash_ok_def dash_live_def dash_new_def records_def)
  then show "dash_len t = card (dom m)" by (simp add: r card_keyed [OF k])
qed

text \<open>A probe with a key answers what the map holds for it.\<close>

lemma find_entry_represents:
  assumes "represents hash t m"
  shows "find_entry t (hash key) (\<lambda>e. entry_key e = key) = Some None \<and> m key = None \<or>
    (\<exists>p x. find_entry t (hash key) (\<lambda>e. entry_key e = key) = Some (Some p) \<and> m key = Some x \<and>
       dash_live (\<lambda>e. hash (entry_key e)) t \<and> holds (\<lambda>e. hash (entry_key e)) t p x)"
proof -
  have ok: "dash_ok (\<lambda>e. hash (entry_key e)) t" and k: "keyed m" using assms by (simp_all add: represents_def)
  consider (miss) "find_entry t (hash key) (\<lambda>e. entry_key e = key) = Some None" "\<forall>x \<in># records t. entry_key x \<noteq> key"
    | (hit) p x where "find_entry t (hash key) (\<lambda>e. entry_key e = key) = Some (Some p)" "dash_live (\<lambda>e. hash (entry_key e)) t"
      "holds (\<lambda>e. hash (entry_key e)) t p x" "entry_key x = key"
    using find_entry_correct [OF ok, of "\<lambda>e. entry_key e = key" "hash key"] by auto
  then show ?thesis
  proof cases
    case miss
    have "m key = None"
    proof (cases "m key")
      case (Some e)
      then have "e \<in># records t" "entry_key e = key"
        using keyedD [OF k Some] by (auto simp: represents_records(1) [OF assms])
      with miss(2) show ?thesis by blast
    qed
    with miss show ?thesis by blast
  next
    case (hit p x)
    then have "m key = Some x" using holds_in_records [OF hit(2,3)] represents_records(1) [OF assms] by simp
    with hit show ?thesis by blast
  qed
qed

lemma index_get_represents:
  assumes "represents hash t m"
  shows "index_get hash key t = Some (m key)"
  using find_entry_represents [OF assms, of key]
  by (auto simp: index_get_def dash_find_entry occupied_get_at)

text \<open>An update of the entry of one key, on both sides.\<close>

lemma represents_upd:
  assumes "represents hash t m" and "dash_ok (\<lambda>e. hash (entry_key e)) t'" and "entry_key e = k"
    and "records t' = add_mset e (case m k of None \<Rightarrow> records t | Some old \<Rightarrow> records t - {#old#})"
  shows "represents hash t' (m(k \<mapsto> e))"
proof -
  have k: "keyed m" and r: "records t = mset_set (ran m)" using assms(1) by (simp_all add: represents_def)
  have "mset_set (ran (m(k \<mapsto> e))) = add_mset e (mset_set {x \<in> ran m. entry_key x \<noteq> k})"
    unfolding keyed_ran_upd [OF k assms(3)] using assms(3) keyed_finite [OF k] by (subst mset_set.insert) auto
  then show ?thesis
    using assms(2,4) keyed_upd [OF k assms(3)] by (cases "m k") (simp_all add: represents_def keyed_ran_other [OF k] r)
qed

lemma represents_del:
  assumes "represents hash t m" and "dash_ok (\<lambda>e. hash (entry_key e)) t'" and "m k = Some old" and "records t' = records t - {#old#}"
  shows "represents hash t' (m(k := None))"
  using assms keyed_ran_other [of m k] by (simp add: represents_def keyed_del keyed_ran_del)

lemma index_put_represents:
  assumes "represents hash t m"
  shows "\<exists>t'. index_put hash obj t = Some (fst (map_step (Put obj) m), t') \<and> represents hash t' (snd (map_step (Put obj) m))"
proof -
  let ?h = "\<lambda>e. hash (entry_key e)" and ?key = "entry_key obj"
  have ok: "dash_ok ?h t" and k: "keyed m" using assms by (simp_all add: represents_def)
  consider (hit) si l x t' where "dash_entry t (hash ?key) (\<lambda>e. entry_key e = ?key) ?h = Some (Occupied si l, t')"
      "dash_live ?h t'" "records t' = records t" "holds ?h t' (si, l) x" "entry_key x = ?key"
    | (miss) t' where "dash_entry t (hash ?key) (\<lambda>e. entry_key e = ?key) ?h = Some (Vacant (home t' (hash ?key)) (fingerprint (hash ?key)), t')"
      "dash_live ?h t'" "records t' = records t" "\<forall>x \<in># records t. entry_key x \<noteq> ?key"
    using dash_entry_correct [OF ok, of "\<lambda>e. entry_key e = ?key" "hash ?key"] by auto
  then show ?thesis
  proof cases
    case hit
    have x: "m ?key = Some x"
      using holds_in_records [OF hit(2,4)] represents_records(1) [OF assms, of x] hit(3,5) by simp
    obtain t'' where t'': "occupied_get_mut t' (si, l) (\<lambda>_. set_freq (freq x) obj) = Some t''" "dash_live ?h t''"
      "records t'' = add_mset (set_freq (freq x) obj) (records t' - {#x#})"
      using occupied_get_mut_at [OF hit(2,4), of "\<lambda>_. set_freq (freq x) obj"] hit(5) by auto
    have "index_put hash obj t = Some (Some x, t'')"
      using hit(1) t''(1) occupied_get_at [OF hit(2,4)] by (simp add: index_put_def Let_def)
    moreover have "represents hash t'' (m(?key \<mapsto> set_freq (freq x) obj))"
      using represents_upd [OF assms dash_ok_live [OF t''(2)], of "set_freq (freq x) obj" ?key] t''(3) hit(3) x by simp
    ultimately show ?thesis by (simp add: x)
  next
    case (miss t')
    have none: "m ?key = None"
      using miss(4) represents_records(1) [OF assms] keyedD [OF k] by (metis option.exhaust)
    obtain p t'' where t'': "vacant_insert t' (home t' (hash ?key), fingerprint (hash ?key)) obj = Some (p, t'')" "dash_live ?h t''"
      "records t'' = add_mset obj (records t')"
      using vacant_insert_at [OF miss(2), of obj "hash ?key"] by auto
    have "index_put hash obj t = Some (None, t'')"
      using miss(1) t''(1) by (simp add: index_put_def Let_def)
    moreover have "represents hash t'' (m(?key \<mapsto> obj))"
      using represents_upd [OF assms dash_ok_live [OF t''(2)], of obj ?key] t''(3) miss(3) none by simp
    ultimately show ?thesis by (simp add: none)
  qed
qed

lemma index_remove_represents:
  assumes "represents hash t m"
  shows "\<exists>t'. index_remove hash key t = Some (m key, t') \<and> represents hash t' (m(key := None))"
  using find_entry_represents [OF assms, of key]
proof (elim disjE conjE exE)
  assume miss: "find_entry t (hash key) (\<lambda>e. entry_key e = key) = Some None" "m key = None"
  then have "m(key := None) = m" by auto
  then show ?thesis using miss assms by (simp add: index_remove_def)
next
  fix p x
  assume hit: "find_entry t (hash key) (\<lambda>e. entry_key e = key) = Some (Some p)" "m key = Some x"
    "dash_live (\<lambda>e. hash (entry_key e)) t" "holds (\<lambda>e. hash (entry_key e)) t p x"
  obtain t' where t': "occupied_remove t p = Some (x, t')" "dash_live (\<lambda>e. hash (entry_key e)) t'" "records t' = records t - {#x#}"
    using occupied_remove_at [OF hit(3,4)] by blast
  then show ?thesis
    using hit(1,2) represents_del [OF assms dash_ok_live [OF t'(2)] hit(2) t'(3)] by (simp add: index_remove_def)
qed

lemma index_touch_represents:
  assumes "represents hash t m" and "\<And>e. entry_key (f e) = entry_key e"
  shows "\<exists>t'. index_touch hash f key t = Some t' \<and> represents hash t' (m(key := map_option f (m key)))"
  using find_entry_represents [OF assms(1), of key]
proof (elim disjE conjE exE)
  assume miss: "find_entry t (hash key) (\<lambda>e. entry_key e = key) = Some None" "m key = None"
  then have "m(key := map_option f (m key)) = m" by auto
  then show ?thesis using miss assms by (simp add: index_touch_def dash_find_mut_entry)
next
  fix p x
  assume hit: "find_entry t (hash key) (\<lambda>e. entry_key e = key) = Some (Some p)" "m key = Some x"
    "dash_live (\<lambda>e. hash (entry_key e)) t" "holds (\<lambda>e. hash (entry_key e)) t p x"
  obtain t' where t': "occupied_get_mut t p f = Some t'" "dash_live (\<lambda>e. hash (entry_key e)) t'"
    "records t' = add_mset (f x) (records t - {#x#})"
    using occupied_get_mut_at [OF hit(3,4), of f] assms(2) by auto
  have "entry_key (f x) = key" using assms hit(2) by (auto simp: represents_def dest: keyedD)
  then show ?thesis
    using hit(1,2) t' represents_upd [OF assms(1) dash_ok_live [OF t'(2)], of "f x" key]
    by (simp add: index_touch_def dash_find_mut_entry)
qed

text \<open>A reservation may be made while the number of records it asks for is a \<open>usize\<close>.\<close>

definition may_step :: "'v index_op \<Rightarrow> (bytes \<rightharpoonup> 'v entry) \<Rightarrow> bool" where
  "may_step op m = (case op of Reserve n \<Rightarrow> card (dom m) + n \<le> u64_max | _ \<Rightarrow> True)"

lemma index_step_represents:
  assumes "represents hash t m" and "may_step op m"
  shows "\<exists>t'. index_step hash op t = Some (fst (map_step op m), t') \<and> represents hash t' (snd (map_step op m))"
proof (cases op)
  case (Get key)
  then show ?thesis using assms(1) by (simp add: index_get_represents)
next
  case (Put obj)
  then show ?thesis using index_put_represents [OF assms(1), of obj] by simp
next
  case (Remove key)
  then show ?thesis using index_remove_represents [OF assms(1), of key] by simp
next
  case (Bump key)
  then show ?thesis using index_touch_represents [OF assms(1), of bump_freq key] by auto
next
  case (Dec key)
  then show ?thesis using index_touch_represents [OF assms(1), of dec_freq key] by auto
next
  case (Reserve n)
  then have "dash_len t + n \<le> u64_max" using assms by (simp add: may_step_def represents_records(2))
  then show ?thesis
    using Reserve assms(1) reserve_correct [of "\<lambda>e. hash (entry_key e)" t n] by (auto simp: represents_def)
qed

interpretation index: implementation "index_step hash" map_step "represents hash" may_step for hash :: "bytes \<Rightarrow> u64"
  by unfold_locales (rule index_step_represents)

lemma represents_new: "represents hash dash_new Map.empty"
  by (simp add: represents_def keyed_def)

lemma map_step_dom: "finite (dom m) \<Longrightarrow> finite (dom (snd (map_step op m))) \<and> card (dom (snd (map_step op m))) \<le> card (dom m) + 1"
  by (cases op) (auto simp: card_insert_if le_SucI card_Diff1_le intro: le_trans [OF card_Diff1_le] split: option.splits)

lemma run_spec_dom:
  "finite (dom m) \<Longrightarrow> card (dom (snd (run_spec map_step ops m))) \<le> card (dom m) + length ops"
proof (induction ops arbitrary: m)
  case (Cons op ops)
  have "card (dom (snd (run_spec map_step ops (snd (map_step op m))))) \<le> card (dom (snd (map_step op m))) + length ops"
    using Cons map_step_dom [of m op] by blast
  then show ?case using map_step_dom [OF Cons.prems, of op] by (simp add: case_prod_beta Let_def)
qed simp

lemma run_represents:
  assumes "\<forall>n. Reserve n \<in> set ops \<longrightarrow> n + length ops \<le> u64_max"
  shows "\<exists>t. run_steps (index_step hash) ops dash_new = Some (fst (run_spec map_step ops Map.empty), t) \<and>
    represents hash t (snd (run_spec map_step ops Map.empty))"
proof (rule index.run_implements [OF represents_new])
  fix pre op post assume ops: "ops = pre @ op # post"
  have "card (dom (snd (run_spec map_step pre Map.empty))) \<le> length pre" using run_spec_dom [of Map.empty pre] by simp
  then show "may_step op (snd (run_spec map_step pre Map.empty))"
    using assms ops by (cases op) (force simp: may_step_def)+
qed

lemma mset_eq_mset_setD: "finite A \<Longrightarrow> mset xs = mset_set A \<Longrightarrow> distinct xs \<and> set xs = A"
  by (metis count_mset_set(1,3) distinct_count_atmost_1 finite_set_mset_mset_set set_mset_mset)

subsection \<open>What the index promises\<close>

text \<open>
  C22: the index is a finite map. From the empty index, whatever the hash function, every sequence of lookups, inserts,
  removals, frequency updates and reservations returns, without a panic and without reading a slot that is not
  initialised, and every answer is the one a map from keys to entries gives. Afterwards the index counts the keys of
  that map and its iterator visits each entry of the map exactly once.
\<close>

theorem index_refines_map:
  assumes "\<forall>n. Reserve n \<in> set ops \<longrightarrow> n + length ops \<le> u64_max"
  shows "\<exists>t. run_steps (index_step hash) ops dash_new = Some (fst (run_spec map_step ops Map.empty), t) \<and>
    dash_len t = card (dom (snd (run_spec map_step ops Map.empty))) \<and>
    (\<exists>xs. dash_iter t = Some xs \<and> distinct xs \<and> set xs = ran (snd (run_spec map_step ops Map.empty)))"
proof -
  let ?m = "snd (run_spec map_step ops Map.empty)"
  obtain t where t: "run_steps (index_step hash) ops dash_new = Some (fst (run_spec map_step ops Map.empty), t)" "represents hash t ?m"
    using run_represents [OF assms] by blast
  then have k: "keyed ?m" and ok: "dash_ok (\<lambda>e. hash (entry_key e)) t" and r: "records t = mset_set (ran ?m)"
    by (simp_all add: represents_def)
  obtain xs where "dash_iter t = Some xs" "mset xs = records t" using dash_iter_records [OF ok] by blast
  then show ?thesis using t represents_records(2) [OF t(2)] mset_eq_mset_setD [OF keyed_finite [OF k]] r by auto
qed

definition demo_entry :: "nat \<Rightarrow> nat \<Rightarrow> nat entry" where
  "demo_entry k v = \<lparr>entry_key = [of_nat k], freq = 0, body = v\<rparr>"

theorem index_refines_map_witness:
  "\<exists>t. run_steps (index_step (\<lambda>k. of_nat (length k)))
      [Reserve 100, Put (demo_entry 1 10), Put (demo_entry 2 20), Bump [1], Put (demo_entry 1 11), Get [1], Remove [2], Get [2]] dash_new =
    Some ([None, None, None, None, Some ((demo_entry 1 10)\<lparr>freq := 1\<rparr>), Some ((demo_entry 1 11)\<lparr>freq := 1\<rparr>),
           Some (demo_entry 2 20), None], t) \<and> dash_len t = 1"
  using index_refines_map [of "[Reserve 100, Put (demo_entry 1 10), Put (demo_entry 2 20), Bump [1], Put (demo_entry 1 11), Get [1], Remove [2], Get [2]]"
      "\<lambda>k. of_nat (length k)"]
  by (auto simp: demo_entry_def bump_freq_def set_freq_def MAX_FREQ_def u64_max_def)

text \<open>
  C23: the layout of the index. After every sequence of operations the index is the empty one, which has allocated nothing,
  or its directory has \<open>2 ^ global_depth\<close> entries with \<open>global_depth\<close> at most 20, these name exactly the segments there
  are, every segment has its first \<open>len\<close> slots initialised and no other, no segment is deeper than the directory,
  and every entry is in the segment to which the directory sends the top bits of its hash.
\<close>

theorem index_layout:
  assumes "\<forall>n. Reserve n \<in> set ops \<longrightarrow> n + length ops \<le> u64_max"
  shows "\<exists>rs t. run_steps (index_step hash) ops dash_new = Some (rs, t) \<and>
    (t = dash_new \<or>
     global_depth t \<le> 20 \<and> length (directory t) = 2 ^ global_depth t \<and> set (directory t) = {..<length (segments t)} \<and>
     (\<forall>k < length (segments t). let s = segments t ! k in
        length (items s) = 64 \<and> seg_len s \<le> 64 \<and> (\<forall>i < 64. items s ! i \<noteq> None \<longleftrightarrow> i < seg_len s) \<and>
        local_depth s \<le> global_depth t \<and>
        (\<forall>r \<in> set (seg_recs s). directory t ! dir_index t (hash (entry_key (snd r))) = k)))"
proof -
  obtain t where t: "run_steps (index_step hash) ops dash_new = Some (fst (run_spec map_step ops Map.empty), t)"
      "dash_ok (\<lambda>e. hash (entry_key e)) t"
    using run_represents [OF assms, of hash] by (auto simp: represents_def)
  show ?thesis
  proof (cases "t = dash_new")
    case False
    then have dir: "dir_ok t" and rec: "recs_ok (\<lambda>e. hash (entry_key e)) t"
      using t(2) by (simp_all add: dash_ok_def dash_live_def)
    have "let s = segments t ! k in length (items s) = 64 \<and> seg_len s \<le> 64 \<and> (\<forall>i < 64. items s ! i \<noteq> None \<longleftrightarrow> i < seg_len s) \<and>
        local_depth s \<le> global_depth t \<and> (\<forall>r \<in> set (seg_recs s). directory t ! dir_index t (hash (entry_key (snd r))) = k)"
      if "k < length (segments t)" for k
      using recs_okD(1) [OF rec that] recs_okD(3) [OF rec that] dir_okD(4) [OF dir that]
      by (simp add: Let_def seg_ok_def SEGMENT_CAP_def home_def)
    then show ?thesis using t(1) dir_okD(1-3) [OF dir] by blast
  qed (use t(1) in blast)
qed

theorem index_layout_witness:
  "\<exists>rs t. run_steps (index_step (\<lambda>k. of_nat (length k))) [Put (demo_entry 1 10)] dash_new = Some (rs, t) \<and> global_depth t \<le> 20"
proof -
  have "\<forall>n. (Reserve n :: nat index_op) \<in> set [Put (demo_entry 1 10)] \<longrightarrow> n + length [Put (demo_entry 1 10)] \<le> u64_max" by simp
  from index_layout [OF this] show ?thesis by (fastforce simp: dash_new_def)
qed

text \<open>
  C24: when no record matches, an entry for a new record makes room for it: the vacancy is in the segment to which the
  directory sends the hash, and that segment has a free slot, unless all its records have that very hash or the
  directory is at its largest depth and the segment as deep. The bound of 64 splits is never the reason. The
  records of the index stay the same.
\<close>

theorem entry_makes_room:
  assumes "dash_ok hasher t" and "\<forall>x. eq x \<longrightarrow> hasher x = h" and "\<forall>x \<in># records t. \<not> eq x"
  shows "\<exists>t'. dash_entry t h eq hasher = Some (Vacant (home t' h) (fingerprint h), t') \<and> dash_ok hasher t' \<and> records t' = records t \<and>
    (let s = segments t' ! home t' h in
     seg_count s < SEGMENT_CAP \<or> (\<forall>x \<in># bag s. hasher x = h) \<or>
     local_depth s = global_depth t' \<and> global_depth t' = MAX_GLOBAL_DEPTH)"
proof -
  obtain t' where t': "dash_entry t h eq hasher = Some (Vacant (home t' h) (fingerprint h), t')" "dash_live hasher t'"
      "records t' = records t" "room_or_reason hasher h t'"
    using dash_entry_correct [OF assms(1), of eq h] assms(2,3) by (metis holds_in_records)
  have "seg_ok (segments t' ! home t' h)"
    using t'(2) home_less [of t' h] by (auto simp: dash_live_def recs_okD)
  then show ?thesis using t' by (auto simp: room_or_reason_def Let_def)
qed

theorem entry_makes_room_witness:
  "\<exists>t'. dash_entry dash_new 5 (\<lambda>x. x = 5) (\<lambda>x. of_nat x) = Some (Vacant (home t' 5) (fingerprint 5), t') \<and> records t' = {#}"
  using entry_makes_room [of "\<lambda>x. of_nat x" dash_new "\<lambda>x. x = 5" 5] by auto

end
