(* ===== verification/Spec2Isabelle.thy ===== *)
theory Spec2Isabelle
  imports Cluster_Config Resp_Reply Multikey Slot_Rebalance Slot_Dedup Slot_Build Upgrade_Liveness Store_Index
begin

text \<open>
  A verification library for IronCache, a sharded in-memory store that speaks the RESP protocol. The program has a
  control plane, a Raft cluster that agrees on which node owns which hash slot, and a data plane: every node decodes
  requests, routes each key to the shard that owns its slot, looks it up in that shard's index and encodes a reply. A
  rolling upgrade replaces the nodes one after the other. The library models the parts of both planes that are pure
  functions or explicit state machines in the sources. Paths below are relative to \<open>src/crates\<close>.

  \<^bold>\<open>Conventions.\<close> A struct is a record and an enum a datatype with the source's fields and constructors. A method
  that mutates \<open>self\<close> returns the new state. A panic, which includes arithmetic overflow since the release profile
  checks it, is the result \<open>None\<close> of an option type; an error value is the left side of a sum. Terms, log indexes, epochs
  and other counters of 64 bits are natural numbers, so a panic by overflow of such a counter is outside the model; words
  are used where bits or wrap-around matter. Strings are lists of bytes.
  \<open>Prelude\<close>, \<open>Bytes\<close> and \<open>Collections\<close> hold the shared types, the integer codecs, and the operations on slices with their
  lemmas.

  \<^bold>\<open>Raft engine\<close> (\<open>ironcache-raft\<close>, \<open>ironcache-env\<close>).
  \<open>Env\<close> models the clock and the random number generator of a node, \<open>Raft_Types\<close> the messages, entries, configuration
  and effects, \<open>Raft_Storage\<close> the operations of \<open>MemStorage\<close>, \<open>Raft_Log\<close> how a batch of entries is merged into a log,
  and \<open>Raft_Node\<close> the node with every handler of \<open>lib.rs\<close>: elections with pre-vote, replication, commitment, snapshots and
  membership changes. A handler threads the node, its environment and an effect sink; the state machine is a record of
  its operations. The interface locales are \<open>raft_storage\<close> (what the node relies on from its storage), \<open>quorum_system\<close> and
  \<open>reconfigurable_quorums\<close> (\<open>Quorum\<close>), and \<open>snapshot_sm\<close> (what a state machine promises about its snapshots).
  \<open>Raft_Cluster\<close> puts nodes and a network together as a step relation in which messages may be lost, repeated and
  reordered, timers fire and clients propose at any time, and nodes crash and restart. \<open>Raft_Election\<close>, \<open>Raft_History\<close>,
  \<open>Raft_Replication\<close>, \<open>Raft_Agreement\<close>, \<open>Raft_Commit\<close> and \<open>Raft_Append\<close> build the invariants; \<open>Raft_Consensus\<close> states the
  results: log matching, leader completeness, agreement on committed entries, equal runs of the state machines, and that neither
  \<open>expect\<close> of the engine fails, for proposals other than membership changes. Election safety is in \<open>Raft_Cluster\<close>. All of these theorems are about clusters with a fixed set of voters; those of
  \<open>Raft_Consensus\<close> need compaction switched off as well (\<open>snapshot_threshold = 0\<close>; the server's default is not zero).
  \<open>Raft_Handlers\<close> and \<open>Raft_Snapshots\<close> treat single handlers with membership changes and compaction: the lease rules,
  the overlap of majorities, reassembly of a chunked snapshot and what compaction keeps. They also show two places
  where the engine departs from the algorithm, which is why the cluster theorems are not stated for those features.

  \<^bold>\<open>Cluster configuration\<close> (\<open>ironcache-cluster\<close>, \<open>ironcache-raft-net\<close>).
  \<open>Slot_Map\<close> models \<open>SlotMap\<close>, \<open>Slot_Routing\<close> its meaning as a map from slots to endpoints, \<open>Slot_Snapshot\<close> its
  serialised form, \<open>Slot_Build\<close> the checks on a static topology, \<open>Slot_Dedup\<close> the collapsing of entries that share an
  endpoint, and \<open>Slot_Rebalance\<close> the planner of slot moves. \<open>Config_Sm\<close> is the state machine that applies committed
  commands to a slot map, shown to refine a specification on node ids for every command but the removal of the node
  itself; it also shows that a command that names a node unknown to the log can give a slot two owners.
  \<open>Cluster_Config\<close> joins it to the Raft cluster: nodes that applied equally many entries redirect every slot to the same
  endpoint as long as the log adds a node before it gives it slots and removes neither of the two, and a restart from a
  snapshot restores the routing state. \<open>Raft_Codec\<close> is the wire format of the consensus messages, built from interpretations of
  the locale \<open>codec\<close>.

  \<^bold>\<open>Protocol and routing\<close> (\<open>ironcache-protocol\<close>, \<open>route.rs\<close> and \<open>cmd_keyspace.rs\<close> of \<open>ironcache-server\<close>,
  \<open>ironcache/src/multikey.rs\<close>).
  \<open>Key_Slot\<close> is the CRC and the hash tag of a key, with the CRC shown to be the remainder of the polynomial division.
  \<open>Resp_Types\<close>, \<open>Resp_Decode\<close> and \<open>Resp_Encode\<close> model the decoder and the encoder; \<open>Resp_Framing\<close> shows that a request
  survives the round trip, that splitting a buffer between reads does not change the result, that limits hold and that
  the loop returns; \<open>Resp_Reply\<close> shows that a reply is one frame whatever text it carries. The byte search of the
  \<open>memchr\<close> crate and the shortest decimal digits of the \<open>ryu\<close> crate are parameters. \<open>Shard_Route\<close> and \<open>Multikey\<close> model
  the owner of a key and the fan-out of a command over several shards; the answers may come in any order. The
  commands that count keys are in \<open>Keyspace_Cmds\<close>, over the locale \<open>key_store\<close>, which the shard store with its lazy expiry
  interprets; fanned out, they reply and act as on one store.

  \<^bold>\<open>Keyspace index\<close> (\<open>ironcache-dashtable/src/index.rs\<close> and its uses in \<open>ironcache-store\<close>).
  \<open>Dash_Segment\<close> models a segment with its partly initialised slots, where a read of a slot that is not initialised is
  \<open>None\<close>; \<open>Dash_Index\<close> the directory, splitting and reservation, with the invariant of extendible hashing; \<open>Dash_Table\<close>
  what each operation does to the multiset of records. \<open>Store_Index\<close> has the operations as the store calls them and
  the locale \<open>implementation\<close>, interpreted on them: the index answers as a finite map does. The hash function is a
  parameter and no property of it is assumed. The loop of \<open>entry\<close> needs no fuel: it ends after 64 splits, and is shown
  to end earlier for a better reason.

  \<^bold>\<open>Rolling upgrade\<close> (\<open>ironcache-repl/src/upgrade_plan.rs\<close>, \<open>lag.rs\<close>, \<open>ironcache/src/cluster_upgrade.rs\<close>,
  \<open>cluster_upgrade_driver.rs\<close>).
  \<open>Upgrade_Plan\<close> is the sequencing and its loop, \<open>Upgrade_Driver\<close> the driver over a record of the operations on the
  outside world (client, upgrader, pauser, sleeper), which may answer anything. \<open>Upgrade_Safety\<close> shows, on the trace of
  these operations, that a node is swapped only while it is a replica and that a failover happens only behind the
  write freeze to a candidate without lag; that a freeze may run out on the nodes is not part of the model. \<open>Upgrade_Liveness\<close> interprets the locale \<open>cooperative_cluster\<close> on a cluster
  that comes back within given bounds and shows that the upgrade then completes; the number of ticks that suffices is
  computed from these bounds.

  \<^bold>\<open>Fuel.\<close> Loops are recursions on the data or on a measure. Loops that poll the outside world recurse on the number of
  attempts the configuration gives them, as in the sources.

  \<^bold>\<open>Not modelled.\<close> Sockets, threads, the event loops, signals and process start have no pure description in the
  sources; the modelled parts see them as arguments, results and the order of steps. The console, metrics, benchmarks
  and the test harness do not take part in serving a request. Durable Raft storage, snapshot files and the
  replication stream are file and network formats around the modelled engine; the engine is verified over its storage
  operations. The other command handlers, the byte layout of entries and collections, eviction queues and the
  active expiry cycle act on store values that the model keeps opaque. Parsing of configuration files and of INFO replies is left out because
  the modelled parts take the parsed values. In the modelled files, text of messages and the derived traits for
  printing, cloning and dropping are left out.
\<close>

end
